(* ===== verification/CBase.thy ===== *)
theory CBase
  imports Main "HOL-Library.Word" "HOL-Library.Sublist"
begin

text \<open>
  Shared vocabulary of the development: why execution of C code stops, results, memory
  blocks with uninitialised cells, the allocator, C strings, and the \<open>for\<close> loop.

  C code that meets undefined behaviour, fails an \<open>assert\<close>, calls \<open>exit\<close> or waits for
  ever in a system call does not return; every such case is a value of \<open>halt\<close>, and a function
  of the source is a function into \<open>halt + 'a\<close>, \<open>Inl\<close> when it does not return.
\<close>

named_theorems c_simps \<open>evaluation rules of the memory and result combinators\<close>

section \<open>Results\<close>

type_synonym byte = "8 word"
type_synonym u64 = "64 word"

datatype halt =
    NullDeref | OutOfBounds | UninitRead | UseAfterFree | DivByZero
  | Unterminated | BadCall | AssertFail | Exited int | Blocked | NoFuel

type_synonym 'a res = "halt + 'a"

definition rbind :: "'a res \<Rightarrow> ('a \<Rightarrow> 'b res) \<Rightarrow> 'b res" where
  "rbind m k = (case m of Inl e \<Rightarrow> Inl e | Inr x \<Rightarrow> k x)"

lemma rbind_Inl [simp, c_simps]: "rbind (Inl e) k = Inl e"
  by (simp add: rbind_def)

lemma rbind_Inr [simp, c_simps]: "rbind (Inr x) k = k x"
  by (simp add: rbind_def)

lemma rbind_eq_Inr: "rbind m k = Inr y \<longleftrightarrow> (\<exists>x. m = Inr x \<and> k x = Inr y)"
  by (cases m) simp_all

lemma rbind_eq_Inl: "rbind m k = Inl e \<longleftrightarrow> m = Inl e \<or> (\<exists>x. m = Inr x \<and> k x = Inl e)"
  by (cases m) simp_all

lemma rbind_cong [fundef_cong]:
  "m = m' \<Longrightarrow> (\<And>x. m' = Inr x \<Longrightarrow> k x = k' x) \<Longrightarrow> rbind m k = rbind m' k'"
  by (cases m') simp_all

text \<open>Increments of a 64-bit counter below another one do not wrap.\<close>

lemma unat_u64: "unat (x :: u64) < 2 ^ 64"
  using unsigned_less [of x] by simp

lemma unat_u64_add: "unat (x :: u64) + k < 2 ^ 64 \<Longrightarrow> unat (x + of_nat k) = unat x + k"
  by (simp add: unat_word_ariths unat_of_nat)

lemma unat_u64_inc: "unat (x :: u64) < unat (y :: u64) \<Longrightarrow> unat (x + 1) = Suc (unat x)"
  using unat_u64_add [of x 1] unat_u64 [of y] by simp

section \<open>Memory blocks\<close>

text \<open>
  A block of memory is what a pointer to the start of an array may designate: nothing
  (\<open>Null\<close>), memory given back with \<open>free\<close> (\<open>Freed\<close>), or an array of cells, each
  uninitialised (\<open>Junk\<close>) or holding a value.  \<open>rd\<close> and \<open>wr\<close> are \<open>p[i]\<close> as an
  rvalue and as the target of an assignment.
\<close>

datatype 'a cell = Junk | Val 'a

datatype 'a block = Null | Freed | Block "'a cell list"

definition rd :: "'a block \<Rightarrow> nat \<Rightarrow> 'a res" where
  "rd b i = (case b of Null \<Rightarrow> Inl NullDeref | Freed \<Rightarrow> Inl UseAfterFree
     | Block cs \<Rightarrow> if i < length cs
         then (case cs ! i of Junk \<Rightarrow> Inl UninitRead | Val v \<Rightarrow> Inr v)
         else Inl OutOfBounds)"

definition wr :: "'a block \<Rightarrow> nat \<Rightarrow> 'a \<Rightarrow> 'a block res" where
  "wr b i v = (case b of Null \<Rightarrow> Inl NullDeref | Freed \<Rightarrow> Inl UseAfterFree
     | Block cs \<Rightarrow> if i < length cs then Inr (Block (cs[i := Val v])) else Inl OutOfBounds)"

abbreviation vals :: "'a list \<Rightarrow> 'a block" where
  "vals xs \<equiv> Block (map Val xs)"

lemma rd_vals [simp, c_simps]: "i < length xs \<Longrightarrow> rd (vals xs) i = Inr (xs ! i)"
  by (simp add: rd_def)

lemma rd_vals_oob [simp, c_simps]: "length xs \<le> i \<Longrightarrow> rd (vals xs) i = Inl OutOfBounds"
  by (simp add: rd_def)

lemma rd_Null [simp, c_simps]: "rd Null i = Inl NullDeref"
  by (simp add: rd_def)

lemma wr_vals [simp, c_simps]: "i < length xs \<Longrightarrow> wr (vals xs) i v = Inr (vals (xs[i := v]))"
  by (simp add: wr_def map_update)

lemma wr_vals_oob [simp, c_simps]: "length xs \<le> i \<Longrightarrow> wr (vals xs) i v = Inl OutOfBounds"
  by (simp add: wr_def)

text \<open>A freshly allocated array whose first \<open>length xs\<close> cells are already initialised.\<close>

abbreviation part :: "'a list \<Rightarrow> nat \<Rightarrow> 'a block" where
  "part xs k \<equiv> Block (map Val xs @ replicate k Junk)"

lemma wr_part [simp, c_simps]: "wr (part xs (Suc k)) (length xs) v = Inr (part (xs @ [v]) k)"
  by (simp add: wr_def list_update_append)

lemma part_0 [simp]: "part xs 0 = vals xs"
  by simp

section \<open>The allocator\<close>

text \<open>
  Whether a \<open>malloc\<close>, \<open>calloc\<close> or \<open>realloc\<close> succeeds is not determined by the
  program: the state lists the outcomes of the next requests, and every request after the
  list succeeds.  \<open>live\<close> counts the blocks that are allocated and not yet freed.
\<close>

record mem =
  outcomes :: "bool list"
  live :: int

definition next_outcome :: "mem \<Rightarrow> bool \<times> mem" where
  "next_outcome m = (case outcomes m of [] \<Rightarrow> (True, m)
     | b # bs \<Rightarrow> (b, m\<lparr>outcomes := bs\<rparr>))"

definition alloc :: "mem \<Rightarrow> bool \<times> mem" where
  "alloc m = (case next_outcome m of
     (b, m') \<Rightarrow> (b, if b then m'\<lparr>live := live m' + 1\<rparr> else m'))"

definition dealloc :: "mem \<Rightarrow> mem" where
  "dealloc m = m\<lparr>live := live m - 1\<rparr>"

definition mem_ok :: "mem \<Rightarrow> bool" where
  "mem_ok m \<longleftrightarrow> False \<notin> set (outcomes m)"

text \<open>Nothing allocated yet, and every allocation succeeds.\<close>

definition mem0 :: mem where "mem0 = \<lparr>outcomes = [], live = 0\<rparr>"

lemma next_outcome_ok:
  "mem_ok m \<Longrightarrow> \<exists>m'. next_outcome m = (True, m') \<and> mem_ok m' \<and> live m' = live m"
  by (auto simp: next_outcome_def mem_ok_def split: list.splits)

lemma alloc_ok: "mem_ok m \<Longrightarrow> \<exists>m'. alloc m = (True, m') \<and> mem_ok m' \<and> live m' = live m + 1"
  using next_outcome_ok [of m] by (auto simp: alloc_def mem_ok_def)

lemma next_outcome_live: "next_outcome m = (b, m') \<Longrightarrow> live m' = live m"
  by (auto simp: next_outcome_def split: list.splits)

lemma alloc_live: "alloc m = (b, m') \<Longrightarrow> live m' = live m + (if b then 1 else 0)"
  by (auto simp: alloc_def next_outcome_live split: prod.splits if_splits)

lemma dealloc_live [simp]: "live (dealloc m) = live m - 1"
  by (simp add: dealloc_def)

lemma dealloc_ok [simp]: "mem_ok (dealloc m) = mem_ok m"
  by (simp add: dealloc_def mem_ok_def)

lemma dealloc_outcomes [simp]: "outcomes (dealloc m) = outcomes m"
  by (simp add: dealloc_def)

text \<open>
  \<open>realloc\<close> to \<open>n\<close> cells: the common prefix is kept, what is new is uninitialised.
\<close>

definition c_realloc :: "'a block \<Rightarrow> nat \<Rightarrow> 'a block res" where
  "c_realloc b n = (case b of Null \<Rightarrow> Inr (Block (replicate n Junk)) | Freed \<Rightarrow> Inl UseAfterFree
     | Block c \<Rightarrow> Inr (Block (take n c @ replicate (n - length c) Junk)))"

text \<open>A halt that can only be blamed on a failed allocation.\<close>

definition oom :: "mem \<Rightarrow> halt \<Rightarrow> bool" where
  "oom m e \<longleftrightarrow> e = NullDeref \<and> \<not> mem_ok m"

lemma next_outcome_mem_ok: "next_outcome m = (b, m') \<Longrightarrow> mem_ok m \<Longrightarrow> b \<and> mem_ok m'"
  using next_outcome_ok [of m] by auto

lemma alloc_mem_ok: "alloc m = (b, m') \<Longrightarrow> mem_ok m \<Longrightarrow> b \<and> mem_ok m'"
  using alloc_ok [of m] by auto

text \<open>From \<open>m\<close> to \<open>m'\<close>, \<open>d\<close> more blocks became live, and no failure was invented.\<close>

definition mem_step :: "mem \<Rightarrow> int \<Rightarrow> mem \<Rightarrow> bool" where
  "mem_step m d m' \<longleftrightarrow> (mem_ok m \<longrightarrow> mem_ok m') \<and> live m' = live m + d"

lemma mem_step_refl [simp]: "mem_step m 0 m"
  by (simp add: mem_step_def)

lemma mem_step_trans: "mem_step m d m' \<Longrightarrow> mem_step m' d' m'' \<Longrightarrow> mem_step m (d + d') m''"
  by (simp add: mem_step_def)

lemma mem_step_dealloc: "mem_step m d m' \<Longrightarrow> mem_step m (d - 1) (dealloc m')"
  by (simp add: mem_step_def)

lemma mem_step_alloc: "alloc m = (True, m') \<Longrightarrow> mem_step m 1 m'"
  using alloc_mem_ok alloc_live by (auto simp: mem_step_def)

lemma oom_step: "mem_step m d m' \<Longrightarrow> oom m' e \<Longrightarrow> oom m e"
  by (auto simp: mem_step_def oom_def)

section \<open>C strings\<close>

text \<open>
  A \<open>cstr\<close> is the bytes of a NUL-terminated string before its terminator; \<open>cstr_ok\<close>
  says that none of them is NUL.  \<open>cs\<close> gives the bytes of a string literal.
\<close>

type_synonym cstr = "byte list"

definition cs :: "string \<Rightarrow> cstr" where
  "cs s = map of_char s"

definition cstr_ok :: "cstr \<Rightarrow> bool" where
  "cstr_ok s \<longleftrightarrow> 0 \<notin> set s"

definition c_strlen :: "cstr \<Rightarrow> nat" where
  "c_strlen s = length s"

fun c_strncmp :: "nat \<Rightarrow> cstr \<Rightarrow> cstr \<Rightarrow> int" where
  "c_strncmp 0 a b = 0"
| "c_strncmp (Suc n) [] [] = 0"
| "c_strncmp (Suc n) (x # a) [] = uint x"
| "c_strncmp (Suc n) [] (y # b) = - uint y"
| "c_strncmp (Suc n) (x # a) (y # b) =
     (if x \<noteq> y then uint x - uint y else c_strncmp n a b)"

lemma c_strncmp_same_length:
  "length a = length b \<Longrightarrow> c_strncmp (length a) a b = 0 \<longleftrightarrow> a = b"
  by (induction a b rule: list_induct2) (auto simp: word_uint_eq_iff)

lemma c_strncmp_prefix:
  "cstr_ok a \<Longrightarrow> c_strncmp (length a) a b = 0 \<longleftrightarrow> prefix a b"
proof (induction a arbitrary: b)
  case (Cons x a)
  then show ?case by (cases b) (auto simp: cstr_ok_def word_uint_eq_iff)
qed simp

text \<open>The test of the source, equal lengths and \<open>strncmp\<close> equal, is equality.\<close>

lemma strn_eq_iff [simp]:
  "c_strlen k = c_strlen k' \<and> c_strncmp (c_strlen k) k k' = 0 \<longleftrightarrow> k = k'"
  using c_strncmp_same_length by (auto simp: c_strlen_def)

section \<open>The counting loop\<close>

text \<open>
  \<open>for_loop body i k s\<close> runs \<open>body\<close> for the counter values \<open>i\<close>, \<open>i + 1\<close>, \dots,
  \<open>i + k - 1\<close>, threading the state; \<open>Break r\<close> is a \<open>break\<close> or a \<open>return\<close> out of it.
\<close>

datatype ('s, 'r) ctl = Next 's | Break 'r

fun for_loop :: "(nat \<Rightarrow> 's \<Rightarrow> ('s, 'r) ctl res) \<Rightarrow> nat \<Rightarrow> nat \<Rightarrow> 's \<Rightarrow> ('s, 'r) ctl res" where
  "for_loop body i 0 s = Inr (Next s)"
| "for_loop body i (Suc k) s =
     (case body i s of Inl e \<Rightarrow> Inl e | Inr (Break r) \<Rightarrow> Inr (Break r)
      | Inr (Next s') \<Rightarrow> for_loop body (Suc i) k s')"

text \<open>The state a loop without a \<open>return\<close> in it ends in.\<close>

definition run_loop :: "(nat \<Rightarrow> 's \<Rightarrow> ('s, 's) ctl res) \<Rightarrow> nat \<Rightarrow> nat \<Rightarrow> 's \<Rightarrow> 's res" where
  "run_loop body i k s = rbind (for_loop body i k s)
     (\<lambda>c. Inr (case c of Next t \<Rightarrow> t | Break t \<Rightarrow> t))"

section \<open>Correctness assertions\<close>

text \<open>
  \<open>gives r Q E\<close>: the result \<open>r\<close> satisfies \<open>Q\<close> when the code returns, and when it halts
  the reason satisfies \<open>E\<close>.  The rules decompose a result along the code.
\<close>

definition gives :: "'a res \<Rightarrow> ('a \<Rightarrow> bool) \<Rightarrow> (halt \<Rightarrow> bool) \<Rightarrow> bool" where
  "gives r Q E = (case r of Inl e \<Rightarrow> E e | Inr x \<Rightarrow> Q x)"

lemma gives_Inr [simp]: "gives (Inr x) Q E = Q x"
  by (simp add: gives_def)

lemma gives_Inl [simp]: "gives (Inl e) Q E = E e"
  by (simp add: gives_def)

lemma gives_rbind:
  assumes "gives r P E" "\<And>x. P x \<Longrightarrow> gives (k x) Q E"
  shows "gives (rbind r k) Q E"
  using assms by (cases r) auto

lemma gives_mono:
  assumes "gives r P E" "\<And>x. P x \<Longrightarrow> Q x" "\<And>e. E e \<Longrightarrow> F e"
  shows "gives r Q F"
  using assms by (cases r) auto

lemma gives_conj: "gives r P E \<Longrightarrow> gives r Q E \<Longrightarrow> gives r (\<lambda>x. P x \<and> Q x) E"
  by (cases r) auto

lemma gives_total: "gives r Q (\<lambda>_. False) \<longleftrightarrow> (\<exists>x. r = Inr x \<and> Q x)"
  by (cases r) auto

lemma gives_Inr_D: "gives r Q E \<Longrightarrow> r = Inr x \<Longrightarrow> Q x"
  by simp

text \<open>An invariant \<open>P\<close> of the counter and the state; \<open>R\<close> holds on a break.\<close>

lemma gives_for_loop:
  assumes "P i s"
    and "\<And>j t. i \<le> j \<Longrightarrow> j < i + k \<Longrightarrow> P j t \<Longrightarrow>
      gives (body j t) (\<lambda>c. case c of Next t' \<Rightarrow> P (Suc j) t' | Break r \<Rightarrow> R r) E"
    and "\<And>t. P (i + k) t \<Longrightarrow> Q (Next t)" "\<And>r. R r \<Longrightarrow> Q (Break r)"
  shows "gives (for_loop body i k s) Q E"
  using assms
proof (induction k arbitrary: i s)
  case (Suc k)
  have b: "gives (body i s) (\<lambda>c. case c of Next t' \<Rightarrow> P (Suc i) t' | Break r \<Rightarrow> R r) E"
    using Suc.prems(1,2) by simp
  have IH: "gives (for_loop body (Suc i) k t) Q E" if "P (Suc i) t" for t
    using that Suc.prems by (intro Suc.IH) auto
  show ?case
  proof (cases "body i s")
    case (Inr c)
    then show ?thesis using b IH Suc.prems(4) by (cases c) auto
  qed (use b in simp)
qed simp

lemma gives_run_loop:
  assumes "P i s"
    and "\<And>j t. i \<le> j \<Longrightarrow> j < i + k \<Longrightarrow> P j t \<Longrightarrow>
      gives (body j t) (\<lambda>c. case c of Next t' \<Rightarrow> P (Suc j) t' | Break t' \<Rightarrow> Q t') E"
    and "\<And>t. P (i + k) t \<Longrightarrow> Q t"
  shows "gives (run_loop body i k s) Q E"
  unfolding run_loop_def
  by (rule gives_rbind, rule gives_for_loop [where P = P and R = Q
      and Q = "\<lambda>c. Q (case c of Next t \<Rightarrow> t | Break t \<Rightarrow> t)"]) (use assms in auto)

end
