(* ===== verification/Float32.thy ===== *)
theory Float32
  imports CBase "HOL-Library.Log_Nat" Complex_Main
begin

text \<open>
  The single-precision arithmetic of the load test of \<open>set.c\<close>,
  \<open>(float)used_nodes / number_nodes > 0.25\<close>.  A finite \<open>float\<close> is the rational it
  stands for; \<open>f32_round\<close> is the IEEE 754 rounding to 24 significant bits, to nearest
  with ties to even.  The values here lie between \<open>2 ^ -64\<close> and \<open>2 ^ 64\<close>, well inside
  the range of normal numbers, so there is neither underflow nor overflow.
\<close>

section \<open>Rounding\<close>

definition rne :: "rat \<Rightarrow> int" where
  "rne y = (let f = \<lfloor>y\<rfloor>; d = y - of_int f in
     if d < 1 / 2 then f else if d > 1 / 2 then f + 1 else if even f then f else f + 1)"

definition f32_exp :: "rat \<Rightarrow> int" where
  "f32_exp x = (let d = int (floorlog 2 (nat (fst (quotient_of x))))
                      - int (floorlog 2 (nat (snd (quotient_of x))))
     in if 2 powi d \<le> x then d else d - 1)"

definition f32_round :: "rat \<Rightarrow> rat" where
  "f32_round x = (if x = 0 then 0 else
     (let e = f32_exp x - 23 in of_int (rne (x / 2 powi e)) * 2 powi e))"

lemma rne_error: "\<bar>of_int (rne y) - y\<bar> \<le> 1 / 2"
proof -
  have "of_int \<lfloor>y\<rfloor> \<le> y" "y < of_int \<lfloor>y\<rfloor> + 1" by linarith+
  then show ?thesis unfolding rne_def Let_def by (simp only: abs_le_iff split: if_split) linarith
qed

lemma rne_int [simp]: "rne (of_int k) = k"
  by (simp add: rne_def)

lemma rne_ge: "of_int k \<le> y \<Longrightarrow> k \<le> rne y"
  by (simp add: rne_def Let_def le_floor_iff) linarith

lemma rne_le: "y \<le> of_int k \<Longrightarrow> rne y \<le> k"
proof (cases "y = of_int k")
  case False
  assume "y \<le> of_int k"
  with False have "\<lfloor>y\<rfloor> < k" by (simp add: floor_less_iff)
  then show ?thesis by (simp add: rne_def Let_def)
qed simp

lemma rne_gt: "of_int k + 1 / 2 < y \<Longrightarrow> k < rne y"
proof -
  assume "of_int k + 1 / 2 < y"
  with rne_error [of y] have "rat_of_int k < of_int (rne y)" unfolding abs_le_iff by linarith
  then show ?thesis by simp
qed

lemma quotient_pos:
  assumes "0 < x"
  obtains p q :: nat where "quotient_of x = (int p, int q)" "0 < p" "0 < q"
    "x = rat_of_nat p / rat_of_nat q"
proof -
  obtain a b where ab: "quotient_of x = (a, b)" by (cases "quotient_of x")
  have b: "0 < b" using ab quotient_of_denom_pos by blast
  have x: "x = of_int a / of_int b" using ab quotient_of_div by blast
  with assms b have "0 < a" by (simp add: zero_less_divide_iff)
  with b ab x show ?thesis by (intro that [of "nat a" "nat b"]) auto
qed

lemma floorlog_rat:
  assumes "0 < n"
  shows "2 powi (int (floorlog 2 n) - 1) \<le> rat_of_nat n \<and> rat_of_nat n < 2 powi int (floorlog 2 n)"
proof -
  have f: "2 ^ (floorlog 2 n - 1) \<le> n \<and> n < 2 ^ floorlog 2 n"
    using floorlog_bounds [of n 2] assms by simp
  have "0 < floorlog 2 n" using assms by (simp add: floorlog_def)
  then have "int (floorlog 2 n) - 1 = int (floorlog 2 n - 1)" by simp
  then have "2 powi (int (floorlog 2 n) - 1) = rat_of_nat (2 ^ (floorlog 2 n - 1))"
    by (simp only: power_int_of_nat) simp
  moreover have "2 powi int (floorlog 2 n) = rat_of_nat (2 ^ floorlog 2 n)" by simp
  ultimately show ?thesis using f by (simp only: of_nat_le_iff of_nat_less_iff)
qed

lemma f32_exp_bounds:
  assumes "0 < x"
  shows "2 powi f32_exp x \<le> x" "x < 2 powi (f32_exp x + 1)"
proof -
  obtain p q where pq: "quotient_of x = (int p, int q)" "0 < p" "0 < q"
    "x = rat_of_nat p / rat_of_nat q" using assms by (rule quotient_pos)
  define a b where "a = int (floorlog 2 p)" and "b = int (floorlog 2 q)"
  have p: "2 powi (a - 1) \<le> rat_of_nat p" "rat_of_nat p < 2 powi a"
    and q: "2 powi (b - 1) \<le> rat_of_nat q" "rat_of_nat q < 2 powi b"
    using floorlog_rat [OF pq(2)] floorlog_rat [OF pq(3)] by (auto simp: a_def b_def)
  have "2 powi (a - 1) / 2 powi b \<le> rat_of_nat p / rat_of_nat q"
    using p q pq(3) by (intro frac_le) auto
  then have lo: "2 powi (a - b - 1) \<le> x"
    using pq(4) by (simp add: power_int_diff power_int_add)
  have "rat_of_nat p / rat_of_nat q < 2 powi a / 2 powi (b - 1)"
    using p q pq(3) by (intro frac_less) auto
  then have hi: "x < 2 powi (a - b + 1)"
    using pq(4) by (simp add: power_int_diff power_int_add)
  have e: "f32_exp x = (if 2 powi (a - b) \<le> x then a - b else a - b - 1)"
    by (simp add: f32_exp_def pq(1) a_def b_def Let_def)
  show "2 powi f32_exp x \<le> x" "x < 2 powi (f32_exp x + 1)"
    using lo hi by (auto simp: e not_le)
qed

section \<open>Accuracy\<close>

lemma f32_round_0 [simp]: "f32_round 0 = 0"
  by (simp add: f32_round_def)

text \<open>The relative error of one rounding is at most \<open>2 ^ -24\<close>.\<close>

lemma f32_round_error:
  assumes "0 < x"
  shows "\<bar>f32_round x - x\<bar> \<le> x / 2 ^ 24"
proof -
  define e where "e = f32_exp x - 23"
  have e: "2 powi (e + 23) \<le> x" using f32_exp_bounds(1) [OF assms] by (simp add: e_def)
  have "f32_round x - x = (of_int (rne (x / 2 powi e)) - x / 2 powi e) * 2 powi e"
    using assms by (simp add: f32_round_def e_def Let_def algebra_simps)
  then have "\<bar>f32_round x - x\<bar> = \<bar>of_int (rne (x / 2 powi e)) - x / 2 powi e\<bar> * 2 powi e"
    by (simp add: abs_mult)
  also have "\<dots> \<le> 1 / 2 * 2 powi e" by (intro mult_right_mono rne_error) simp
  also have "\<dots> = 2 powi (e + 23) / 2 ^ 24" by (simp add: power_int_add)
  also have "\<dots> \<le> x / 2 ^ 24" using e by (intro divide_right_mono) auto
  finally show ?thesis .
qed

lemma f32_round_pos: "0 < x \<Longrightarrow> 0 < f32_round x"
proof -
  assume x: "0 < x"
  then have "x / 2 ^ 24 < x" by (simp add: field_simps)
  with f32_round_error [OF x] show ?thesis unfolding abs_le_iff by linarith
qed

text \<open>Integers of at most 24 bits are represented exactly.\<close>

lemma f32_round_exact:
  assumes "n < 2 ^ 24"
  shows "f32_round (of_nat n) = of_nat n"
proof (cases "n = 0")
  case False
  define e where "e = f32_exp (of_nat n) - 23"
  have b: "2 powi (e + 23) \<le> rat_of_nat n"
    using f32_exp_bounds(1) [of "of_nat n"] False by (simp add: e_def)
  also have "\<dots> < rat_of_nat (2 ^ 24)" using assms by (simp only: of_nat_less_iff)
  also have "\<dots> = 2 powi 24" by simp
  finally have "2 powi (e + 23) < (2 powi 24 :: rat)" .
  then have "e + 23 < 24" by (rule power_int_le_imp_less_exp [rotated 1]) simp_all
  then have "e \<le> 0" by simp
  then have "2 powi e = inverse (rat_of_nat (2 ^ nat (- e)))"
    by (auto simp: power_int_def power_one_over inverse_eq_divide)
  then have s: "rat_of_nat n / 2 powi e = of_int (int (n * 2 ^ nat (- e)))"
    by (simp add: field_simps)
  have "f32_round (of_nat n) = of_int (rne (rat_of_nat n / 2 powi e)) * 2 powi e"
    using False by (simp add: f32_round_def e_def Let_def)
  also have "\<dots> = rat_of_nat n / 2 powi e * 2 powi e" by (simp only: s rne_int)
  finally show ?thesis by simp
qed simp

section \<open>The quotient of two counters\<close>

definition f32_quot :: "nat \<Rightarrow> nat \<Rightarrow> rat" where
  "f32_quot a b = f32_round (f32_round (of_nat a) / f32_round (of_nat b))"

lemma f32_bounds:
  assumes "0 < x"
  shows "x * (1 - 1 / 2 ^ 24) \<le> f32_round x" "f32_round x \<le> x * (1 + 1 / 2 ^ 24)"
  using f32_round_error [OF assms] unfolding abs_le_iff by (simp_all add: algebra_simps)

lemma f32_quot_bounds:
  assumes "0 < a" "0 < b"
  shows "f32_quot a b \<le> of_nat a / of_nat b * (1001 / 1000)"
    "of_nat a / of_nat b * (999 / 1000) \<le> f32_quot a b"
proof -
  define x y :: rat where "x = of_nat a" and "y = of_nat b"
  have xy: "0 < x" "0 < y" using assms by (simp_all add: x_def y_def)
  define u v where "u = f32_round x" and "v = f32_round y"
  have uv: "0 < u" "0 < v" using xy f32_round_pos by (simp_all add: u_def v_def)
  have u: "x * (1 - 1 / 2 ^ 24) \<le> u" "u \<le> x * (1 + 1 / 2 ^ 24)"
    and v: "y * (1 - 1 / 2 ^ 24) \<le> v" "v \<le> y * (1 + 1 / 2 ^ 24)"
    using f32_bounds xy by (simp_all add: u_def v_def)
  have q: "u / v * (1 - 1 / 2 ^ 24) \<le> f32_quot a b" "f32_quot a b \<le> u / v * (1 + 1 / 2 ^ 24)"
    using f32_bounds [of "u / v"] uv by (simp_all add: f32_quot_def u_def v_def x_def y_def)
  have "u / v \<le> x * (1 + 1 / 2 ^ 24) / (y * (1 - 1 / 2 ^ 24))"
    using u v xy by (intro frac_le) auto
  then have "u / v * (1 + 1 / 2 ^ 24)
      \<le> x * (1 + 1 / 2 ^ 24) / (y * (1 - 1 / 2 ^ 24)) * (1 + 1 / 2 ^ 24)"
    by (intro mult_right_mono) auto
  also have "\<dots> \<le> x / y * (1001 / 1000)" using xy by (simp add: field_simps)
  finally show "f32_quot a b \<le> of_nat a / of_nat b * (1001 / 1000)"
    using q by (simp add: x_def y_def)
  have "x * (1 - 1 / 2 ^ 24) / (y * (1 + 1 / 2 ^ 24)) \<le> u / v"
    using u v xy uv by (intro frac_le) auto
  then have "x * (1 - 1 / 2 ^ 24) / (y * (1 + 1 / 2 ^ 24)) * (1 - 1 / 2 ^ 24)
      \<le> u / v * (1 - 1 / 2 ^ 24)"
    by (intro mult_right_mono) auto
  moreover have "x / y * (999 / 1000)
      \<le> x * (1 - 1 / 2 ^ 24) / (y * (1 + 1 / 2 ^ 24)) * (1 - 1 / 2 ^ 24)"
    using xy by (simp add: field_simps)
  ultimately show "of_nat a / of_nat b * (999 / 1000) \<le> f32_quot a b"
    using q by (simp add: x_def y_def)
qed

lemma f32_quot_0 [simp]: "f32_quot 0 b = 0"
  by (simp add: f32_quot_def)

lemma f32_quot_le_quarter:
  assumes "f32_quot a b \<le> 1 / 4" "0 < b"
  shows "3992 * a \<le> 1000 * b"
proof (cases "a = 0")
  case False
  then have "rat_of_nat a / rat_of_nat b * (999 / 1000) \<le> 1 / 4"
    using f32_quot_bounds(2) [of a b] assms by linarith
  with assms(2) have "rat_of_nat (3996 * a) \<le> rat_of_nat (1000 * b)" by (simp add: field_simps)
  then have "3996 * a \<le> 1000 * b" by (simp only: of_nat_le_iff)
  then show ?thesis by simp
qed simp

lemma f32_quot_gt_quarter:
  assumes "1 / 4 < f32_quot a b" "0 < b"
  shows "1000 * b < 4004 * a"
proof (cases "a = 0")
  case False
  then have "1 / 4 < rat_of_nat a / rat_of_nat b * (1001 / 1000)"
    using f32_quot_bounds(1) [of a b] assms by linarith
  with assms(2) have "rat_of_nat (1000 * b) < rat_of_nat (4004 * a)" by (simp add: field_simps)
  then show ?thesis by (simp only: of_nat_less_iff)
qed (use assms in simp)

lemma f32_round_le_pow2:
  assumes "0 < x" "x \<le> 2 powi k"
  shows "f32_round x \<le> 2 powi k"
proof -
  define e where "e = f32_exp x - 23"
  have "2 powi f32_exp x \<le> (2 powi k :: rat)" using f32_exp_bounds(1) [OF assms(1)] assms(2) by simp
  then have "f32_exp x \<le> k"
    using power_int_strict_increasing [of k "f32_exp x" "2::rat"] by force
  then have "(2 powi (k - e) :: rat) = of_int (2 ^ nat (k - e))"
    by (simp add: power_int_def e_def)
  moreover have "x / 2 powi e \<le> 2 powi (k - e)"
    using assms(2) by (simp add: power_int_diff divide_right_mono)
  ultimately have "rne (x / 2 powi e) \<le> 2 ^ nat (k - e)" by (intro rne_le) simp
  then have "rat_of_int (rne (x / 2 powi e)) \<le> 2 powi (k - e)"
    using \<open>2 powi (k - e) = _\<close> of_int_le_iff by metis
  then have "rat_of_int (rne (x / 2 powi e)) * 2 powi e \<le> 2 powi (k - e) * 2 powi e"
    by (intro mult_right_mono) auto
  also have "\<dots> = 2 powi k" by (simp add: power_int_diff)
  finally show ?thesis using assms(1) by (simp add: f32_round_def e_def Let_def)
qed

lemma f32_round_gt_quarter:
  assumes "1 / 4 + 1 / 2 ^ 26 < x"
  shows "1 / 4 < f32_round x"
proof -
  have x: "0 < x" using assms by simp
  have "(2 powi (- 2) :: rat) = 1 / 4" by (simp add: power_int_def power2_eq_square)
  moreover have "1 / 4 < x" using assms by simp
  ultimately have "(2 powi (- 2) :: rat) < 2 powi (f32_exp x + 1)"
    using f32_exp_bounds(2) [OF x] by (metis order_less_trans)
  then have "- 2 < f32_exp x + 1"
    using power_int_increasing [of "f32_exp x + 1" "- 2" "2::rat"] by force
  then consider "f32_exp x = - 2" | "- 1 \<le> f32_exp x" by linarith
  then show ?thesis
  proof cases
    case 1
    have p: "(2 powi (- 25) :: rat) = 1 / 2 ^ 25" by (simp add: power_int_def power_one_over)
    have "rat_of_int (2 ^ 23) + 1 / 2 < x * 2 ^ 25" using assms by simp
    then have "2 ^ 23 < rne (x * 2 ^ 25)" by (rule rne_gt)
    then have "rat_of_int (2 ^ 23) < of_int (rne (x * 2 ^ 25))" by (simp only: of_int_less_iff)
    then show ?thesis using x by (simp add: f32_round_def 1 p Let_def)
  next
    case 2
    then have "(2 powi (- 1) :: rat) \<le> 2 powi f32_exp x" by (intro power_int_increasing) auto
    then have "1 / 2 \<le> x" using f32_exp_bounds(1) [OF x] by (simp add: power_int_def)
    with f32_bounds(1) [OF x] show ?thesis by (simp add: field_simps)
  qed
qed

text \<open>Up to 24 bits the computed test agrees with the exact one.\<close>

lemma f32_quot_exact:
  assumes "a < 2 ^ 24" "b < 2 ^ 24" "0 < b"
  shows "1 / 4 < f32_quot a b \<longleftrightarrow> b < 4 * a"
proof (cases "a = 0")
  case False
  have q: "f32_quot a b = f32_round (of_nat a / of_nat b)"
    using assms by (simp add: f32_quot_def f32_round_exact)
  show ?thesis
  proof (cases "b < 4 * a")
    case True
    have "rat_of_nat (b + 1) \<le> rat_of_nat (4 * a)" using True by (simp only: of_nat_le_iff)
    then have "rat_of_nat (b + 1) / (4 * of_nat b) \<le> rat_of_nat (4 * a) / (4 * of_nat b)"
      by (intro divide_right_mono) auto
    then have "1 / 4 + 1 / (4 * rat_of_nat b) \<le> of_nat a / of_nat b"
      using assms(3) by (simp add: add_divide_distrib)
    moreover have "rat_of_nat b < 2 ^ 24" using assms(2) by (metis of_nat_less_iff of_nat_numeral of_nat_power)
    then have "1 / 2 ^ 26 < 1 / (4 * rat_of_nat b)" using assms(3) by (simp add: field_simps)
    ultimately have "1 / 4 + 1 / 2 ^ 26 < rat_of_nat a / of_nat b" by linarith
    then have "1 / 4 < f32_round (of_nat a / of_nat b)" by (rule f32_round_gt_quarter)
    with True show ?thesis by (simp only: q)
  next
    case no: False
    then have "rat_of_nat (4 * a) \<le> rat_of_nat b" by (simp only: of_nat_le_iff not_less)
    then have "rat_of_nat a / of_nat b \<le> 2 powi (- 2)"
      using assms(3) by (simp add: power_int_def field_simps)
    then have "f32_round (of_nat a / of_nat b) \<le> 2 powi (- 2)"
      using False assms(3) by (intro f32_round_le_pow2) auto
    with no show ?thesis by (simp add: q power_int_def power2_eq_square)
  qed
qed simp

end
