(* ===== verification/Probe.thy ===== *)
theory Probe
  imports CBase
begin

text \<open>
  Open addressing with linear probing, at the level of a list of optional entries: the
  reference level on which \<open>set.c\<close> is verified.  \<open>home\<close> gives the slot an entry hashes
  to and \<open>key\<close> its identity.  The theory proves that a probe finds what is stored, and
  that the two in-place re-layout passes of \<open>set.c\<close> (over the whole table after it has
  doubled, and over the rest of a cluster after a removal) leave every entry findable.
\<close>

section \<open>Probe sequences\<close>

text \<open>The slots visited by a probe that starts at \<open>h\<close>, before it reaches \<open>p\<close>.\<close>

definition chain :: "nat \<Rightarrow> nat \<Rightarrow> nat \<Rightarrow> nat set" where
  "chain N h p = (if h \<le> p then {h..<p} else {h..<N} \<union> {..<p})"

text \<open>A probe for an entry satisfying \<open>m\<close> stops at \<open>p\<close>, an empty slot or a match.\<close>

definition stops :: "'a option list \<Rightarrow> ('a \<Rightarrow> bool) \<Rightarrow> nat \<Rightarrow> nat \<Rightarrow> bool" where
  "stops T m h p \<longleftrightarrow> p < length T
     \<and> (\<forall>r \<in> chain (length T) h p. \<exists>y. T ! r = Some y \<and> \<not> m y)
     \<and> (\<forall>y. T ! p = Some y \<longrightarrow> m y)"

definition contents :: "'a option list \<Rightarrow> 'a set" where
  "contents T = {x. Some x \<in> set T}"

definition occ :: "'a option list \<Rightarrow> nat set" where
  "occ T = {p. p < length T \<and> T ! p \<noteq> None}"

definition uniq :: "('a \<Rightarrow> 'k) \<Rightarrow> 'a option list \<Rightarrow> bool" where
  "uniq key T \<longleftrightarrow> (\<forall>p q x y. p < length T \<longrightarrow> q < length T \<longrightarrow> T ! p = Some x \<longrightarrow>
     T ! q = Some y \<longrightarrow> key x = key y \<longrightarrow> p = q)"

text \<open>The entry in slot \<open>p\<close>, if there is one, is reached by the probe from its home slot.\<close>

definition good :: "('a \<Rightarrow> nat) \<Rightarrow> 'a option list \<Rightarrow> nat \<Rightarrow> bool" where
  "good home T p \<longleftrightarrow>
     (\<forall>x. T ! p = Some x \<longrightarrow> (\<forall>r \<in> chain (length T) (home x) p. T ! r \<noteq> None))"

definition tab :: "('a \<Rightarrow> nat) \<Rightarrow> ('a \<Rightarrow> 'k) \<Rightarrow> nat \<Rightarrow> 'a set \<Rightarrow> nat \<Rightarrow> 'a option list \<Rightarrow> bool" where
  "tab home key N C u T \<longleftrightarrow> length T = N \<and> uniq key T \<and> contents T = C \<and> card (occ T) = u
     \<and> (\<forall>x \<in> C. home x < N)"

text \<open>Moving the entry of slot \<open>i\<close> to slot \<open>j\<close>.\<close>

definition move :: "'a option list \<Rightarrow> nat \<Rightarrow> nat \<Rightarrow> 'a option list" where
  "move T i j = (if i = j then T else T[j := T ! i, i := None])"

lemma contents_nth: "x \<in> contents T \<longleftrightarrow> (\<exists>p < length T. T ! p = Some x)"
  by (auto simp: contents_def in_set_conv_nth)

lemma contentsI: "p < length T \<Longrightarrow> T ! p = Some x \<Longrightarrow> x \<in> contents T"
  by (auto simp: contents_nth)

lemma occ_finite [simp]: "finite (occ T)"
  by (simp add: occ_def)

lemma occ_less: "p \<in> occ T \<Longrightarrow> p < length T"
  by (simp add: occ_def)

lemma card_occ_le: "A \<subseteq> occ T \<Longrightarrow> card A \<le> card (occ T)"
  by (rule card_mono) simp_all

lemma uniqD: "uniq key T \<Longrightarrow> p < length T \<Longrightarrow> q < length T \<Longrightarrow> T ! p = Some x \<Longrightarrow>
    T ! q = Some y \<Longrightarrow> key x = key y \<Longrightarrow> p = q"
  by (simp add: uniq_def)

lemma tabD:
  assumes "tab home key N C u T"
  shows "length T = N" "uniq key T" "contents T = C" "card (occ T) = u"
    "\<And>p x. p < N \<Longrightarrow> T ! p = Some x \<Longrightarrow> home x < N"
  using assms by (auto simp: tab_def contents_nth)

text \<open>Two probes with the same start and the same test stop at the same slot.\<close>

lemma stops_unique:
  assumes "stops T m h p" "stops T m h q" "h < length T"
  shows "p = q"
proof (rule ccontr)
  assume "p \<noteq> q"
  have "p \<in> chain (length T) h q \<or> q \<in> chain (length T) h p"
    using \<open>p \<noteq> q\<close> assms by (auto simp: stops_def chain_def)
  then show False using assms by (fastforce simp: stops_def)
qed

lemma chain_subset: "r \<in> chain N h p \<Longrightarrow> p < N \<Longrightarrow> h < N \<Longrightarrow> r < N"
  by (auto simp: chain_def split: if_splits)

text \<open>Equations to compute with.\<close>

lemma contents_code [code]: "contents T = set (map the (filter (\<lambda>x. x \<noteq> None) T))"
  by (force simp: contents_def)

lemma occ_code [code]: "occ T = set (filter (\<lambda>p. T ! p \<noteq> None) [0..<length T])"
  by (auto simp: occ_def)

lemma uniq_code [code]: "uniq key T = (\<forall>p \<in> set [0..<length T]. \<forall>q \<in> set [0..<length T].
    case T ! p of None \<Rightarrow> True | Some x \<Rightarrow> (case T ! q of None \<Rightarrow> True
      | Some y \<Rightarrow> key x = key y \<longrightarrow> p = q))"
  by (auto simp: uniq_def split: option.splits)

lemma chain_code [code]:
  "chain N h p = set (if h \<le> p then [h..<p] else [h..<N] @ [0..<p])"
  by (auto simp: chain_def)

lemma good_code [code]: "good home T p = (case T ! p of None \<Rightarrow> True
    | Some x \<Rightarrow> \<forall>r \<in> chain (length T) (home x) p. T ! r \<noteq> None)"
  by (auto simp: good_def split: option.splits)

section \<open>Lookup\<close>

text \<open>In a table whose entries are all good, a probe for \<open>x\<close> that stops empty proves absence.\<close>

lemma stops_absent:
  assumes "\<forall>p < length T. good home T p" "stops T (\<lambda>y. key y = k) h p" "T ! p = None"
    and "\<And>x. x \<in> contents T \<Longrightarrow> key x = k \<Longrightarrow> home x = h"
    and "h < length T"
  shows "\<forall>x \<in> contents T. key x \<noteq> k"
proof
  fix x assume x: "x \<in> contents T"
  then obtain q where q: "q < length T" "T ! q = Some x" by (auto simp: contents_nth)
  show "key x \<noteq> k"
  proof
    assume k: "key x = k"
    with assms(4) x have h: "home x = h" by simp
    have "q \<noteq> p" using q assms(3) by auto
    then have "p \<in> chain (length T) h q \<or> q \<in> chain (length T) h p"
      using q(1) assms(2,5) by (auto simp: stops_def chain_def)
    then show False using assms(1-3) q k h by (fastforce simp: stops_def good_def)
  qed
qed

lemma stops_present:
  assumes "\<forall>p < length T. good home T p" "uniq key T" "stops T (\<lambda>y. key y = key x) (home x) p"
    and "q < length T" "T ! q = Some x" "home x < length T"
  shows "p = q"
proof (rule stops_unique [OF assms(3) _ assms(6)])
  show "stops T (\<lambda>y. key y = key x) (home x) q"
    unfolding stops_def
  proof (intro conjI ballI)
    fix r assume r: "r \<in> chain (length T) (home x) q"
    then have rl: "r < length T" "r \<noteq> q"
      using assms(4,6) by (auto simp: chain_def split: if_splits)
    have "T ! r \<noteq> None" using assms(1,4,5) r unfolding good_def by blast
    then obtain y where y: "T ! r = Some y" by auto
    have "key y \<noteq> key x" using uniqD [OF assms(2) rl(1) assms(4) y assms(5)] rl(2) by auto
    with y show "\<exists>y. T ! r = Some y \<and> key y \<noteq> key x" by blast
  qed (use assms(4,5) in auto)
qed

section \<open>Insertion into a free slot\<close>

lemma insert_tab:
  assumes "tab home key N C u T" "i < N" "T ! i = None" "home x < N"
    and "\<And>y. y \<in> C \<Longrightarrow> key y \<noteq> key x"
  shows "tab home key N (insert x C) (Suc u) (T[i := Some x])"
proof -
  note t = tabD [OF assms(1)]
  have "contents (T[i := Some x]) = insert x C"
  proof (intro set_eqI iffI)
    fix y assume "y \<in> insert x C"
    then consider "y = x" | p where "p < N" "T ! p = Some y" "p \<noteq> i"
      using assms(3) t(1,3) by (fastforce simp: contents_nth)
    then show "y \<in> contents (T[i := Some x])"
      using assms(2) t(1) by cases (auto simp: contents_nth nth_list_update)
  qed (use assms(2,3) t(1,3) in \<open>auto simp: contents_nth nth_list_update split: if_splits\<close>)
  moreover have "occ (T[i := Some x]) = insert i (occ T)" "i \<notin> occ T"
    using assms(2,3) t(1) by (auto simp: occ_def nth_list_update)
  moreover have "uniq key (T[i := Some x])"
    unfolding uniq_def
  proof (intro allI impI)
    fix p q a b
    assume *: "p < length (T[i := Some x])" "q < length (T[i := Some x])"
      "T[i := Some x] ! p = Some a" "T[i := Some x] ! q = Some b" "key a = key b"
    have k: "T ! r = Some c \<Longrightarrow> r < N \<Longrightarrow> key c \<noteq> key x" for r c
      using assms(5) t(1,3) contentsI by metis
    have "p = i \<longleftrightarrow> q = i"
      using * k [of p a] k [of q b] t(1) by (cases "p = i"; cases "q = i") auto
    then show "p = q"
      using * uniqD [OF t(2), of p q a b] by (cases "p = i") auto
  qed
  ultimately show ?thesis using assms(1,4) t by (simp add: tab_def)
qed

lemma insert_good:
  assumes "i < length T" "T ! i = None" "stops T m (home x) i" "\<forall>p < length T. good home T p"
    and "p < length T"
  shows "good home (T[i := Some x]) p"
proof (cases "p = i")
  case True
  have "r \<in> chain (length T) (home x) i \<Longrightarrow> r \<noteq> i" for r
    using assms(2,3) by (auto simp: stops_def)
  then show ?thesis using assms(1,3) True by (auto simp: good_def stops_def nth_list_update)
next
  case False
  have "T ! r \<noteq> None \<Longrightarrow> T[i := Some x] ! r \<noteq> None" for r
    using assms(1) by (cases "r = i") auto
  with False show ?thesis using assms(4,5) unfolding good_def by (metis length_list_update nth_list_update_neq)
qed

section \<open>Moving an entry\<close>

lemma move_nth:
  "i \<noteq> j \<Longrightarrow> i < length T \<Longrightarrow> j < length T \<Longrightarrow>
    move T i j ! p = (if p = i then None else if p = j then T ! i else T ! p)"
  by (auto simp: move_def nth_list_update)

lemma move_same [simp]: "move T i i = T"
  by (simp add: move_def)

lemma length_move [simp]: "length (move T i j) = length T"
  by (simp add: move_def)

lemma move_tab:
  assumes "tab home key N C u T" "i < N" "j < N" "T ! j = None" "T ! i = Some x"
  shows "tab home key N C u (move T i j)"
proof -
  note t = tabD [OF assms(1)]
  have ij: "i \<noteq> j" using assms by auto
  note m = move_nth [OF ij, of T]
  have occ: "occ (move T i j) = insert j (occ T - {i})"
    using assms(2-5) t(1) ij by (auto simp: occ_def m split: if_splits)
  have "card (occ (move T i j)) = card (occ T)"
  proof -
    have "i \<in> occ T" "j \<notin> occ T - {i}" using assms t(1) by (auto simp: occ_def)
    then show ?thesis by (simp add: occ card_Suc_Diff1 del: card_Diff_insert)
  qed
  moreover have "contents (move T i j) = contents T"
  proof (intro set_eqI iffI)
    fix y assume "y \<in> contents (move T i j)"
    then show "y \<in> contents T"
      using assms(2,3) t(1) by (auto simp: contents_nth m split: if_splits)
  next
    fix y assume "y \<in> contents T"
    then obtain p where p: "p < N" "T ! p = Some y" using t(1) by (auto simp: contents_nth)
    then have "move T i j ! (if p = i then j else p) = Some y"
      using assms(2-4) t(1) ij by (auto simp: m)
    then show "y \<in> contents (move T i j)"
      using p(1) assms(3) t(1) by (intro contentsI [of "if p = i then j else p"]) auto
  qed
  moreover have "uniq key (move T i j)"
    unfolding uniq_def
  proof (intro allI impI)
    fix p q a b
    assume "p < length (move T i j)" "q < length (move T i j)"
      "move T i j ! p = Some a" "move T i j ! q = Some b" "key a = key b"
    then have "(if p = j then i else p) = (if q = j then i else q) \<and> p \<noteq> i \<and> q \<noteq> i"
      using uniqD [OF t(2), of "if p = j then i else p" "if q = j then i else q" a b]
        assms(2,3) t(1) ij by (auto simp: m split: if_splits)
    then show "p = q" by (auto split: if_splits)
  qed
  ultimately show ?thesis using assms(1) t by (simp add: tab_def)
qed

text \<open>
  What a re-layout step finds: the probe for the entry \<open>x\<close> of slot \<open>i\<close> stops at \<open>i\<close> or
  at an empty slot, and does not pass \<open>i\<close> on the way.
\<close>

lemma relay_probe:
  assumes "tab home key N C u T" "i < N" "T ! i = Some x"
    and "stops T (\<lambda>y. key y = key x) (home x) j"
  shows "j < N" "i \<notin> chain N (home x) j" "j \<noteq> i \<Longrightarrow> T ! j = None"
proof -
  note t = tabD [OF assms(1)]
  show "j < N" using assms(4) t(1) by (simp add: stops_def)
  show "i \<notin> chain N (home x) j" using assms(3,4) t(1) by (fastforce simp: stops_def)
  show "T ! j = None" if "j \<noteq> i"
  proof (rule ccontr)
    assume "T ! j \<noteq> None"
    then obtain y where y: "T ! j = Some y" by auto
    with assms(4) have "key y = key x" by (simp add: stops_def)
    with uniqD [OF t(2), of j i y x] y assms(2,3) \<open>j < N\<close> t(1) that show False by simp
  qed
qed

lemma move_good_target:
  assumes "tab home key N C u T" "i < N" "T ! i = Some x" "i \<noteq> j"
    and "stops T (\<lambda>y. key y = key x) (home x) j"
  shows "good home (move T i j) j"
proof -
  note t = tabD [OF assms(1)] and r = relay_probe [OF assms(1-3,5)]
  have j: "j \<notin> chain N (home x) j" by (auto simp: chain_def)
  show ?thesis
    using assms(2-5) t(1) r j by (auto simp: good_def move_nth stops_def)
qed

text \<open>An entry stays good when another is moved, unless its probe passes the vacated slot.\<close>

lemma move_good_other:
  assumes "good home T q" "q \<noteq> i" "q \<noteq> j" "i \<noteq> j" "i < length T" "j < length T"
    and "\<And>y. T ! q = Some y \<Longrightarrow> i \<notin> chain (length T) (home y) q"
    and "T ! i \<noteq> None"
  shows "good home (move T i j) q"
  using assms by (auto simp: good_def move_nth)

text \<open>
  If a probe that ends at \<open>q\<close> passes a slot \<open>i\<close> beyond \<open>q\<close>, it wraps round, and every
  slot from \<open>i\<close> to the end of the table is occupied.
\<close>

lemma passes_beyond:
  assumes "good home T q" "T ! q = Some y" "i \<in> chain (length T) (home y) q" "q < i"
  shows "{i..<length T} \<subseteq> occ T"
  using assms by (auto simp: good_def chain_def occ_def split: if_splits)

section \<open>Re-layout of a doubled table\<close>

text \<open>
  The pass visits the slots of a table of \<open>N = 2 * n\<close> slots in ascending order; at its
  start the upper half is empty.  While it is in the lower half, an entry that moves to the
  upper half has an unwrapped probe, all occupied, behind it.
\<close>

definition upper_ok :: "('a \<Rightarrow> nat) \<Rightarrow> nat \<Rightarrow> 'a option list \<Rightarrow> bool" where
  "upper_ok home n T \<longleftrightarrow> (\<forall>p x. n \<le> p \<longrightarrow> p < length T \<longrightarrow> T ! p = Some x \<longrightarrow>
     home x \<le> p \<and> (\<forall>r. n \<le> r \<longrightarrow> home x \<le> r \<longrightarrow> r \<le> p \<longrightarrow> T ! r \<noteq> None))"

lemma upper_okD:
  "upper_ok home n T \<Longrightarrow> n \<le> p \<Longrightarrow> p < length T \<Longrightarrow> T ! p = Some x \<Longrightarrow>
     home x \<le> p \<and> (\<forall>r. n \<le> r \<longrightarrow> home x \<le> r \<longrightarrow> r \<le> p \<longrightarrow> T ! r \<noteq> None)"
  by (simp add: upper_ok_def)

definition phase1 :: "('a \<Rightarrow> nat) \<Rightarrow> nat \<Rightarrow> nat \<Rightarrow> 'a option list \<Rightarrow> bool" where
  "phase1 home n i T \<longleftrightarrow> (\<forall>q < i. good home T q) \<and> upper_ok home n T"

lemma phase1_init:
  assumes "\<And>p. n \<le> p \<Longrightarrow> p < length T \<Longrightarrow> T ! p = None"
  shows "phase1 home n 0 T"
  using assms by (auto simp: phase1_def upper_ok_def)

text \<open>In the lower half, vacating slot \<open>i\<close> breaks no probe of a visited entry.\<close>

lemma phase1_no_pass:
  assumes "tab home key (2 * n) C u T" "u < n" "i < n" "phase1 home n i T"
    and "q < i" "T ! q = Some y"
  shows "i \<notin> chain (2 * n) (home y) q"
proof
  note t = tabD [OF assms(1)]
  assume "i \<in> chain (2 * n) (home y) q"
  then have "{i..<2 * n} \<subseteq> occ T"
    using passes_beyond [of home T q y i] assms(4-6) t(1) by (simp add: phase1_def)
  then have "{n..<2 * n} \<subseteq> occ T" using assms(3) by auto
  from card_occ_le [OF this] show False using t(4) assms(2) by simp
qed

lemma upper_ok_move:
  assumes "tab home key (2 * n) C u T" "i < n" "upper_ok home n T" "T ! i = Some x" "i \<noteq> j"
    and "stops T (\<lambda>y. key y = key x) (home x) j"
  shows "upper_ok home n (move T i j)"
proof -
  note t = tabD [OF assms(1)]
  have i: "i < 2 * n" using assms(2) by simp
  note r = relay_probe [OF assms(1) i assms(4,6)]
  have occ: "T ! r \<noteq> None \<Longrightarrow> r \<noteq> i \<Longrightarrow> move T i j ! r \<noteq> None" for r
    using assms(4,5) i r(1) t(1) by (auto simp: move_nth)
  have new: "home x \<le> j \<and> (\<forall>s. n \<le> s \<longrightarrow> home x \<le> s \<longrightarrow> s \<le> j \<longrightarrow> move T i j ! s \<noteq> None)"
    if "n \<le> j"
  proof (intro conjI allI impI)
    show hj: "home x \<le> j"
      using r(2) assms(2) that by (auto simp: chain_def split: if_splits)
    fix s assume s: "n \<le> s" "home x \<le> s" "s \<le> j"
    show "move T i j ! s \<noteq> None"
    proof (cases "s = j")
      case True
      then show ?thesis using assms(4,5) i r(1) t(1) by (auto simp: move_nth)
    next
      case False
      then have "s \<in> chain (2 * n) (home x) j" using s hj by (simp add: chain_def)
      then have "T ! s \<noteq> None" using assms(6) t(1) by (auto simp: stops_def)
      then show ?thesis using s(1) assms(2) by (intro occ) auto
    qed
  qed
  show ?thesis
    unfolding upper_ok_def
  proof (intro allI impI)
    fix p y
    assume p: "n \<le> p" "p < length (move T i j)" "move T i j ! p = Some y"
    show "home y \<le> p \<and> (\<forall>r. n \<le> r \<longrightarrow> home y \<le> r \<longrightarrow> r \<le> p \<longrightarrow> move T i j ! r \<noteq> None)"
    proof (cases "p = j")
      case True
      with p(3) assms(4,5) i r(1) t(1) have "y = x" by (auto simp: move_nth)
      with new p(1) True show ?thesis by simp
    next
      case False
      with p assms(2,5) i r(1) t(1) have "T ! p = Some y" by (auto simp: move_nth split: if_splits)
      with upper_okD [OF assms(3) p(1)] p(2) assms(2) occ show ?thesis by auto
    qed
  qed
qed

lemma phase1_step:
  assumes "tab home key (2 * n) C u T" "u < n" "i < n" "phase1 home n i T" "T ! i = Some x"
    and "stops T (\<lambda>y. key y = key x) (home x) j"
  shows "phase1 home n (Suc i) (move T i j)"
proof (cases "i = j")
  case True
  have "good home T i"
    using assms(5,6) True by (auto simp: good_def stops_def)
  then show ?thesis using assms(4) True by (auto simp: phase1_def less_Suc_eq)
next
  case False
  note t = tabD [OF assms(1)]
  have i: "i < 2 * n" using assms(3) by simp
  note r = relay_probe [OF assms(1) i assms(5,6)]
  have "good home (move T i j) q" if q: "q < Suc i" for q
  proof -
    consider "q = i" | "q = j" "q \<noteq> i" | "q < i" "q \<noteq> j" using q by force
    then show ?thesis
    proof cases
      case 1
      then show ?thesis using False i r(1) t(1) by (simp add: good_def move_nth)
    next
      case 2
      then show ?thesis using move_good_target [OF assms(1) i assms(5) False assms(6)] by simp
    next
      case 3
      have "i \<notin> chain (2 * n) (home y) q" if "T ! q = Some y" for y
        using phase1_no_pass [OF assms(1-4) 3(1) that] .
      then show ?thesis
        using 3 False assms(4,5) i r(1) t(1) by (intro move_good_other) (auto simp: phase1_def)
    qed
  qed
  moreover have "upper_ok home n (move T i j)"
    using assms(4) by (intro upper_ok_move [OF assms(1,3) _ assms(5) False assms(6)]) (simp add: phase1_def)
  ultimately show ?thesis by (simp add: phase1_def)
qed

lemma phase1_skip: "phase1 home n i T \<Longrightarrow> T ! i = None \<Longrightarrow> phase1 home n (Suc i) T"
  by (auto simp: phase1_def less_Suc_eq good_def)

text \<open>
  In the upper half, the slots ahead are as they were when the pass entered it (\<open>T1\<close>), and
  a slot vacated there ends a run of slots, from \<open>n\<close> on, that were all occupied then.
\<close>

definition phase2 :: "('a \<Rightarrow> nat) \<Rightarrow> nat \<Rightarrow> 'a option list \<Rightarrow> nat \<Rightarrow> 'a option list \<Rightarrow> bool" where
  "phase2 home n T1 i T \<longleftrightarrow> (\<forall>q < i. good home T q) \<and> (\<forall>p. i \<le> p \<longrightarrow> p < length T \<longrightarrow> T ! p = T1 ! p)
     \<and> (\<forall>g. n \<le> g \<longrightarrow> g < i \<longrightarrow> g \<in> occ T1 \<longrightarrow> T ! g = None \<longrightarrow> {n..g} \<subseteq> occ T1)"

lemma phase2_init: "phase1 home n n T1 \<Longrightarrow> phase2 home n T1 n T1"
  by (auto simp: phase1_def phase2_def)

lemma phase2_skip: "phase2 home n T1 i T \<Longrightarrow> i < length T \<Longrightarrow> T ! i = None \<Longrightarrow> phase2 home n T1 (Suc i) T"
  by (auto simp: phase2_def less_Suc_eq good_def occ_def)

text \<open>An entry that leaves slot \<open>i\<close> goes down, and slots \<open>n\<close> to \<open>i\<close> were all occupied.\<close>

lemma phase2_move_down:
  assumes "tab home key (2 * n) C u T" "length T1 = 2 * n" "n \<le> i" "i < 2 * n"
    and "upper_ok home n T1" "phase2 home n T1 i T" "T ! i = Some x" "i \<noteq> j"
    and "stops T (\<lambda>y. key y = key x) (home x) j"
  shows "home x \<le> j" "j < i" "{n..i} \<subseteq> occ T1"
proof -
  note t = tabD [OF assms(1)] and r = relay_probe [OF assms(1,4,7,9)]
  have x1: "T1 ! i = Some x" using assms(4,6,7) t(1) by (simp add: phase2_def)
  have up: "home x \<le> i" "\<And>r. n \<le> r \<Longrightarrow> home x \<le> r \<Longrightarrow> r \<le> i \<Longrightarrow> T1 ! r \<noteq> None"
    using upper_okD [OF assms(5,3) _ x1] assms(2,4) by auto
  show hj: "home x \<le> j" and ji: "j < i"
    using r(2) up(1) assms(4,8) by (auto simp: chain_def split: if_splits)
  show "{n..i} \<subseteq> occ T1"
  proof (cases "n \<le> j")
    case True
    then have "j \<in> occ T1" using up(2) hj ji assms(2,4) by (simp add: occ_def)
    moreover have "T ! j = None" using r(3) assms(8) by simp
    ultimately have "{n..j} \<subseteq> occ T1" using assms(6) True ji by (simp add: phase2_def)
    moreover have "{j..i} \<subseteq> occ T1" using up(2) hj True assms(2,4) by (auto simp: occ_def)
    moreover have "{n..i} \<subseteq> {n..j} \<union> {j..i}" by auto
    ultimately show ?thesis by blast
  next
    case False
    then show ?thesis using up(2) hj assms(2,4) by (auto simp: occ_def)
  qed
qed

lemma phase2_step:
  assumes "tab home key (2 * n) C u T" "tab home key (2 * n) C u T1" "u < n" "n \<le> i" "i < 2 * n"
    and "upper_ok home n T1" "phase2 home n T1 i T" "T ! i = Some x"
    and "stops T (\<lambda>y. key y = key x) (home x) j"
  shows "phase2 home n T1 (Suc i) (move T i j)"
proof (cases "i = j")
  case True
  have "good home T i"
    using assms(8,9) True by (auto simp: good_def stops_def)
  then show ?thesis using assms(7,8) True by (auto simp: phase2_def less_Suc_eq)
next
  case False
  note t = tabD [OF assms(1)] and t1 = tabD [OF assms(2)]
  note r = relay_probe [OF assms(1,5,8,9)]
  note d = phase2_move_down [OF assms(1) t1(1) assms(4-8) False assms(9)]
  note m = move_nth [OF False, of T]
  have "good home (move T i j) q" if q: "q < Suc i" for q
  proof -
    consider "q = i" | "q = j" "q \<noteq> i" | "q < i" "q \<noteq> j" using q by force
    then show ?thesis
    proof cases
      case 1
      then show ?thesis using r(1) t(1) assms(5) by (simp add: good_def m)
    next
      case 2
      then show ?thesis using move_good_target [OF assms(1,5,8) False assms(9)] by simp
    next
      case 3
      have "i \<notin> chain (2 * n) (home y) q" if y: "T ! q = Some y" for y
      proof
        assume "i \<in> chain (2 * n) (home y) q"
        then have "{i..<2 * n} \<subseteq> occ T"
          using passes_beyond [of home T q y i] y 3 assms(7) t(1) by (simp add: phase2_def)
        then have "{i..<2 * n} \<subseteq> occ T1"
          using assms(7) t(1) t1(1) by (auto simp: phase2_def occ_def dest!: subsetD)
        moreover have "{n..<2 * n} \<subseteq> {n..i} \<union> {i..<2 * n}" using assms(4) by auto
        ultimately have "{n..<2 * n} \<subseteq> occ T1" using d(3) by blast
        from card_occ_le [OF this] show False using t1(4) assms(3) by simp
      qed
      then show ?thesis
        using 3 False assms(5,7,8) r(1) t(1) by (intro move_good_other) (auto simp: phase2_def)
    qed
  qed
  moreover have "move T i j ! p = T1 ! p" if "Suc i \<le> p" "p < length T" for p
    using that d(2) r(1) t(1) assms(5,7) by (simp add: m phase2_def)
  moreover have "{n..g} \<subseteq> occ T1"
    if "n \<le> g" "g < Suc i" "g \<in> occ T1" "move T i j ! g = None" for g
  proof (cases "g = i")
    case True
    then show ?thesis using d(3) by simp
  next
    case g: False
    with that(4) r(1) t(1) assms(5,8) have "T ! g = None" by (auto simp: m split: if_splits)
    with g that assms(7) show ?thesis by (auto simp: phase2_def)
  qed
  ultimately show ?thesis by (simp add: phase2_def)
qed

text \<open>Both halves together: the invariant of the whole pass.\<close>

definition doubling ::
  "('a \<Rightarrow> nat) \<Rightarrow> ('a \<Rightarrow> 'k) \<Rightarrow> nat \<Rightarrow> 'a set \<Rightarrow> nat \<Rightarrow> nat \<Rightarrow> 'a option list \<Rightarrow> bool" where
  "doubling home key n C u i T \<longleftrightarrow> tab home key (2 * n) C u T \<and> (i \<le> n \<and> phase1 home n i T \<or>
     n \<le> i \<and> (\<exists>T1. tab home key (2 * n) C u T1 \<and> upper_ok home n T1 \<and> phase2 home n T1 i T))"

lemma doubling_init:
  assumes "tab home key (2 * n) C u T" "\<And>p. n \<le> p \<Longrightarrow> p < 2 * n \<Longrightarrow> T ! p = None"
  shows "doubling home key n C u 0 T"
  using assms phase1_init [of n T home] tabD(1) [OF assms(1)] by (simp add: doubling_def)

lemma doubling_cases:
  assumes "doubling home key n C u i T"
  obtains "tab home key (2 * n) C u T" "i < n" "phase1 home n i T"
  | T1 where "tab home key (2 * n) C u T" "n \<le> i" "tab home key (2 * n) C u T1"
      "upper_ok home n T1" "phase2 home n T1 i T"
  using assms unfolding doubling_def
  by (metis le_neq_implies_less order_refl phase1_def phase2_init)

lemma doubling_skip:
  assumes "doubling home key n C u i T" "i < 2 * n" "T ! i = None"
  shows "doubling home key n C u (Suc i) T"
  using assms(1)
proof (cases rule: doubling_cases)
  case 1
  then show ?thesis using phase1_skip assms(3) by (auto simp: doubling_def)
next
  case (2 T1)
  then have "phase2 home n T1 (Suc i) T"
    using phase2_skip [of home n T1 i T] assms(2,3) tabD(1) [OF 2(1)] by simp
  with 2 show ?thesis unfolding doubling_def by (metis le_SucI)
qed

lemma doubling_step:
  assumes "doubling home key n C u i T" "u < n" "i < 2 * n" "T ! i = Some x"
    and "stops T (\<lambda>y. key y = key x) (home x) j"
  shows "doubling home key n C u (Suc i) (move T i j)"
proof -
  have t: "tab home key (2 * n) C u T" using assms(1) by (simp add: doubling_def)
  have "tab home key (2 * n) C u (move T i j)"
    using move_tab [OF t assms(3) _ _ assms(4)] relay_probe [OF t assms(3-5)] t
    by (cases "j = i") auto
  moreover from assms(1) have "Suc i \<le> n \<and> phase1 home n (Suc i) (move T i j) \<or> n \<le> Suc i \<and>
      (\<exists>T1. tab home key (2 * n) C u T1 \<and> upper_ok home n T1 \<and> phase2 home n T1 (Suc i) (move T i j))"
  proof (cases rule: doubling_cases)
    case 1
    then show ?thesis using phase1_step [OF t assms(2) 1(2,3) assms(4,5)] by simp
  next
    case (2 T1)
    then show ?thesis
      using phase2_step [OF t 2(3) assms(2) 2(2) assms(3) 2(4,5) assms(4,5)] by auto
  qed
  ultimately show ?thesis by (simp add: doubling_def)
qed

lemma doubling_done:
  assumes "doubling home key n C u (2 * n) T" "q < 2 * n"
  shows "tab home key (2 * n) C u T" "good home T q"
  using assms(1) by (cases rule: doubling_cases; use assms(2) in \<open>simp add: phase1_def phase2_def\<close>)+

section \<open>Re-layout of the rest of a cluster\<close>

text \<open>
  After a removal there is one gap \<open>g\<close>.  \<open>e\<close> is the end of the cluster behind it: the
  first empty slot, or the end of the table when slot 0 is empty.  Entries whose probe passes
  the gap lie at or after the slot \<open>i\<close> visited next.
\<close>

definition cluster_end :: "'a option list \<Rightarrow> nat \<Rightarrow> nat \<Rightarrow> bool" where
  "cluster_end T g e \<longleftrightarrow> e \<le> length T
     \<and> (if e < length T then T ! e = None else T ! 0 = None \<and> 0 < g)"

definition sweep :: "('a \<Rightarrow> nat) \<Rightarrow> nat \<Rightarrow> nat \<Rightarrow> nat \<Rightarrow> 'a option list \<Rightarrow> bool" where
  "sweep home e g i T \<longleftrightarrow> g < i \<and> i \<le> e \<and> g < length T \<and> T ! g = None
     \<and> (\<forall>p. i \<le> p \<longrightarrow> p < e \<longrightarrow> T ! p \<noteq> None) \<and> cluster_end T g e
     \<and> (\<forall>q x. q < length T \<longrightarrow> T ! q = Some x \<longrightarrow>
          (\<forall>r \<in> chain (length T) (home x) q. r \<noteq> g \<longrightarrow> T ! r \<noteq> None)
          \<and> (g \<in> chain (length T) (home x) q \<longrightarrow> i \<le> q))"

lemma sweepD:
  assumes "sweep home e g i T"
  shows "g < i" "i \<le> e" "e \<le> length T" "g < length T" "T ! g = None" "cluster_end T g e"
    "\<And>p. i \<le> p \<Longrightarrow> p < e \<Longrightarrow> T ! p \<noteq> None"
    "\<And>q x r. q < length T \<Longrightarrow> T ! q = Some x \<Longrightarrow> r \<in> chain (length T) (home x) q \<Longrightarrow>
       r \<noteq> g \<Longrightarrow> T ! r \<noteq> None"
    "\<And>q x. q < length T \<Longrightarrow> T ! q = Some x \<Longrightarrow> g \<in> chain (length T) (home x) q \<Longrightarrow> i \<le> q"
  using assms by (auto simp: sweep_def cluster_end_def)

text \<open>No probe passes a slot of the cluster and ends before it: it would cross the end.\<close>

lemma cluster_no_wrap:
  assumes "cluster_end T g e" "g \<le> i" "i < e" "T ! q = Some y" "q < length T"
    and "\<And>r. r \<in> chain (length T) (home y) q \<Longrightarrow> r \<noteq> g \<Longrightarrow> T ! r \<noteq> None"
    and "i \<in> chain (length T) (home y) q"
  shows "i < q"
proof (rule ccontr)
  assume "\<not> i < q"
  with assms(7) have w: "home y \<le> i" "q < home y" by (auto simp: chain_def split: if_splits)
  show False
  proof (cases "e < length T")
    case True
    then have "e \<in> chain (length T) (home y) q" using w assms(3) by (auto simp: chain_def)
    with assms(6) [of e] assms(1-3) True show False by (simp add: cluster_end_def)
  next
    case False
    then have z: "T ! 0 = None" "0 < g" using assms(1) by (simp_all add: cluster_end_def)
    then have "0 < q" using assms(4) by (cases q) auto
    then have "0 \<in> chain (length T) (home y) q" using w by (simp add: chain_def)
    with assms(6) [of 0] z show False by simp
  qed
qed

lemma sweep_init:
  assumes "\<And>p. p < length T \<Longrightarrow> good home T p" "s < length T" "T ! s \<noteq> None"
    and "cluster_end (T[s := None]) s e" "s < e" "\<And>p. s < p \<Longrightarrow> p < e \<Longrightarrow> T ! p \<noteq> None"
  shows "sweep home e s (Suc s) (T[s := None])"
proof -
  let ?T = "T[s := None]"
  have occ: "?T ! r \<noteq> None"
    if "q < length T" "?T ! q = Some x" "r \<in> chain (length T) (home x) q" "r \<noteq> s" for q x r
    using assms(1) [of q] that assms(2) by (auto simp: good_def nth_list_update split: if_splits)
  have "Suc s \<le> q"
    if q: "q < length T" "?T ! q = Some x" "s \<in> chain (length T) (home x) q" for q x
    using cluster_no_wrap [OF assms(4) order_refl assms(5) q(2), of home] q occ by simp
  with occ show ?thesis using assms(2,4-6) by (auto simp: sweep_def nth_list_update)
qed

lemma chain_either: "p \<noteq> q \<Longrightarrow> p < N \<Longrightarrow> q < N \<Longrightarrow> p \<in> chain N h q \<or> q \<in> chain N h p"
  by (auto simp: chain_def)

lemma sweep_step:
  assumes "tab home key N C u T" "sweep home e g i T" "i < e" "T ! i = Some x"
    and "stops T (\<lambda>y. key y = key x) (home x) j"
  shows "(j = i \<and> sweep home e g (Suc i) T) \<or> (j = g \<and> sweep home e i (Suc i) (move T i j))"
proof -
  note t = tabD [OF assms(1)] and s = sweepD [OF assms(2)]
  have i: "i < N" using s(3) assms(3) t(1) by simp
  note r = relay_probe [OF assms(1) i assms(4,5)]
  have free: "r \<in> chain N (home x) j \<Longrightarrow> T ! r \<noteq> None" for r
    using assms(5) t(1) by (auto simp: stops_def)
  show ?thesis
  proof (cases "j = i")
    case True
    have "g \<notin> chain N (home x) i" using free [of g] True s(5) by auto
    then have "Suc i \<le> q" if "q < N" "T ! q = Some y" "g \<in> chain N (home y) q" for q y
      using s(9) [of q y] that assms(4) t(1) by (cases "q = i") auto
    then have "sweep home e g (Suc i) T" using assms(2,3) t(1) by (simp add: sweep_def)
    with True show ?thesis by simp
  next
    case False
    then have "j \<in> chain N (home x) i" using chain_either [of j i N "home x"] r(1,2) i by auto
    then have jg: "j = g" using s(8) [of i x j] r(3) False assms(4) i t(1) by auto
    have ig: "i \<noteq> g" using s(1) by simp
    note m = move_nth [OF ig, of T]
    have gN: "g < N" using s(4) t(1) by simp
    have occ: "move T i g ! r \<noteq> None" if "T ! r \<noteq> None \<or> r = g" "r \<noteq> i" for r
      using that assms(4) i gN t(1) by (auto simp: m)
    have "(\<forall>r \<in> chain N (home y) q. r \<noteq> i \<longrightarrow> move T i g ! r \<noteq> None)
        \<and> (i \<in> chain N (home y) q \<longrightarrow> Suc i \<le> q)"
      if q: "q < N" "move T i g ! q = Some y" for q y
    proof (cases "q = g")
      case True
      then have "y = x" using q(2) assms(4) i gN t(1) ig by (simp add: m)
      then show ?thesis using True free occ r(2) jg by auto
    next
      case qg: False
      then have qi: "q \<noteq> i" "T ! q = Some y" using q(2) i gN t(1) by (auto simp: m split: if_splits)
      have c: "r \<in> chain N (home y) q \<Longrightarrow> r \<noteq> g \<Longrightarrow> T ! r \<noteq> None" for r
        using s(8) [of q y r] qi(2) q(1) t(1) by simp
      have "i \<in> chain N (home y) q \<Longrightarrow> i < q"
        using cluster_no_wrap [OF s(6) _ assms(3) qi(2), of home] c s(1) q(1) t(1) by auto
      then show ?thesis using c occ by auto
    qed
    moreover have "cluster_end (move T i g) i e"
      using s(1,6) assms(3) i gN t(1) ig by (auto simp: cluster_end_def m)
    moreover have "move T i g ! p \<noteq> None" if "Suc i \<le> p" "p < e" for p
      using s(7) [of p] that by (intro occ) auto
    moreover have "move T i g ! i = None" using i gN t(1) ig by (simp add: m)
    ultimately have "sweep home e i (Suc i) (move T i g)"
      using assms(3) i t(1) by (simp add: sweep_def)
    with jg show ?thesis by simp
  qed
qed

lemma sweep_done:
  assumes "sweep home e g e T" "q < length T"
  shows "good home T q"
  unfolding good_def
proof (intro allI impI ballI)
  note s = sweepD [OF assms(1)]
  fix x r assume x: "T ! q = Some x" and r: "r \<in> chain (length T) (home x) q"
  show "T ! r \<noteq> None"
  proof (cases "r = g")
    case True
    with s(9) [OF assms(2) x] r have "e \<le> q" by simp
    with assms(2) s(6) have "T ! e = None" by (simp add: cluster_end_def)
    with x \<open>e \<le> q\<close> have "e < q" by (cases "e = q") auto
    moreover have "e \<in> chain (length T) (home x) q"
      using r True s(1) \<open>e < q\<close> by (auto simp: chain_def split: if_splits)
    ultimately show ?thesis using s(1) s(8) [OF assms(2) x, of e] \<open>T ! e = None\<close> by simp
  next
    case False
    then show ?thesis using s(8) [OF assms(2) x r] by simp
  qed
qed

lemma remove_tab:
  assumes "tab home key N C u T" "s < N" "T ! s = Some x"
  shows "tab home key N (C - {x}) (u - 1) (T[s := None])"
proof -
  note t = tabD [OF assms(1)]
  have other: "T ! p = Some x \<Longrightarrow> p < N \<Longrightarrow> p = s" for p
    using uniqD [OF t(2), of p s x x] assms(2,3) t(1) by simp
  have "contents (T[s := None]) = C - {x}"
  proof (intro set_eqI iffI)
    fix y assume "y \<in> C - {x}"
    then obtain p where "p < N" "T ! p = Some y" "y \<noteq> x"
      using t(1,3) by (auto simp: contents_nth)
    moreover from this have "p \<noteq> s" using assms(3) by auto
    ultimately show "y \<in> contents (T[s := None])" using t(1) by (auto simp: contents_nth)
  next
    fix y assume "y \<in> contents (T[s := None])"
    then show "y \<in> C - {x}"
      using t(1,3) other assms(2) by (auto simp: contents_nth nth_list_update split: if_splits)
  qed
  moreover have "occ (T[s := None]) = occ T - {s}" "s \<in> occ T"
    using assms(2,3) t(1) by (auto simp: occ_def nth_list_update split: if_splits)
  moreover have "uniq key (T[s := None])"
    using t(1,2) assms(2) unfolding uniq_def by (auto simp: nth_list_update split: if_splits)
  ultimately show ?thesis using assms(1) t by (simp add: tab_def)
qed

end
