(* ===== verification/SimpleSet.thy ===== *)
theory SimpleSet
  imports Float32 Probe
begin

text \<open>
  \<open>set.c\<close> and \<open>set.h\<close>: a set of C strings in an open-addressed hash table.  The first
  part translates the functions; the second relates a table to the reference level of
  \<open>Probe\<close> and proves the operations correct.

  Counters of the code are \<open>uint64_t\<close>.  The fields keep their width (\<open>u64\<close>); a loop
  counter or a slot index stays below \<open>number_nodes\<close>, so its increments never wrap, and it
  is a \<open>nat\<close> here.  A local \<open>uint64_t index\<close> that the code leaves uninitialised until
  \<open>__get_index\<close> stores into it starts as 0.
\<close>

unbundle bit_operations_syntax

section \<open>Data\<close>

abbreviation (input) SET_TRUE :: int where "SET_TRUE \<equiv> 0"
abbreviation (input) SET_FALSE :: int where "SET_FALSE \<equiv> - 1"
abbreviation (input) SET_MALLOC_ERROR :: int where "SET_MALLOC_ERROR \<equiv> - 2"
abbreviation (input) SET_CIRCULAR_ERROR :: int where "SET_CIRCULAR_ERROR \<equiv> - 3"
abbreviation (input) SET_OCCUPIED_ERROR :: int where "SET_OCCUPIED_ERROR \<equiv> - 4"
abbreviation (input) SET_ALREADY_PRESENT :: int where "SET_ALREADY_PRESENT \<equiv> 1"
abbreviation (input) SET_RIGHT_GREATER :: int where "SET_RIGHT_GREATER \<equiv> 3"
abbreviation (input) SET_LEFT_GREATER :: int where "SET_LEFT_GREATER \<equiv> 1"
abbreviation (input) SET_EQUAL :: int where "SET_EQUAL \<equiv> 0"
abbreviation (input) SET_UNEQUAL :: int where "SET_UNEQUAL \<equiv> 2"

type_synonym set_hash_function = "cstr \<Rightarrow> u64"

record simple_set_node =
  node_key :: cstr
  node_hash :: u64

record simple_set =
  nodes :: "simple_set_node option block"
  number_nodes :: u64
  used_nodes :: u64
  hash_function :: "set_hash_function option"

section \<open>Private functions\<close>

definition default_hash :: set_hash_function where
  "default_hash key = fold (\<lambda>c h. (h XOR ucast c) * 1099511628211) key 14695981039346656073"

text \<open>The loop of \<open>__get_index\<close>; the returned pair is the return code and \<open>*index\<close>.\<close>

fun get_index_loop ::
  "nat \<Rightarrow> simple_set \<Rightarrow> cstr \<Rightarrow> u64 \<Rightarrow> nat \<Rightarrow> nat \<Rightarrow> nat \<Rightarrow> nat \<Rightarrow> (int \<times> nat) res" where
  "get_index_loop 0 s key hash len idx index i = Inl NoFuel"
| "get_index_loop (Suc fuel) s key hash len idx index i =
     rbind (rd (nodes s) i) (\<lambda>n. case n of
         None \<Rightarrow> Inr (SET_FALSE, i)
       | Some x \<Rightarrow>
           if hash = node_hash x \<and> len = c_strlen (node_key x)
              \<and> c_strncmp len key (node_key x) = 0
           then Inr (SET_TRUE, i)
           else let i1 = i + 1; i2 = (if i1 = unat (number_nodes s) then 0 else i1) in
             if i2 = idx then Inr (SET_CIRCULAR_ERROR, index)
             else get_index_loop fuel s key hash len idx index i2)"

definition get_index :: "simple_set \<Rightarrow> cstr \<Rightarrow> u64 \<Rightarrow> nat \<Rightarrow> (int \<times> nat) res" where
  "get_index s key hash index =
     (if number_nodes s = 0 then Inl DivByZero
      else let idx = unat (hash mod number_nodes s) in
        get_index_loop (unat (number_nodes s)) s key hash (c_strlen key) idx index idx)"

definition assign_node ::
  "simple_set \<Rightarrow> cstr \<Rightarrow> u64 \<Rightarrow> nat \<Rightarrow> mem \<Rightarrow> (simple_set \<times> mem) res" where
  "assign_node s key hash index m = (case alloc m of
       (False, m1) \<Rightarrow> Inl NullDeref
     | (True, m1) \<Rightarrow> (case alloc m1 of
         (False, m2) \<Rightarrow> Inl NullDeref
       | (True, m2) \<Rightarrow>
           rbind (wr (nodes s) index (Some \<lparr>node_key = key, node_hash = hash\<rparr>))
             (\<lambda>b. Inr (s\<lparr>nodes := b\<rparr>, m2))))"

definition free_index :: "simple_set \<Rightarrow> nat \<Rightarrow> mem \<Rightarrow> (simple_set \<times> mem) res" where
  "free_index s index m = rbind (rd (nodes s) index) (\<lambda>n. case n of
       None \<Rightarrow> Inl NullDeref
     | Some x \<Rightarrow> rbind (wr (nodes s) index None)
         (\<lambda>b. Inr (s\<lparr>nodes := b\<rparr>, dealloc (dealloc m))))"

definition relayout_body ::
  "nat \<Rightarrow> int \<Rightarrow> nat \<Rightarrow> simple_set \<times> nat \<times> mem
     \<Rightarrow> (simple_set \<times> nat \<times> mem, simple_set \<times> nat \<times> mem) ctl res" where
  "relayout_body start end_on_null i = (\<lambda>(s, index, m).
     rbind (rd (nodes s) i) (\<lambda>n. case n of
         Some x \<Rightarrow> rbind (get_index s (node_key x) (node_hash x) index) (\<lambda>(rc, index').
           if i \<noteq> index' then
             rbind (assign_node s (node_key x) (node_hash x) index' m) (\<lambda>(s1, m1).
             rbind (free_index s1 i m1) (\<lambda>(s2, m2). Inr (Next (s2, index', m2))))
           else Inr (Next (s, index', m)))
       | None \<Rightarrow> if end_on_null = 0 \<and> i \<noteq> start then Inr (Break (s, index, m))
           else Inr (Next (s, index, m))))"

definition relayout_nodes ::
  "simple_set \<Rightarrow> nat \<Rightarrow> int \<Rightarrow> mem \<Rightarrow> (simple_set \<times> mem) res" where
  "relayout_nodes s start end_on_null m =
     rbind (run_loop (relayout_body start end_on_null) start
              (unat (number_nodes s) - start) (s, 0, m))
       (\<lambda>(s', index, m'). Inr (s', m'))"

definition set_contains_hash :: "simple_set \<Rightarrow> cstr \<Rightarrow> u64 \<Rightarrow> int res" where
  "set_contains_hash s key hash = rbind (get_index s key hash 0) (\<lambda>(rc, index). Inr rc)"

definition null_fill :: "simple_set \<Rightarrow> nat \<Rightarrow> nat \<Rightarrow> simple_set res" where
  "null_fill s from_i to_i = run_loop
     (\<lambda>i t. rbind (wr (nodes t) i None) (\<lambda>b. Inr (Next (t\<lparr>nodes := b\<rparr>))))
     from_i (to_i - from_i) s"

definition over_full :: "simple_set \<Rightarrow> bool" where
  "over_full s \<longleftrightarrow> f32_quot (unat (used_nodes s)) (unat (number_nodes s)) > 1 / 4"

text \<open>The body of the \<open>if\<close> of \<open>__set_add\<close> that doubles the table; \<open>False\<close> is its early return.\<close>

definition expand :: "simple_set \<Rightarrow> mem \<Rightarrow> (bool \<times> simple_set \<times> mem) res" where
  "expand s m = (let num_els = number_nodes s * 2 in
     case next_outcome m of (ok, m1) \<Rightarrow>
       if \<not> ok then Inr (False, s, m1)
       else if nodes s = Null then Inr (False, s, m1\<lparr>live := live m1 + 1\<rparr>)
       else rbind (c_realloc (nodes s) (unat (num_els * 8) div 8)) (\<lambda>b.
         rbind (null_fill (s\<lparr>nodes := b\<rparr>) (unat (number_nodes s)) (unat num_els)) (\<lambda>s2.
         rbind (relayout_nodes (s2\<lparr>number_nodes := num_els\<rparr>) 0 1 m1) (\<lambda>(s3, m3).
           Inr (True, s3, m3)))))"

definition set_add_hash ::
  "simple_set \<Rightarrow> cstr \<Rightarrow> u64 \<Rightarrow> mem \<Rightarrow> (int \<times> simple_set \<times> mem) res" where
  "set_add_hash s key hash m =
     rbind (set_contains_hash s key hash) (\<lambda>c.
       if c = SET_TRUE then Inr (SET_ALREADY_PRESENT, s, m)
       else rbind (if over_full s then expand s m else Inr (True, s, m)) (\<lambda>(ok, s1, m1).
         if \<not> ok then Inr (SET_MALLOC_ERROR, s1, m1)
         else rbind (get_index s1 key hash 0) (\<lambda>(rc, index).
           if rc = SET_FALSE then
             rbind (assign_node s1 key hash index m1) (\<lambda>(s2, m2).
               Inr (SET_TRUE, s2\<lparr>used_nodes := used_nodes s2 + 1\<rparr>, m2))
           else Inr (rc, s1, m1))))"

section \<open>Public functions\<close>

definition set_init_alt ::
  "simple_set \<Rightarrow> u64 \<Rightarrow> set_hash_function option \<Rightarrow> mem \<Rightarrow> (int \<times> simple_set \<times> mem) res" where
  "set_init_alt s num_els hash m = (case alloc m of
       (False, m1) \<Rightarrow> Inr (SET_MALLOC_ERROR, s\<lparr>nodes := Null\<rparr>, m1)
     | (True, m1) \<Rightarrow>
         rbind (null_fill (s\<lparr>nodes := Block (replicate (unat (num_els * 8) div 8) Junk),
                            number_nodes := num_els\<rparr>) 0 (unat num_els)) (\<lambda>s1.
           Inr (SET_TRUE, s1\<lparr>used_nodes := 0,
             hash_function := Some (case hash of None \<Rightarrow> default_hash | Some h \<Rightarrow> h)\<rparr>, m1)))"

definition set_init :: "simple_set \<Rightarrow> mem \<Rightarrow> (int \<times> simple_set \<times> mem) res" where
  "set_init s m = set_init_alt s 1024 None m"

definition set_clear :: "simple_set \<Rightarrow> mem \<Rightarrow> (int \<times> simple_set \<times> mem) res" where
  "set_clear s m = rbind (run_loop (\<lambda>i (t, m'). rbind (rd (nodes t) i) (\<lambda>n. case n of
         None \<Rightarrow> Inr (Next (t, m'))
       | Some x \<Rightarrow> rbind (free_index t i m') (\<lambda>(t1, m1). Inr (Next (t1, m1)))))
       0 (unat (number_nodes s)) (s, m))
     (\<lambda>(s1, m1). Inr (SET_TRUE, s1\<lparr>used_nodes := 0\<rparr>, m1))"

definition c_free :: "'a block \<Rightarrow> mem \<Rightarrow> ('a block \<times> mem) res" where
  "c_free b m = (case b of Null \<Rightarrow> Inr (Null, m) | Freed \<Rightarrow> Inl UseAfterFree
     | Block c \<Rightarrow> Inr (Freed, dealloc m))"

definition set_destroy :: "simple_set \<Rightarrow> mem \<Rightarrow> (int \<times> simple_set \<times> mem) res" where
  "set_destroy s m = rbind (set_clear s m) (\<lambda>(rc, s1, m1).
     rbind (c_free (nodes s1) m1) (\<lambda>(b, m2).
       Inr (SET_TRUE, s1\<lparr>nodes := b, number_nodes := 0, used_nodes := 0,
                        hash_function := None\<rparr>, m2)))"

definition call_hash :: "simple_set \<Rightarrow> cstr \<Rightarrow> u64 res" where
  "call_hash s key = (case hash_function s of None \<Rightarrow> Inl BadCall | Some h \<Rightarrow> Inr (h key))"

definition set_add :: "simple_set \<Rightarrow> cstr \<Rightarrow> mem \<Rightarrow> (int \<times> simple_set \<times> mem) res" where
  "set_add s key m = rbind (call_hash s key) (\<lambda>hash. set_add_hash s key hash m)"

definition set_contains :: "simple_set \<Rightarrow> cstr \<Rightarrow> int res" where
  "set_contains s key = rbind (call_hash s key) (\<lambda>hash.
     rbind (get_index s key hash 0) (\<lambda>(rc, index). Inr rc))"

definition set_remove :: "simple_set \<Rightarrow> cstr \<Rightarrow> mem \<Rightarrow> (int \<times> simple_set \<times> mem) res" where
  "set_remove s key m = rbind (call_hash s key) (\<lambda>hash.
     rbind (get_index s key hash 0) (\<lambda>(pos, index).
       if pos \<noteq> SET_TRUE then Inr (pos, s, m)
       else rbind (free_index s index m) (\<lambda>(s1, m1).
         rbind (relayout_nodes s1 index 0 m1) (\<lambda>(s2, m2).
           Inr (SET_TRUE, s2\<lparr>used_nodes := used_nodes s2 - 1\<rparr>, m2)))))"

definition set_length :: "simple_set \<Rightarrow> u64" where
  "set_length s = used_nodes s"

section \<open>The table behind a set\<close>

text \<open>
  \<open>slots\<close> is the table as a list; \<open>home n\<close> the slot an entry hashes to.  \<open>wf_set H s\<close>
  is the invariant of a set whose hash function is \<open>H\<close>: the array is initialised and as
  long as \<open>number_nodes\<close>, at least one slot is free, \<open>used_nodes\<close> counts the entries,
  keys are stored once and with their hash, and every entry is reached by its probe.
\<close>

definition slots :: "simple_set \<Rightarrow> simple_set_node option list" where
  "slots s = (case nodes s of
     Block c \<Rightarrow> map (\<lambda>x. case x of Junk \<Rightarrow> None | Val v \<Rightarrow> v) c | _ \<Rightarrow> [])"

definition home :: "nat \<Rightarrow> simple_set_node \<Rightarrow> nat" where
  "home n x = unat (node_hash x) mod n"

lemma home_code [code]: "home n x = nat (uint (node_hash x) mod int n)"
  by (simp add: home_def nat_mod_distrib)

definition elems :: "simple_set \<Rightarrow> cstr set" where
  "elems s = node_key ` contents (slots s)"

definition hashed :: "set_hash_function \<Rightarrow> simple_set_node option list \<Rightarrow> bool" where
  "hashed H T \<longleftrightarrow> (\<forall>x \<in> contents T. node_hash x = H (node_key x))"

definition backs :: "simple_set_node option list \<Rightarrow> simple_set \<Rightarrow> bool" where
  "backs T s \<longleftrightarrow> nodes s = vals T \<and> length T = unat (number_nodes s) \<and> number_nodes s \<noteq> 0"

definition wf_set :: "set_hash_function \<Rightarrow> simple_set \<Rightarrow> bool" where
  "wf_set H s \<longleftrightarrow> (let T = slots s; n = length T; u = unat (used_nodes s) in
     backs T s \<and> hash_function s = Some H \<and> hashed H T \<and> 2 \<le> n \<and> u < n
     \<and> uniq node_key T \<and> card (occ T) = u \<and> (\<forall>p < n. good (home n) T p))"

lemma slots_vals: "nodes s = vals T \<Longrightarrow> slots s = T"
  by (simp add: slots_def o_def)

lemma home_less [simp]: "0 < n \<Longrightarrow> home n x < n"
  by (simp add: home_def)

lemma backsD:
  assumes "backs T s"
  shows "nodes s = vals T" "length T = unat (number_nodes s)" "0 < length T"
    "number_nodes s \<noteq> 0" "slots s = T"
proof -
  show *: "nodes s = vals T" "length T = unat (number_nodes s)" "number_nodes s \<noteq> 0"
    using assms by (simp_all add: backs_def)
  then show "0 < length T" by (simp add: unat_gt_0)
  show "slots s = T" using *(1) by (rule slots_vals)
qed

lemma wf_tab:
  assumes "wf_set H s"
  shows "tab (home (length (slots s))) node_key (length (slots s)) (contents (slots s))
     (unat (used_nodes s)) (slots s)"
  using assms unfolding wf_set_def Let_def tab_def by (auto intro!: home_less)

lemma wf_setD:
  assumes "wf_set H s"
  shows "backs (slots s) s" "hash_function s = Some H" "hashed H (slots s)"
    "2 \<le> length (slots s)" "unat (used_nodes s) < length (slots s)" "uniq node_key (slots s)"
    "card (occ (slots s)) = unat (used_nodes s)"
    "\<And>p. p < length (slots s) \<Longrightarrow> good (home (length (slots s))) (slots s) p"
    "length (slots s) = unat (number_nodes s)"
  using assms unfolding wf_set_def Let_def backs_def by blast+

lemma free_slot:
  assumes "card (occ T) < length T"
  shows "\<exists>p < length T. T ! p = None"
proof (rule ccontr)
  assume "\<not> ?thesis"
  then have "occ T = {..<length T}" by (auto simp: occ_def)
  with assms show False by simp
qed

section \<open>Probing\<close>

text \<open>The number of slots a probe from \<open>h\<close> has passed when it is at \<open>i\<close>.\<close>

definition passed :: "nat \<Rightarrow> nat \<Rightarrow> nat \<Rightarrow> nat" where
  "passed N h i = (if h \<le> i then i - h else N - h + i)"

lemma chain_next:
  assumes "i < N" "h < N"
  defines "i' \<equiv> (if i + 1 = N then 0 else i + 1)"
  shows "i' < N"
    "i' \<noteq> h \<Longrightarrow> chain N h i' = insert i (chain N h i) \<and> passed N h i' = Suc (passed N h i)"
    "i' = h \<Longrightarrow> insert i (chain N h i) = {..<N} \<and> Suc (passed N h i) = N"
  using assms(1,2) unfolding i'_def
  by (cases "Suc i = N"; auto simp: chain_def passed_def split: if_splits)+

text \<open>What the loop of \<open>__get_index\<close> returns, with fuel for the slots not yet passed.\<close>

definition index_post ::
  "simple_set_node option list \<Rightarrow> u64 \<Rightarrow> cstr \<Rightarrow> nat \<Rightarrow> nat \<Rightarrow> int \<times> nat \<Rightarrow> bool" where
  "index_post T hash key index h = (\<lambda>(rc, j).
     if rc = SET_CIRCULAR_ERROR
     then j = index \<and> (\<forall>r < length T. T ! r \<noteq> None)
     else rc = (if T ! j = None then SET_FALSE else SET_TRUE)
       \<and> stops T (\<lambda>y. hash = node_hash y \<and> key = node_key y) h j)"

lemma get_index_loop_gives:
  assumes "backs T s" "i < length T" "idx < length T"
    and "\<And>r. r \<in> chain (length T) idx i \<Longrightarrow>
      \<exists>y. T ! r = Some y \<and> \<not> (hash = node_hash y \<and> key = node_key y)"
    and "length T \<le> fuel + passed (length T) idx i"
  shows "gives (get_index_loop fuel s key hash (c_strlen key) idx index i)
    (index_post T hash key index idx) (\<lambda>_. False)"
  using assms
proof (induction fuel arbitrary: i)
  case 0
  then show ?case by (auto simp: passed_def split: if_splits)
next
  case (Suc fuel)
  note b = backsD [OF Suc.prems(1)]
  let ?m = "\<lambda>y. hash = node_hash y \<and> key = node_key y"
  have rd: "rd (nodes s) i = Inr (T ! i)" using b Suc.prems(2) by simp
  have here: "stops T ?m idx i" if "\<forall>y. T ! i = Some y \<longrightarrow> ?m y"
    using that Suc.prems(2,4) by (auto simp: stops_def)
  show ?case
  proof (cases "T ! i")
    case None
    with here show ?thesis by (simp add: rd index_post_def)
  next
    case (Some x)
    show ?thesis
    proof (cases "?m x")
      case True
      with here Some show ?thesis by (simp add: rd index_post_def)
    next
      case False
      define i' where "i' = (if i + 1 = length T then 0 else i + 1)"
      note n = chain_next [OF Suc.prems(2,3), folded i'_def]
      have c: "\<exists>y. T ! r = Some y \<and> \<not> ?m y" if "r \<in> insert i (chain (length T) idx i)" for r
        using that Suc.prems(4) Some False by auto
      have g: "gives (if i' = idx then Inr (SET_CIRCULAR_ERROR, index)
          else get_index_loop fuel s key hash (c_strlen key) idx index i')
          (index_post T hash key index idx) (\<lambda>_. False)"
      proof (cases "i' = idx")
        case True
        with c n(3) show ?thesis by (fastforce simp: index_post_def)
      next
        case no: False
        have "gives (get_index_loop fuel s key hash (c_strlen key) idx index i')
            (index_post T hash key index idx) (\<lambda>_. False)"
          using n(1) n(2) [OF no] c Suc.prems by (intro Suc.IH) auto
        with no show ?thesis by simp
      qed
      have no: "(hash = node_hash x \<and> c_strlen key = c_strlen (node_key x)
          \<and> c_strncmp (c_strlen key) key (node_key x) = 0) = False"
        using False by simp
      show ?thesis
        unfolding get_index_loop.simps rd rbind_Inr Some option.case no if_False Let_def
          b(2) [symmetric] i'_def [symmetric] by (rule g)
    qed
  qed
qed

lemma get_index_post:
  assumes "backs T s"
  shows "gives (get_index s key hash index)
    (index_post T hash key index (unat hash mod length T)) (\<lambda>_. False)"
proof -
  note b = backsD [OF assms]
  have "gives (get_index_loop (unat (number_nodes s)) s key hash (c_strlen key)
      (unat hash mod length T) index (unat hash mod length T))
    (index_post T hash key index (unat hash mod length T)) (\<lambda>_. False)"
    using b(2,3) by (intro get_index_loop_gives [OF assms]) (auto simp: chain_def passed_def)
  then show ?thesis using b(2,4) by (simp add: get_index_def Let_def unat_mod)
qed

text \<open>With a free slot and consistent hashes, the probe is by key alone and never fails.\<close>

lemma get_index_gives:
  assumes "backs T s" "hashed H T" "card (occ T) < length T"
  shows "gives (get_index s key (H key) index) (\<lambda>(rc, j).
      rc = (if T ! j = None then SET_FALSE else SET_TRUE) \<and> j < length T
      \<and> stops T (\<lambda>y. node_key y = key) (unat (H key) mod length T) j) (\<lambda>_. False)"
proof (rule gives_mono [OF get_index_post [OF assms(1)]])
  fix p assume p: "index_post T (H key) key index (unat (H key) mod length T) p"
  obtain rc j where rj: "p = (rc, j)" by (cases p)
  have h: "node_hash y = H (node_key y)" if "T ! r = Some y" "r < length T" for r y
    using assms(2) that by (auto simp: hashed_def contents_nth)
  have "rc \<noteq> SET_CIRCULAR_ERROR"
    using p rj free_slot [OF assms(3)] by (fastforce simp: index_post_def)
  with p rj have rc: "rc = (if T ! j = None then SET_FALSE else SET_TRUE)"
    and st: "stops T (\<lambda>y. H key = node_hash y \<and> key = node_key y) (unat (H key) mod length T) j"
    by (auto simp: index_post_def)
  have "unat (H key) mod length T < length T" using backsD(3) [OF assms(1)] by simp
  then have "stops T (\<lambda>y. node_key y = key) (unat (H key) mod length T) j"
    using st h chain_subset unfolding stops_def by (metis (no_types, lifting))
  with rc st rj show "case p of (rc, j) \<Rightarrow> rc = (if T ! j = None then SET_FALSE else SET_TRUE)
      \<and> j < length T \<and> stops T (\<lambda>y. node_key y = key) (unat (H key) mod length T) j"
    by (simp add: stops_def)
qed simp

section \<open>Nodes\<close>

lemma backs_update:
  "backs T s \<Longrightarrow> length T' = length T \<Longrightarrow> backs T' (s\<lparr>nodes := vals T'\<rparr>)"
  by (simp add: backs_def)

lemma nodes_update_id: "nodes s = b \<Longrightarrow> s\<lparr>nodes := b\<rparr> = s"
  by simp

lemma assign_node_gives:
  assumes "backs T s" "i < length T"
  shows "gives (assign_node s key hash i m) (\<lambda>(s', m').
      s' = s\<lparr>nodes := vals (T[i := Some \<lparr>node_key = key, node_hash = hash\<rparr>])\<rparr> \<and> mem_step m 2 m')
    (oom m)"
proof (cases "alloc m")
  case (Pair b m1)
  show ?thesis
  proof (cases b)
    case False
    then show ?thesis using Pair alloc_mem_ok [of m b m1] by (auto simp: assign_node_def oom_def)
  next
    case True
    then have s1: "mem_step m 1 m1" using Pair mem_step_alloc by simp
    show ?thesis
    proof (cases "alloc m1")
      case (Pair b2 m2)
      show ?thesis
      proof (cases b2)
        case False
        then have "\<not> mem_ok m" using s1 Pair alloc_mem_ok [of m1] by (auto simp: mem_step_def)
        then show ?thesis
          using \<open>alloc m = (b, m1)\<close> True False Pair by (simp add: assign_node_def oom_def)
      next
        case t2: True
        then have "mem_step m 2 m2" using s1 Pair mem_step_alloc mem_step_trans by fastforce
        then show ?thesis
          using \<open>alloc m = (b, m1)\<close> True t2 Pair assms backsD(1) [OF assms(1)]
          by (simp add: assign_node_def)
      qed
    qed
  qed
qed

lemma free_index_eq:
  assumes "backs T s" "i < length T" "T ! i = Some x"
  shows "free_index s i m = Inr (s\<lparr>nodes := vals (T[i := None])\<rparr>, dealloc (dealloc m))"
  using assms backsD(1) [OF assms(1)] by (simp add: free_index_def)

section \<open>Re-layout\<close>

text \<open>One step of \<open>__relayout_nodes\<close> at an occupied slot moves its entry to where its probe stops.\<close>

lemma relayout_body_gives:
  assumes "backs T s" "hashed H T" "card (occ T) < length T" "i < length T" "T ! i = Some x"
  shows "gives (relayout_body start eon i (s, ix, m)) (\<lambda>c. \<exists>j m'.
      c = Next (s\<lparr>nodes := vals (move T i j)\<rparr>, j, m') \<and> mem_step m 0 m'
      \<and> stops T (\<lambda>y. node_key y = node_key x) (home (length T) x) j) (oom m)"
proof -
  note b = backsD [OF assms(1)]
  have h: "node_hash x = H (node_key x)" using assms(2,4,5) by (auto simp: hashed_def contents_nth)
  have rd: "rd (nodes s) i = Inr (Some x)" using b(1) assms(4,5) by simp
  have "gives (get_index s (node_key x) (node_hash x) ix) (\<lambda>(rc, j).
      rc = (if T ! j = None then SET_FALSE else SET_TRUE) \<and> j < length T
      \<and> stops T (\<lambda>y. node_key y = node_key x) (home (length T) x) j) (oom m)"
    using get_index_gives [OF assms(1-3), of "node_key x" ix] gives_mono
    unfolding h home_def by blast
  then show ?thesis
    unfolding relayout_body_def rd rbind_Inr option.case split_conv
  proof (rule gives_rbind, clarify)
    fix rc j
    assume j: "j < length T" "stops T (\<lambda>y. node_key y = node_key x) (home (length T) x) j"
    let ?Q = "\<lambda>c. \<exists>j m'. c = Next (s\<lparr>nodes := vals (move T i j)\<rparr>, j, m') \<and> mem_step m 0 m'
      \<and> stops T (\<lambda>y. node_key y = node_key x) (home (length T) x) j"
    show "gives (if i \<noteq> j then
            rbind (assign_node s (node_key x) (node_hash x) j m) (\<lambda>(s1, m1).
            rbind (free_index s1 i m1) (\<lambda>(s2, m2). Inr (Next (s2, j, m2))))
          else Inr (Next (s, j, m))) ?Q (oom m)"
    proof (cases "i = j")
      case True
      have "s\<lparr>nodes := vals T\<rparr> = s" using b(1) by (rule nodes_update_id)
      then have "?Q (Next (s, j, m))" using j(2) True by (intro exI [of _ j] exI [of _ m]) simp
      with True show ?thesis by simp
    next
      case False
      have "gives (rbind (assign_node s (node_key x) (node_hash x) j m) (\<lambda>(s1, m1).
          rbind (free_index s1 i m1) (\<lambda>(s2, m2). Inr (Next (s2, j, m2))))) ?Q (oom m)"
      proof (rule gives_rbind [OF assign_node_gives [OF assms(1) j(1)]], clarify)
        fix m1 assume m1: "mem_step m 2 m1"
        have x: "\<lparr>node_key = node_key x, node_hash = node_hash x\<rparr> = x" by simp
        have mv: "T[j := Some x, i := None] = move T i j" using False assms(5) by (simp add: move_def)
        have "free_index (s\<lparr>nodes := vals (T[j := Some x])\<rparr>) i m1
            = Inr (s\<lparr>nodes := vals (move T i j)\<rparr>, dealloc (dealloc m1))"
          using free_index_eq [OF backs_update [OF assms(1), of "T[j := Some x]"], of i x m1]
            assms(4,5) False by (simp add: mv)
        moreover have "mem_step m 0 (dealloc (dealloc m1))"
          using mem_step_dealloc [OF mem_step_dealloc [OF m1]] by simp
        ultimately show "gives (rbind (free_index (s\<lparr>nodes := vals (T[j := Some
              \<lparr>node_key = node_key x, node_hash = node_hash x\<rparr>])\<rparr>) i m1)
            (\<lambda>(s2, m2). Inr (Next (s2, j, m2)))) ?Q (oom m)"
          unfolding x using j(2) by auto
      qed
      with False show ?thesis by simp
    qed
  qed
qed

lemma relayout_body_empty:
  assumes "backs T s" "i < length T" "T ! i = None"
  shows "relayout_body start eon i (s, ix, m) =
    Inr (if eon = 0 \<and> i \<noteq> start then Break (s, ix, m) else Next (s, ix, m))"
  using assms backsD(1) [OF assms(1)] by (simp add: relayout_body_def)

lemma hashed_contents: "contents T' = contents T \<Longrightarrow> hashed H T' = hashed H T"
  by (simp add: hashed_def)

text \<open>One pass at an occupied slot, for the invariant \<open>P\<close> of a loop: its entry moves to slot \<open>j\<close>.\<close>

lemma relayout_body_moves:
  assumes "backs T (s\<lparr>nodes := vals T\<rparr>)" "hashed H T" "card (occ T) < length T" "i < length T" "T ! i = Some x"
    and m': "mem_step m 0 m'"
    and P: "\<And>j m''. stops T (\<lambda>y. node_key y = node_key x) (home (length T) x) j \<Longrightarrow> mem_step m 0 m'' \<Longrightarrow>
      P (s\<lparr>nodes := vals (move T i j)\<rparr>, j, m'')"
  shows "gives (relayout_body start eon i (s\<lparr>nodes := vals T\<rparr>, ix, m'))
    (\<lambda>c. case c of Next st \<Rightarrow> P st | Break st \<Rightarrow> Q st) (oom m)"
  by (rule gives_mono [OF relayout_body_gives [OF assms(1-5)]])
    (use P mem_step_trans [OF m'] oom_step [OF m'] in fastforce)+

text \<open>The pass over a doubled table leaves every entry good.\<close>

definition doubled :: "nat \<Rightarrow> simple_set_node set \<Rightarrow> nat \<Rightarrow> simple_set \<Rightarrow> mem \<Rightarrow> nat \<Rightarrow> simple_set \<times> nat \<times> mem \<Rightarrow> bool" where
  "doubled n C u s m i st \<longleftrightarrow> (\<exists>T ix m'. st = (s\<lparr>nodes := vals T\<rparr>, ix, m') \<and> mem_step m 0 m'
     \<and> doubling (home (2 * n)) node_key n C u i T)"

lemma doubled_pass:
  assumes "backs T s" "hashed H T" "length T = 2 * n" "u < n" "contents T = C" "i < 2 * n"
    and inv: "doubled n C u s m i st"
  shows "gives (relayout_body 0 1 i st)
    (\<lambda>c. case c of Next st' \<Rightarrow> doubled n C u s m (Suc i) st' | Break st' \<Rightarrow> doubled n C u s m (2 * n) st') (oom m)"
proof -
  obtain T' ix m' where st: "st = (s\<lparr>nodes := vals T'\<rparr>, ix, m')" and m': "mem_step m 0 m'"
    and d: "doubling (home (2 * n)) node_key n C u i T'" using inv by (auto simp: doubled_def)
  note l = tabD(1,3,4) [OF conjunct1 [OF d [unfolded doubling_def]]]
  have bk: "backs T' (s\<lparr>nodes := vals T'\<rparr>)" using backs_update [OF assms(1)] l(1) assms(3) by simp
  have hs: "hashed H T'" using assms(2,5) hashed_contents [of T' T] l(2) by simp
  show ?thesis
  proof (cases "T' ! i")
    case None
    then have "doubled n C u s m (Suc i) st"
      unfolding doubled_def using doubling_skip [OF d _ None] st m' assms(6) by auto
    then show ?thesis using relayout_body_empty [OF bk _ None] assms(6) l(1) st by simp
  next
    case (Some x)
    have "doubled n C u s m (Suc i) (s\<lparr>nodes := vals (move T' i j)\<rparr>, j, m'')"
      if "stops T' (\<lambda>y. node_key y = node_key x) (home (2 * n) x) j" "mem_step m 0 m''" for j m''
      using doubling_step [OF d assms(4) _ Some that(1)] that(2) assms(6) by (auto simp: doubled_def)
    then show ?thesis unfolding st
      by (intro relayout_body_moves [OF bk hs _ _ Some m']) (use l assms(4,6) in simp_all)
  qed
qed

lemma relayout_doubled_gives:
  assumes "backs T s" "hashed H T" "length T = 2 * n" "u < n"
    and "tab (home (2 * n)) node_key (2 * n) C u T"
    and "\<And>p. n \<le> p \<Longrightarrow> p < 2 * n \<Longrightarrow> T ! p = None"
  shows "gives (relayout_nodes s 0 1 m) (\<lambda>(s', m'). \<exists>T'. s' = s\<lparr>nodes := vals T'\<rparr>
      \<and> tab (home (2 * n)) node_key (2 * n) C u T' \<and> (\<forall>p < 2 * n. good (home (2 * n)) T' p)
      \<and> mem_step m 0 m') (oom m)"
proof -
  have N: "unat (number_nodes s) = 2 * n" using backsD(2) [OF assms(1)] assms(3) by simp
  have "gives (run_loop (relayout_body 0 1) 0 (2 * n) (s, 0, m)) (doubled n C u s m (2 * n)) (oom m)"
  proof (rule gives_run_loop [where P = "doubled n C u s m"])
    have "s\<lparr>nodes := vals T\<rparr> = s" using backsD(1) [OF assms(1)] by (rule nodes_update_id)
    then show "doubled n C u s m 0 (s, 0, m)"
      unfolding doubled_def using doubling_init [OF assms(5,6)]
      by (intro exI [of _ T] exI [of _ 0] exI [of _ m]) simp
  qed (use doubled_pass [OF assms(1-4) tabD(3) [OF assms(5)]] in simp_all)
  then show ?thesis unfolding relayout_nodes_def N diff_zero
  proof (rule gives_rbind, clarify)
    fix s' ix m' assume "doubled n C u s m (2 * n) (s', ix, m')"
    then obtain T' where T': "s' = s\<lparr>nodes := vals T'\<rparr>" "mem_step m 0 m'"
      "doubling (home (2 * n)) node_key n C u (2 * n) T'" by (auto simp: doubled_def)
    then show "gives (Inr (s', m')) (\<lambda>(s', m'). \<exists>T'. s' = s\<lparr>nodes := vals T'\<rparr>
      \<and> tab (home (2 * n)) node_key (2 * n) C u T' \<and> (\<forall>p < 2 * n. good (home (2 * n)) T' p)
      \<and> mem_step m 0 m') (oom m)"
      using doubling_done(2) [OF T'(3)] by (auto simp: doubling_def)
  qed
qed

section \<open>Lookup\<close>

lemma hashed_home:
  "hashed H T \<Longrightarrow> x \<in> contents T \<Longrightarrow> node_key x = key \<Longrightarrow> home n x = unat (H key) mod n"
  by (simp add: hashed_def home_def)

lemma wf_free: "wf_set H s \<Longrightarrow> card (occ (slots s)) < length (slots s)"
  using wf_setD(5,7) by metis

text \<open>What the probe of any key finds in a well-formed set.\<close>

lemma get_index_wf:
  assumes "wf_set H s"
  shows "gives (get_index s key (H key) index) (\<lambda>(rc, j).
      rc = (if key \<in> elems s then SET_TRUE else SET_FALSE) \<and> j < length (slots s)
      \<and> (slots s ! j = None \<longleftrightarrow> key \<notin> elems s)
      \<and> stops (slots s) (\<lambda>y. node_key y = key) (unat (H key) mod length (slots s)) j) (\<lambda>_. False)"
proof (rule gives_mono [OF get_index_gives [OF wf_setD(1,3) [OF assms] wf_free [OF assms]]])
  note w = wf_setD [OF assms]
  fix p assume p: "case p of (rc, j) \<Rightarrow>
      rc = (if slots s ! j = None then SET_FALSE else SET_TRUE) \<and> j < length (slots s)
      \<and> stops (slots s) (\<lambda>y. node_key y = key) (unat (H key) mod length (slots s)) j"
  obtain rc j where rj: "p = (rc, j)" by (cases p)
  have st: "stops (slots s) (\<lambda>y. node_key y = key) (unat (H key) mod length (slots s)) j"
    and j: "j < length (slots s)" using p rj by auto
  have h: "unat (H key) mod length (slots s) < length (slots s)"
    using w(4) by (intro mod_less_divisor) linarith
  have "slots s ! j = None \<longleftrightarrow> key \<notin> elems s"
  proof (cases "slots s ! j")
    case None
    have g: "\<forall>p < length (slots s). good (home (length (slots s))) (slots s) p" using w(8) by simp
    have "\<forall>x \<in> contents (slots s). node_key x \<noteq> key"
      by (rule stops_absent [OF g st None _ h]) (rule hashed_home [OF w(3)])
    with None show ?thesis by (auto simp: elems_def)
  next
    case (Some y)
    then have "node_key y = key" using st by (simp add: stops_def)
    then have "key \<in> elems s" using contentsI [OF j Some] unfolding elems_def by blast
    with Some show ?thesis by simp
  qed
  with p rj st show "case p of (rc, j) \<Rightarrow> rc = (if key \<in> elems s then SET_TRUE else SET_FALSE)
      \<and> j < length (slots s) \<and> (slots s ! j = None \<longleftrightarrow> key \<notin> elems s)
      \<and> stops (slots s) (\<lambda>y. node_key y = key) (unat (H key) mod length (slots s)) j" by auto
qed simp

lemma set_contains_hash_wf:
  assumes "wf_set H s"
  shows "set_contains_hash s key (H key) = Inr (if key \<in> elems s then SET_TRUE else SET_FALSE)"
proof -
  have "gives (set_contains_hash s key (H key))
      (\<lambda>rc. rc = (if key \<in> elems s then SET_TRUE else SET_FALSE)) (\<lambda>_. False)"
    unfolding set_contains_hash_def
    by (rule gives_rbind [OF get_index_wf [OF assms]]) auto
  then show ?thesis by (simp add: gives_total)
qed

section \<open>Growth\<close>

lemma null_fill_gives:
  assumes "nodes s = part T k"
  shows "null_fill s (length T) (length T + k) = Inr (s\<lparr>nodes := vals (T @ replicate k None)\<rparr>)"
proof -
  define P where "P j t \<longleftrightarrow> (\<exists>d. j = length T + d \<and> d \<le> k \<and>
      t = s\<lparr>nodes := part (T @ replicate d None) (k - d)\<rparr>)" for j and t :: simple_set
  have "gives (null_fill s (length T) (length T + k))
      (\<lambda>t. t = s\<lparr>nodes := vals (T @ replicate k None)\<rparr>) (\<lambda>_. False)"
    unfolding null_fill_def diff_add_inverse
  proof (rule gives_run_loop [where P = P])
    show "P (length T) s" using assms by (auto simp: P_def)
  next
    fix j t assume j: "j < length T + k" and "P j t"
    then obtain d where d: "j = length T + d" "d < k"
      and t: "t = s\<lparr>nodes := part (T @ replicate d None) (k - d)\<rparr>" by (auto simp: P_def)
    obtain e where e: "k - d = Suc e" using d(2) by (metis Suc_diff_Suc)
    have "wr (nodes t) j None = Inr (part (T @ replicate (Suc d) None) e)"
      using wr_part [of "T @ replicate d None" e None] d(1) e t
      by (simp add: replicate_append_same)
    moreover have "P (Suc j) (s\<lparr>nodes := part (T @ replicate (Suc d) None) e\<rparr>)"
      unfolding P_def using d e by (intro exI [of _ "Suc d"]) (auto simp: Suc_diff_Suc)
    ultimately show "gives (rbind (wr (nodes t) j None) (\<lambda>b. Inr (Next (t\<lparr>nodes := b\<rparr>))))
        (\<lambda>c. case c of Next t' \<Rightarrow> P (Suc j) t'
           | Break t' \<Rightarrow> t' = s\<lparr>nodes := vals (T @ replicate k None)\<rparr>) (\<lambda>_. False)"
      using t by simp
  next
    fix t assume "P (length T + k) t"
    then show "t = s\<lparr>nodes := vals (T @ replicate k None)\<rparr>" by (auto simp: P_def)
  qed
  then show ?thesis by (simp add: gives_total)
qed

lemma tab_grow:
  assumes "tab h key n C u T" "\<And>x. x \<in> C \<Longrightarrow> h' x < n + k"
  shows "tab h' key (n + k) C u (T @ replicate k None)"
proof -
  note t = tabD [OF assms(1)]
  have nth: "(T @ replicate k None) ! p = (if p < n then T ! p else None)" if "p < n + k" for p
    using that t(1) by (simp add: nth_append)
  have "occ (T @ replicate k None) = occ T"
    using t(1) nth by (auto simp: occ_def split: if_splits)
  moreover have "contents (T @ replicate k None) = C" using t(3) by (auto simp: contents_def)
  moreover have "uniq key (T @ replicate k None)"
    using t(1,2) nth by (simp add: uniq_def)
  ultimately show ?thesis using t assms(2) by (simp add: tab_def)
qed

text \<open>A set is well-formed when a reference table backs it.\<close>

lemma wf_setI:
  assumes "nodes s = vals T" "unat (number_nodes s) = n" "hash_function s = Some H" "hashed H T"
    and "2 \<le> n" "unat (used_nodes s) < n" "tab (home n) node_key n C (unat (used_nodes s)) T"
    and "\<And>p. p < n \<Longrightarrow> good (home n) T p"
  shows "wf_set H s" "elems s = node_key ` C"
proof -
  note t = tabD [OF assms(7)]
  have "slots s = T" using assms(1) by (rule slots_vals)
  moreover have "number_nodes s \<noteq> 0" using assms(2,5) by auto
  ultimately show "wf_set H s" "elems s = node_key ` C"
    using assms t by (simp_all add: wf_set_def backs_def elems_def Let_def)
qed

text \<open>The set with the doubled array, before and after its entries are laid out again.\<close>

abbreviation (input) doubled_set :: "simple_set \<Rightarrow> simple_set" where
  "doubled_set s \<equiv> s\<lparr>nodes := vals (slots s @ replicate (length (slots s)) None), number_nodes := number_nodes s * 2\<rparr>"

lemma doubled_table:
  assumes "wf_set H s" "unat (number_nodes s) < 2 ^ 60"
  defines "n \<equiv> length (slots s)"
  shows "unat (number_nodes s * 2) = 2 * n" "unat (number_nodes s * 2 * 8) div 8 = 2 * n"
    "backs (slots s @ replicate n None) (doubled_set s)"
    "tab (home (2 * n)) node_key (2 * n) (contents (slots s)) (unat (used_nodes s)) (slots s @ replicate n None)"
    "hashed H (slots s @ replicate n None)"
proof -
  note w = wf_setD [OF assms(1)]
  have n: "unat (number_nodes s) = n" using w(9) by (simp add: n_def)
  show sz: "unat (number_nodes s * 2) = 2 * n" "unat (number_nodes s * 2 * 8) div 8 = 2 * n"
    using assms(2) n by (simp_all add: unat_word_ariths)
  show "backs (slots s @ replicate n None) (doubled_set s)" using sz(1) w(4) by (auto simp: backs_def n_def)
  have "0 < 2 * n" using w(4) unfolding n_def by linarith
  then have "home (2 * n) x < n + n" for x using home_less [of "2 * n" x] by linarith
  then show tab: "tab (home (2 * n)) node_key (2 * n) (contents (slots s)) (unat (used_nodes s)) (slots s @ replicate n None)"
    using tab_grow [OF wf_tab [OF assms(1)], of "home (2 * n)" n] by (simp add: n_def mult_2)
  show "hashed H (slots s @ replicate n None)" using w(3) tabD(3) [OF tab] by (simp add: hashed_def)
qed

lemma doubled_wf:
  assumes "wf_set H s" "unat (number_nodes s) < 2 ^ 60"
    and T': "tab (home (2 * length (slots s))) node_key (2 * length (slots s)) (contents (slots s)) (unat (used_nodes s)) T'"
      "\<forall>p < 2 * length (slots s). good (home (2 * length (slots s))) T' p"
  shows "wf_set H (doubled_set s\<lparr>nodes := vals T'\<rparr>)" "elems (doubled_set s\<lparr>nodes := vals T'\<rparr>) = elems s"
proof -
  note w = wf_setD [OF assms(1)]
  note dt = doubled_table [OF assms(1,2)]
  have "hashed H T'" using dt(5) tabD(3) [OF T'(1)] tabD(3) [OF dt(4)] by (simp add: hashed_def)
  then show "wf_set H (doubled_set s\<lparr>nodes := vals T'\<rparr>)" "elems (doubled_set s\<lparr>nodes := vals T'\<rparr>) = elems s"
    using wf_setI [of "doubled_set s\<lparr>nodes := vals T'\<rparr>" T' "2 * length (slots s)" H] dt(1) w(2,4,5) T'
    by (simp_all add: elems_def)
qed

lemma expand_gives:
  assumes "wf_set H s" "unat (number_nodes s) < 2 ^ 60"
  shows "gives (expand s m) (\<lambda>(ok, s', m').
      if ok then wf_set H s' \<and> elems s' = elems s \<and> used_nodes s' = used_nodes s
        \<and> unat (number_nodes s') = 2 * unat (number_nodes s) \<and> mem_step m 0 m'
      else s' = s \<and> \<not> mem_ok m \<and> live m' = live m) (oom m)"
proof -
  note w = wf_setD [OF assms(1)]
  note dt = doubled_table [OF assms]
  define n where "n = length (slots s)"
  have n: "unat (number_nodes s) = n" using w(9) by (simp add: n_def)
  have nodes: "nodes s = vals (slots s)" by (rule backsD(1) [OF w(1)])
  have re: "c_realloc (nodes s) (2 * n) = Inr (part (slots s) n)" by (simp add: nodes c_realloc_def n_def)
  have fill: "null_fill (s\<lparr>nodes := part (slots s) n\<rparr>) n (2 * n) = Inr (s\<lparr>nodes := vals (slots s @ replicate n None)\<rparr>)"
    using null_fill_gives [of "s\<lparr>nodes := part (slots s) n\<rparr>" "slots s" n] by (simp add: n_def mult_2)
  obtain ok m1 where out: "next_outcome m = (ok, m1)" by fastforce
  show ?thesis
  proof (cases ok)
    case False
    then show ?thesis using out next_outcome_mem_ok [of m ok m1] next_outcome_live [of m ok m1]
      by (auto simp: expand_def Let_def)
  next
    case True
    have st: "mem_step m 0 m1"
      using out True next_outcome_mem_ok [of m] next_outcome_live [of m] by (auto simp: mem_step_def)
    have e: "expand s m = rbind (relayout_nodes (doubled_set s) 0 1 m1) (\<lambda>(s3, m3). Inr (True, s3, m3))"
      using True nodes re dt(1,2)
      by (simp only: expand_def Let_def out prod.case n_def [symmetric] n fill block.distinct rbind_Inr
          not_True_eq_False if_False)
    have "gives (relayout_nodes (doubled_set s) 0 1 m1) (\<lambda>(s', m'). \<exists>T'. s' = doubled_set s\<lparr>nodes := vals T'\<rparr>
        \<and> tab (home (2 * n)) node_key (2 * n) (contents (slots s)) (unat (used_nodes s)) T'
        \<and> (\<forall>p < 2 * n. good (home (2 * n)) T' p) \<and> mem_step m1 0 m') (oom m1)"
      using w(5) dt by (intro relayout_doubled_gives [where u = "unat (used_nodes s)"]) (auto simp: n_def nth_append)
    then have g: "gives (rbind (relayout_nodes (doubled_set s) 0 1 m1) (\<lambda>(s3, m3). Inr (True, s3, m3)))
        (\<lambda>(ok, s', m'). ok \<and> wf_set H s' \<and> elems s' = elems s \<and> used_nodes s' = used_nodes s
          \<and> unat (number_nodes s') = 2 * unat (number_nodes s) \<and> mem_step m1 0 m') (oom m1)"
      by (rule gives_rbind) (use doubled_wf [OF assms] dt(1) n in \<open>auto simp: n_def\<close>)
    show ?thesis unfolding e by (rule gives_mono [OF g]) (use mem_step_trans [OF st] oom_step [OF st] in auto)
  qed
qed

end
