(* ===== verification/SetOps.thy ===== *)
theory SetOps
  imports SimpleSet
begin

text \<open>
  The contracts of the operations of \<open>set.c\<close> on a well-formed set: insertion, removal,
  initialisation, clearing and destruction, stated with the set of keys \<open>elems\<close>.
\<close>

section \<open>Insertion\<close>

text \<open>The part of \<open>__set_add\<close> after the growth: find the first open slot and fill it.\<close>

definition put_node ::
  "simple_set \<Rightarrow> cstr \<Rightarrow> u64 \<Rightarrow> mem \<Rightarrow> (int \<times> simple_set \<times> mem) res" where
  "put_node s key hash m = rbind (get_index s key hash 0) (\<lambda>(rc, index).
     if rc = SET_FALSE then
       rbind (assign_node s key hash index m) (\<lambda>(s2, m2).
         Inr (SET_TRUE, s2\<lparr>used_nodes := used_nodes s2 + 1\<rparr>, m2))
     else Inr (rc, s, m))"

lemma set_add_hash_put: "set_add_hash s key hash m =
   rbind (set_contains_hash s key hash) (\<lambda>c.
     if c = SET_TRUE then Inr (SET_ALREADY_PRESENT, s, m)
     else rbind (if over_full s then expand s m else Inr (True, s, m)) (\<lambda>(ok, s1, m1).
       if \<not> ok then Inr (SET_MALLOC_ERROR, s1, m1) else put_node s1 key hash m1))"
  unfolding set_add_hash_def put_node_def by (rule refl)

lemma wf_set_insert:
  assumes "wf_set H s" "key \<notin> elems s" "unat (used_nodes s) + 1 < length (slots s)"
    and "stops (slots s) (\<lambda>y. node_key y = key) (unat (H key) mod length (slots s)) i"
    and "slots s ! i = None"
  defines "s' \<equiv> s\<lparr>nodes := vals ((slots s)[i := Some \<lparr>node_key = key, node_hash = H key\<rparr>]),
      used_nodes := used_nodes s + 1\<rparr>"
  shows "wf_set H s'" "elems s' = insert key (elems s)"
proof -
  note w = wf_setD [OF assms(1)] and t = wf_tab [OF assms(1)]
  let ?x = "\<lparr>node_key = key, node_hash = H key\<rparr>" and ?n = "length (slots s)"
  have i: "i < ?n" using assms(4) by (simp add: stops_def)
  have n: "0 < ?n" using i by linarith
  have fresh: "node_key y \<noteq> node_key ?x" if "y \<in> contents (slots s)" for y
    using that assms(2) by (auto simp: elems_def)
  have st: "stops (slots s) (\<lambda>y. node_key y = key) (home ?n ?x) i" using assms(4) by (simp add: home_def)
  have t': "tab (home ?n) node_key ?n (insert ?x (contents (slots s)))
      (Suc (unat (used_nodes s))) ((slots s)[i := Some ?x])"
    by (rule insert_tab [OF t i assms(5) home_less [OF n] fresh])
  have u: "unat (used_nodes s + 1) = Suc (unat (used_nodes s))"
    using assms(3) w(9) unat_u64_inc [of "used_nodes s" "number_nodes s"] by simp
  have g: "good (home ?n) ((slots s)[i := Some ?x]) p" if "p < ?n" for p
    using insert_good [where home = "home ?n" and x = ?x, OF i assms(5) st _ that] w(8) by simp
  have "hashed H ((slots s)[i := Some ?x])"
    using w(3) tabD(3) [OF t'] by (simp add: hashed_def)
  then have "wf_set H s' \<and> elems s' = node_key ` insert ?x (contents (slots s))"
    using wf_setI [of s' "(slots s)[i := Some ?x]" ?n H] w(2,4,9) t' g u assms(3)
    by (simp add: s'_def)
  then show "wf_set H s'" "elems s' = insert key (elems s)" by (simp_all add: elems_def)
qed

lemma put_node_gives:
  assumes "wf_set H s" "key \<notin> elems s" "unat (used_nodes s) + 1 < length (slots s)"
  shows "gives (put_node s key (H key) m) (\<lambda>(rc, s', m'). rc = SET_TRUE \<and> wf_set H s'
      \<and> elems s' = insert key (elems s) \<and> used_nodes s' = used_nodes s + 1
      \<and> number_nodes s' = number_nodes s \<and> mem_step m 2 m') (oom m)"
  unfolding put_node_def
proof (rule gives_rbind [OF gives_mono [OF get_index_wf [OF assms(1)]]])
  fix p :: "int \<times> nat"
  assume p: "case p of (rc, j) \<Rightarrow> rc = (if key \<in> elems s then SET_TRUE else SET_FALSE)
      \<and> j < length (slots s) \<and> (slots s ! j = None \<longleftrightarrow> key \<notin> elems s)
      \<and> stops (slots s) (\<lambda>y. node_key y = key) (unat (H key) mod length (slots s)) j"
  then show "case p of (rc, j) \<Rightarrow> rc = SET_FALSE \<and> slots s ! j = None
      \<and> stops (slots s) (\<lambda>y. node_key y = key) (unat (H key) mod length (slots s)) j"
    using assms(2) by auto
next
  fix p :: "int \<times> nat"
  assume "case p of (rc, j) \<Rightarrow> rc = SET_FALSE \<and> slots s ! j = None
      \<and> stops (slots s) (\<lambda>y. node_key y = key) (unat (H key) mod length (slots s)) j"
  then obtain j where p: "p = (SET_FALSE, j)" and j: "slots s ! j = None"
    "stops (slots s) (\<lambda>y. node_key y = key) (unat (H key) mod length (slots s)) j" by auto
  have i: "j < length (slots s)" using j(2) by (simp add: stops_def)
  note ins = wf_set_insert [OF assms j(2,1)]
  have "gives (rbind (assign_node s key (H key) j m) (\<lambda>(s2, m2).
      Inr (SET_TRUE, s2\<lparr>used_nodes := used_nodes s2 + 1\<rparr>, m2))) (\<lambda>(rc, s', m'). rc = SET_TRUE
      \<and> wf_set H s' \<and> elems s' = insert key (elems s) \<and> used_nodes s' = used_nodes s + 1
      \<and> number_nodes s' = number_nodes s \<and> mem_step m 2 m') (oom m)"
    by (rule gives_rbind [OF assign_node_gives [OF wf_setD(1) [OF assms(1)] i]]) (use ins in auto)
  with p show "gives (case p of (rc, index) \<Rightarrow> if rc = SET_FALSE then
        rbind (assign_node s key (H key) index m) (\<lambda>(s2, m2).
          Inr (SET_TRUE, s2\<lparr>used_nodes := used_nodes s2 + 1\<rparr>, m2)) else Inr (rc, s, m))
      (\<lambda>(rc, s', m'). rc = SET_TRUE \<and> wf_set H s' \<and> elems s' = insert key (elems s)
        \<and> used_nodes s' = used_nodes s + 1 \<and> number_nodes s' = number_nodes s \<and> mem_step m 2 m')
      (oom m)" by simp
qed simp

text \<open>Before the insertion there is room for one more entry and a free slot.\<close>

lemma room_before_add:
  assumes "wf_set H s" "\<not> over_full s"
  shows "unat (used_nodes s) + 1 < length (slots s)"
proof -
  note w = wf_setD [OF assms(1)]
  have "3992 * unat (used_nodes s) \<le> 1000 * length (slots s)"
    using f32_quot_le_quarter [of "unat (used_nodes s)" "length (slots s)"] assms(2) w(4,9)
    by (simp add: over_full_def)
  with w(4) show ?thesis by linarith
qed

text \<open>
  \<open>add_post H s key m\<close>: what \<open>__set_add\<close> returns.  A growth doubles the table; a failed
  growth leaves the set as it was.
\<close>

definition add_post ::
  "set_hash_function \<Rightarrow> simple_set \<Rightarrow> cstr \<Rightarrow> mem \<Rightarrow> int \<times> simple_set \<times> mem \<Rightarrow> bool" where
  "add_post H s key m = (\<lambda>(rc, s', m').
     if key \<in> elems s then rc = SET_ALREADY_PRESENT \<and> s' = s \<and> m' = m
     else if rc = SET_MALLOC_ERROR then over_full s \<and> \<not> mem_ok m \<and> s' = s \<and> live m' = live m
     else rc = SET_TRUE \<and> wf_set H s' \<and> elems s' = insert key (elems s)
       \<and> used_nodes s' = used_nodes s + 1 \<and> mem_step m 2 m'
       \<and> unat (number_nodes s') = (if over_full s then 2 else 1) * unat (number_nodes s))"

lemma set_add_hash_gives:
  assumes "wf_set H s" "unat (number_nodes s) < 2 ^ 60"
  shows "gives (set_add_hash s key (H key) m) (add_post H s key m) (oom m)"
proof (cases "key \<in> elems s")
  case True
  then show ?thesis
    by (simp add: set_add_hash_put set_contains_hash_wf [OF assms(1)] add_post_def)
next
  case new: False
  have eq: "set_add_hash s key (H key) m =
      rbind (if over_full s then expand s m else Inr (True, s, m)) (\<lambda>(ok, s1, m1).
        if \<not> ok then Inr (SET_MALLOC_ERROR, s1, m1) else put_node s1 key (H key) m1)"
    using new by (simp add: set_add_hash_put set_contains_hash_wf [OF assms(1)])
  show ?thesis
  proof (cases "over_full s")
    case False
    then show ?thesis
      unfolding eq using gives_mono [OF put_node_gives [OF assms(1) new room_before_add [OF assms(1) False]]]
      by (auto simp: add_post_def new intro!: gives_mono [OF put_node_gives [OF assms(1) new room_before_add [OF assms(1) False]]])
  next
    case True
    have "gives (rbind (expand s m) (\<lambda>(ok, s1, m1).
        if \<not> ok then Inr (SET_MALLOC_ERROR, s1, m1) else put_node s1 key (H key) m1))
      (add_post H s key m) (oom m)"
    proof (rule gives_rbind [OF expand_gives [OF assms]], clarify)
      fix ok s1 m1
      assume x: "if ok then wf_set H s1 \<and> elems s1 = elems s \<and> used_nodes s1 = used_nodes s
          \<and> unat (number_nodes s1) = 2 * unat (number_nodes s) \<and> mem_step m 0 m1
        else s1 = s \<and> \<not> mem_ok m \<and> live m1 = live m"
      show "gives (if \<not> ok then Inr (SET_MALLOC_ERROR, s1, m1) else put_node s1 key (H key) m1)
        (add_post H s key m) (oom m)"
      proof (cases ok)
        case ok: True
        then have s1: "wf_set H s1" "elems s1 = elems s" "used_nodes s1 = used_nodes s"
          "unat (number_nodes s1) = 2 * unat (number_nodes s)" and st: "mem_step m 0 m1"
          using x by simp_all
        note w = wf_setD(5,9) [OF assms(1)]
        have "unat (used_nodes s1) + 1 < length (slots s1)"
          using w wf_setD(4) [OF assms(1)] wf_setD(9) [OF s1(1)] unfolding s1(3,4) by linarith
        then have "gives (put_node s1 key (H key) m1) (\<lambda>(rc, s', m'). rc = SET_TRUE \<and> wf_set H s'
            \<and> elems s' = insert key (elems s1) \<and> used_nodes s' = used_nodes s1 + 1
            \<and> number_nodes s' = number_nodes s1 \<and> mem_step m1 2 m') (oom m1)"
          using put_node_gives [OF s1(1), of key m1] new s1(2) by simp
        then have "gives (put_node s1 key (H key) m1) (add_post H s key m) (oom m)"
          by (rule gives_mono)
            (use s1 new True mem_step_trans [OF st] oom_step [OF st] in \<open>auto simp: add_post_def\<close>)
        with ok show ?thesis by simp
      qed (use x new True in \<open>simp add: add_post_def\<close>)
    qed
    with True eq show ?thesis by simp
  qed
qed

section \<open>Removal\<close>

text \<open>
  The pass of \<open>__relayout_nodes\<close> from the emptied slot \<open>g0\<close>, when the cluster behind it
  ends at \<open>e\<close>.
\<close>

text \<open>
  The loop over the slots behind the freed one: \<open>sweeping\<close> holds before the pass at slot \<open>i\<close>,
  \<open>swept\<close> at the end.
\<close>

definition sweeping ::
  "simple_set_node option list \<Rightarrow> simple_set_node set \<Rightarrow> nat \<Rightarrow> nat \<Rightarrow> nat \<Rightarrow> simple_set \<Rightarrow> mem \<Rightarrow> nat \<Rightarrow> simple_set \<times> nat \<times> mem \<Rightarrow> bool" where
  "sweeping T C u g0 e s m i st \<longleftrightarrow> (\<exists>T' ix m' g. st = (s\<lparr>nodes := vals T'\<rparr>, ix, m') \<and> mem_step m 0 m'
     \<and> tab (home (length T)) node_key (length T) C u T'
     \<and> (if i = g0 then T' = T else sweep (home (length T)) e g i T'))"

definition swept :: "simple_set_node option list \<Rightarrow> simple_set_node set \<Rightarrow> nat \<Rightarrow> simple_set \<Rightarrow> mem \<Rightarrow> simple_set \<times> nat \<times> mem \<Rightarrow> bool" where
  "swept T C u s m st \<longleftrightarrow> (\<exists>T' ix m'. st = (s\<lparr>nodes := vals T'\<rparr>, ix, m')
     \<and> tab (home (length T)) node_key (length T) C u T' \<and> (\<forall>p < length T. good (home (length T)) T' p)
     \<and> mem_step m 0 m')"

lemma sweeping_done:
  assumes "tab (home (length T)) node_key (length T) C u T'" "sweep (home (length T)) e g e T'" "mem_step m 0 m'"
  shows "swept T C u s m (s\<lparr>nodes := vals T'\<rparr>, ix, m')"
  unfolding swept_def using sweep_done [OF assms(2)] tabD(1) [OF assms(1)] assms(1,3)
  by (intro exI [of _ T'] exI [of _ ix] exI [of _ m']) simp

text \<open>One pass at an occupied slot: its entry moves to the end of its probe.\<close>

lemma sweeping_move:
  assumes "backs T' (s\<lparr>nodes := vals T'\<rparr>)" "hashed H T'" "u < length T" "i < length T" "T' ! i = Some x"
    and t: "tab (home (length T)) node_key (length T) C u T'" and sw: "sweep (home (length T)) e g i T'"
    and ie: "i < e" and ge: "g0 < i" and m': "mem_step m 0 m'"
  shows "gives (relayout_body g0 0 i (s\<lparr>nodes := vals T'\<rparr>, ix, m'))
    (\<lambda>c. case c of Next st' \<Rightarrow> sweeping T C u g0 e s m (Suc i) st' | Break st' \<Rightarrow> swept T C u s m st') (oom m)"
proof -
  note l = tabD(1,4) [OF t]
  have "sweeping T C u g0 e s m (Suc i) (s\<lparr>nodes := vals (move T' i j)\<rparr>, j, m'')"
    if sj: "stops T' (\<lambda>y. node_key y = node_key x) (home (length T) x) j" and m'': "mem_step m 0 m''" for j m''
  proof -
    have j: "j < length T" "j \<noteq> i \<Longrightarrow> T' ! j = None" using relay_probe [OF t assms(4,5) sj] by simp_all
    have "tab (home (length T)) node_key (length T) C u (move T' i j)"
      using move_tab [OF t assms(4) j(1) _ assms(5)] j(2) t by (cases "j = i") simp_all
    moreover have "\<exists>g. sweep (home (length T)) e g (Suc i) (move T' i j)"
      using sweep_step [OF t sw ie assms(5) sj] by auto
    ultimately show ?thesis using m'' ge by (auto simp: sweeping_def)
  qed
  then show ?thesis
    by (intro relayout_body_moves [OF assms(1,2) _ _ assms(5) m']) (use l assms(3,4) in simp_all)
qed

lemma sweeping_pass:
  assumes "backs T s" "hashed H T" "u < length T" "tab (home (length T)) node_key (length T) C u T"
    and "T ! g0 = None" "sweep (home (length T)) e g0 (Suc g0) T" "g0 \<le> i" "i < length T"
    and inv: "sweeping T C u g0 e s m i st"
  shows "gives (relayout_body g0 0 i st)
    (\<lambda>c. case c of Next st' \<Rightarrow> sweeping T C u g0 e s m (Suc i) st' | Break st' \<Rightarrow> swept T C u s m st') (oom m)"
proof -
  obtain T' ix m' g where st: "st = (s\<lparr>nodes := vals T'\<rparr>, ix, m')" and m': "mem_step m 0 m'"
    and t: "tab (home (length T)) node_key (length T) C u T'"
    and c: "if i = g0 then T' = T else sweep (home (length T)) e g i T'"
    using inv by (auto simp: sweeping_def)
  note l = tabD(1,3) [OF t]
  have bk: "backs T' (s\<lparr>nodes := vals T'\<rparr>)" using backs_update [OF assms(1)] l(1) by simp
  have hs: "hashed H T'" using assms(2) hashed_contents [of T' T] l(2) tabD(3) [OF assms(4)] by simp
  consider (start) "i = g0" "T' = T" | (ends) "i \<noteq> g0" "T' ! i = None" | (moves) x where "i \<noteq> g0" "T' ! i = Some x"
    using c by (cases "i = g0"; cases "T' ! i") auto
  then show ?thesis
  proof cases
    case start
    then have "sweeping T C u g0 e s m (Suc i) st"
      unfolding sweeping_def using t st m' assms(6) by auto
    then show ?thesis using relayout_body_empty [OF bk, of i g0] assms(5,8) st start by simp
  next
    case ends
    then have sw: "sweep (home (length T)) e g i T'" using c by simp
    then have "i = e" using sweepD(2,7) [OF sw] ends(2) by (meson le_neq_implies_less order_refl)
    with sw have "swept T C u s m st" unfolding st by (intro sweeping_done [OF t _ m']) simp
    then show ?thesis using relayout_body_empty [OF bk _ ends(2), of g0] assms(8) l(1) st ends(1) by simp
  next
    case (moves x)
    then have sw: "sweep (home (length T)) e g i T'" using c by simp
    then have "i < e" using sweepD(2,6) [OF sw] moves(2) assms(8) l(1)
      by (cases "i = e") (auto simp: cluster_end_def)
    with moves(1) assms(7) show ?thesis unfolding st
      by (intro sweeping_move [OF bk hs assms(3,8) moves(2) t sw _ _ m']) simp_all
  qed
qed

lemma relayout_sweep_gives:
  assumes "backs T s" "hashed H T" "u < length T"
    and "tab (home (length T)) node_key (length T) C u T"
    and "T ! g0 = None" "sweep (home (length T)) e g0 (Suc g0) T"
  shows "gives (relayout_nodes s g0 0 m) (\<lambda>(s', m'). \<exists>T'. s' = s\<lparr>nodes := vals T'\<rparr>
      \<and> tab (home (length T)) node_key (length T) C u T'
      \<and> (\<forall>p < length T. good (home (length T)) T' p) \<and> mem_step m 0 m') (oom m)"
proof -
  let ?N = "length T"
  have N: "unat (number_nodes s) = ?N" using backsD(2) [OF assms(1)] by simp
  have g0: "g0 < ?N" "g0 < e" "e \<le> ?N" using sweepD [OF assms(6)] by simp_all
  have "gives (run_loop (relayout_body g0 0) g0 (?N - g0) (s, 0, m)) (swept T C u s m) (oom m)"
  proof (rule gives_run_loop [where P = "sweeping T C u g0 e s m"])
    have "s\<lparr>nodes := vals T\<rparr> = s" using backsD(1) [OF assms(1)] by (rule nodes_update_id)
    then show "sweeping T C u g0 e s m g0 (s, 0, m)"
      unfolding sweeping_def using assms(4)
      by (intro exI [of _ T] exI [of _ 0] exI [of _ m]) simp
  next
    fix st assume "sweeping T C u g0 e s m (g0 + (?N - g0)) st"
    then obtain T' ix m' g where st: "st = (s\<lparr>nodes := vals T'\<rparr>, ix, m')" "mem_step m 0 m'"
      "tab (home ?N) node_key ?N C u T'" "sweep (home ?N) e g ?N T'" using g0 by (auto simp: sweeping_def)
    have "e = ?N" using sweepD(2) [OF st(4)] g0(3) by simp
    then show "swept T C u s m st" using sweeping_done [OF st(3) _ st(2), of e g] st(1,4) by simp
  qed (use sweeping_pass [OF assms] in simp)
  then show ?thesis
    unfolding relayout_nodes_def N by (rule gives_rbind) (auto simp: swept_def)
qed

text \<open>
  The pass stops at the end of the table.  It covers the cluster of the removed key when a
  slot behind that key is free, or when slot 0 is, so that the cluster does not continue there.
\<close>

definition tail_free :: "simple_set \<Rightarrow> cstr \<Rightarrow> bool" where
  "tail_free s key \<longleftrightarrow> (let T = slots s in \<forall>p < length T. case T ! p of None \<Rightarrow> True
     | Some x \<Rightarrow> node_key x = key \<longrightarrow> T ! 0 = None \<or> (\<exists>e < length T. p < e \<and> T ! e = None))"

lemma cluster_exists:
  assumes "j < length T" "T ! j \<noteq> None" "T ! 0 = None \<or> (\<exists>e < length T. j < e \<and> T ! e = None)"
  obtains e where "j < e" "cluster_end (T[j := None]) j e" "\<And>p. j < p \<Longrightarrow> p < e \<Longrightarrow> T ! p \<noteq> None"
proof (cases "\<exists>e < length T. j < e \<and> T ! e = None")
  case True
  define e where "e = (LEAST e. e < length T \<and> j < e \<and> T ! e = None)"
  have e: "e < length T \<and> j < e \<and> T ! e = None"
    unfolding e_def using True by (intro LeastI_ex [where P = "\<lambda>e. e < length T \<and> j < e \<and> T ! e = None"]) blast
  have "T ! p \<noteq> None" if "j < p" "p < e" for p
    using not_less_Least [of p "\<lambda>e. e < length T \<and> j < e \<and> T ! e = None"] that e
    unfolding e_def [symmetric] by auto
  with e show thesis by (intro that [of e]) (auto simp: cluster_end_def)
next
  case False
  then have 0: "T ! 0 = None" using assms(3) by blast
  then have "0 < j" using assms(2) by (cases j) auto
  with 0 False assms(1) show thesis
    by (intro that [of "length T"]) (auto simp: cluster_end_def)
qed

definition remove_post ::
  "set_hash_function \<Rightarrow> simple_set \<Rightarrow> cstr \<Rightarrow> mem \<Rightarrow> int \<times> simple_set \<times> mem \<Rightarrow> bool" where
  "remove_post H s key m = (\<lambda>(rc, s', m').
     if key \<in> elems s then rc = SET_TRUE \<and> wf_set H s' \<and> elems s' = elems s - {key}
       \<and> used_nodes s' = used_nodes s - 1 \<and> number_nodes s' = number_nodes s \<and> mem_step m (- 2) m'
     else rc = SET_FALSE \<and> s' = s \<and> m' = m)"

lemma uniq_inj: "uniq key T \<Longrightarrow> inj_on key (contents T)"
proof (rule inj_onI)
  fix x y assume u: "uniq key T" and x: "x \<in> contents T" and y: "y \<in> contents T" and k: "key x = key y"
  obtain p where p: "p < length T" "T ! p = Some x" using x unfolding contents_nth by blast
  obtain q where q: "q < length T" "T ! q = Some y" using y unfolding contents_nth by blast
  have "p = q" using uniqD [OF u p(1) q(1) p(2) q(2) k] .
  with p q show "x = y" by simp
qed

text \<open>The table after the key of slot \<open>j\<close> was freed and the slots behind it laid out again.\<close>

lemma removed_wf:
  assumes "wf_set H s" "j < length (slots s)" "slots s ! j = Some x"
    and T': "tab (home (length (slots s))) node_key (length (slots s)) (contents (slots s) - {x})
        (unat (used_nodes s) - 1) T'" "\<forall>p < length (slots s). good (home (length (slots s))) T' p"
  shows "wf_set H (s\<lparr>nodes := vals T', used_nodes := used_nodes s - 1\<rparr>)"
    "elems (s\<lparr>nodes := vals T', used_nodes := used_nodes s - 1\<rparr>) = elems s - {node_key x}"
proof -
  note w = wf_setD [OF assms(1)]
  let ?s2 = "s\<lparr>nodes := vals T', used_nodes := used_nodes s - 1\<rparr>"
  have u: "0 < unat (used_nodes s)"
    using w(7) assms(2,3) card_gt_0_iff [of "occ (slots s)"] by (auto simp: occ_def)
  have un: "unat (used_nodes s - 1) = unat (used_nodes s) - 1" using u by (simp add: unat_minus_one unat_gt_0)
  have "hashed H T'" using w(3) tabD(3) [OF T'(1)] by (simp add: hashed_def)
  then have "wf_set H ?s2" "elems ?s2 = node_key ` (contents (slots s) - {x})"
    using wf_setI [of ?s2 T' "length (slots s)" H] T' un u w(2,4,5,9) by simp_all
  moreover have "x \<in> contents (slots s)" using assms(2,3) by (auto simp: contents_nth)
  ultimately show "wf_set H ?s2" "elems ?s2 = elems s - {node_key x}"
    using inj_on_image_set_diff [OF uniq_inj [OF w(6)], of "contents (slots s)" "{x}"]
    by (simp_all add: elems_def)
qed

lemma remove_found_gives:
  assumes "wf_set H s" "key \<in> elems s" "tail_free s key"
    and "stops (slots s) (\<lambda>y. node_key y = key) (unat (H key) mod length (slots s)) j"
    and "slots s ! j \<noteq> None"
  shows "gives (rbind (free_index s j m) (\<lambda>(s1, m1). rbind (relayout_nodes s1 j 0 m1) (\<lambda>(s2, m2).
      Inr (SET_TRUE, s2\<lparr>used_nodes := used_nodes s2 - 1\<rparr>, m2)))) (remove_post H s key m) (oom m)"
proof -
  note w = wf_setD [OF assms(1)] and t = wf_tab [OF assms(1)]
  define T n u where "T = slots s" and "n = length T" and "u = unat (used_nodes s)"
  note d = T_def [symmetric] n_def [symmetric] u_def [symmetric]
  note t' = t [unfolded d]
  have j: "j < n" using assms(4) by (simp add: stops_def d)
  obtain x where x: "T ! j = Some x" "node_key x = key"
    using assms(4,5) by (auto simp: stops_def T_def)
  have tf: "T ! 0 = None \<or> (\<exists>e < length T. j < e \<and> T ! e = None)"
    using assms(3) x j by (fastforce simp: tail_free_def Let_def d)
  obtain e where e: "j < e" "cluster_end (T[j := None]) j e" "\<And>p. j < p \<Longrightarrow> p < e \<Longrightarrow> T ! p \<noteq> None"
    using cluster_exists [OF _ _ tf] j x by (auto simp: n_def)
  have sw: "sweep (home n) e j (Suc j) (T[j := None])"
    using sweep_init [of T "home n" j e] w(8) j x(1) e by (simp add: T_def n_def)
  have t1: "tab (home n) node_key n (contents T - {x}) (u - 1) (T[j := None])"
    by (rule remove_tab [OF t' j x(1)])
  have u: "0 < u" "u < n"
    using w(5,7) j x(1) card_gt_0_iff [of "occ T"] by (auto simp: d occ_def)
  have hs: "hashed H (T[j := None])" using w(3) tabD(3) [OF t1] by (simp add: hashed_def d)
  let ?s1 = "s\<lparr>nodes := vals (T[j := None])\<rparr>"
  have bk: "backs (T[j := None]) ?s1" using backs_update [OF w(1)] by (simp add: d)
  have fr: "free_index s j m = Inr (?s1, dealloc (dealloc m))"
    using free_index_eq [OF w(1)] j x(1) by (simp add: d)
  have st: "mem_step m (- 2) (dealloc (dealloc m))"
    using mem_step_dealloc [OF mem_step_dealloc [OF mem_step_refl [of m]]] by simp
  have "gives (relayout_nodes ?s1 j 0 (dealloc (dealloc m)))
      (\<lambda>(s', m'). \<exists>T'. s' = ?s1\<lparr>nodes := vals T'\<rparr>
      \<and> tab (home n) node_key n (contents T - {x}) (u - 1) T'
      \<and> (\<forall>p < n. good (home n) T' p) \<and> mem_step (dealloc (dealloc m)) 0 m') (oom (dealloc (dealloc m)))"
    using relayout_sweep_gives [OF bk hs, of "u - 1" "contents T - {x}" j e] t1 sw u j
    by (simp add: n_def)
  then have "gives (rbind (relayout_nodes ?s1 j 0 (dealloc (dealloc m))) (\<lambda>(s2, m2).
      Inr (SET_TRUE, s2\<lparr>used_nodes := used_nodes s2 - 1\<rparr>, m2))) (remove_post H s key m)
      (oom (dealloc (dealloc m)))"
  proof (rule gives_rbind, clarify)
    fix m' T'
    assume T': "tab (home n) node_key n (contents T - {x}) (u - 1) T'"
      "\<forall>p < n. good (home n) T' p" and m': "mem_step (dealloc (dealloc m)) 0 m'"
    have "wf_set H (s\<lparr>nodes := vals T', used_nodes := used_nodes s - 1\<rparr>)"
      "elems (s\<lparr>nodes := vals T', used_nodes := used_nodes s - 1\<rparr>) = elems s - {key}"
      using removed_wf [OF assms(1), of j x T'] j x T' by (simp_all add: d)
    then show "gives (Inr (SET_TRUE, ?s1\<lparr>nodes := vals T',
          used_nodes := used_nodes (?s1\<lparr>nodes := vals T'\<rparr>) - 1\<rparr>, m'))
        (remove_post H s key m) (oom (dealloc (dealloc m)))"
      using mem_step_trans [OF st m'] assms(2) by (simp add: remove_post_def)
  qed
  then have "gives (rbind (free_index s j m) (\<lambda>(s1, m1). rbind (relayout_nodes s1 j 0 m1) (\<lambda>(s2, m2).
      Inr (SET_TRUE, s2\<lparr>used_nodes := used_nodes s2 - 1\<rparr>, m2)))) (remove_post H s key m)
      (oom (dealloc (dealloc m)))" by (simp add: fr)
  then show ?thesis by (rule gives_mono) (use oom_step [OF st] in auto)
qed

lemma set_remove_gives:
  assumes "wf_set H s" "tail_free s key"
  shows "gives (set_remove s key m) (remove_post H s key m) (oom m)"
proof -
  have "gives (rbind (get_index s key (H key) 0) (\<lambda>(pos, index).
       if pos \<noteq> SET_TRUE then Inr (pos, s, m)
       else rbind (free_index s index m) (\<lambda>(s1, m1).
         rbind (relayout_nodes s1 index 0 m1) (\<lambda>(s2, m2).
           Inr (SET_TRUE, s2\<lparr>used_nodes := used_nodes s2 - 1\<rparr>, m2))))) (remove_post H s key m) (oom m)"
  proof (rule gives_rbind [OF gives_mono [OF get_index_wf [OF assms(1), of key 0]]], assumption)
    fix p :: "int \<times> nat"
    assume "case p of (rc, j) \<Rightarrow> rc = (if key \<in> elems s then SET_TRUE else SET_FALSE)
        \<and> j < length (slots s) \<and> (slots s ! j = None \<longleftrightarrow> key \<notin> elems s)
        \<and> stops (slots s) (\<lambda>y. node_key y = key) (unat (H key) mod length (slots s)) j"
    then obtain j where p: "p = (if key \<in> elems s then SET_TRUE else SET_FALSE, j)"
      and j: "slots s ! j = None \<longleftrightarrow> key \<notin> elems s"
        "stops (slots s) (\<lambda>y. node_key y = key) (unat (H key) mod length (slots s)) j" by auto
    show "gives (case p of (pos, index) \<Rightarrow> if pos \<noteq> SET_TRUE then Inr (pos, s, m)
       else rbind (free_index s index m) (\<lambda>(s1, m1). rbind (relayout_nodes s1 index 0 m1) (\<lambda>(s2, m2).
           Inr (SET_TRUE, s2\<lparr>used_nodes := used_nodes s2 - 1\<rparr>, m2)))) (remove_post H s key m) (oom m)"
    proof (cases "key \<in> elems s")
      case True
      then show ?thesis using p remove_found_gives [OF assms(1) True assms(2) j(2)] j(1) by simp
    qed (use p in \<open>simp add: remove_post_def\<close>)
  qed simp
  then show ?thesis
    unfolding set_remove_def call_hash_def wf_setD(2) [OF assms(1)] option.case rbind_Inr .
qed

section \<open>Initialisation, clearing and destruction\<close>

lemma tab_empty: "tab (home n) node_key n {} 0 (replicate n None)"
proof -
  have "contents (replicate n None :: simple_set_node option list) = {}" by (auto simp: contents_def)
  moreover have "occ (replicate n None :: simple_set_node option list) = {}" by (auto simp: occ_def)
  ultimately show ?thesis by (auto simp: tab_def uniq_def)
qed

lemma wf_set_empty:
  assumes "nodes s = vals (replicate n None)" "unat (number_nodes s) = n" "2 \<le> n"
    and "hash_function s = Some H" "used_nodes s = 0"
  shows "wf_set H s" "elems s = {}"
proof -
  have "wf_set H s \<and> elems s = node_key ` {}"
    using assms wf_setI [OF assms(1,2,4) _ assms(3), of "{}"] tab_empty
    by (simp add: hashed_def contents_def good_def)
  then show "wf_set H s" "elems s = {}" by simp_all
qed

definition init_post ::
  "set_hash_function option \<Rightarrow> u64 \<Rightarrow> mem \<Rightarrow> int \<times> simple_set \<times> mem \<Rightarrow> bool" where
  "init_post hash num_els m = (\<lambda>(rc, s', m').
     if rc = SET_MALLOC_ERROR then nodes s' = Null \<and> \<not> mem_ok m \<and> live m' = live m
     else rc = SET_TRUE \<and> wf_set (case hash of None \<Rightarrow> default_hash | Some h \<Rightarrow> h) s'
       \<and> elems s' = {} \<and> used_nodes s' = 0 \<and> number_nodes s' = num_els \<and> mem_step m 1 m')"

lemma set_init_alt_gives:
  assumes "2 \<le> unat num_els" "unat num_els < 2 ^ 60"
  shows "gives (set_init_alt s num_els hash m) (init_post hash num_els m) (\<lambda>_. False)"
proof (cases "alloc m")
  case (Pair b m1)
  define n where "n = unat num_els"
  show ?thesis
  proof (cases b)
    case True
    let ?t = "s\<lparr>nodes := vals (replicate n None), number_nodes := num_els\<rparr>"
    let ?s = "?t\<lparr>used_nodes := 0, hash_function := Some (case hash of None \<Rightarrow> default_hash | Some h \<Rightarrow> h)\<rparr>"
    have sz: "unat (num_els * 8) div 8 = n" using assms(2) by (simp add: n_def unat_word_ariths)
    have fill: "null_fill (s\<lparr>nodes := Block (replicate n Junk), number_nodes := num_els\<rparr>) 0 n = Inr ?t"
      using null_fill_gives [of "s\<lparr>nodes := part [] n, number_nodes := num_els\<rparr>" "[]" n] by simp
    have "wf_set (case hash of None \<Rightarrow> default_hash | Some h \<Rightarrow> h) ?s" "elems ?s = {}"
      using wf_set_empty [of ?s n] assms(1) by (simp_all add: n_def)
    moreover have "set_init_alt s num_els hash m = Inr (SET_TRUE, ?s, m1)"
      using Pair True fill by (simp add: set_init_alt_def sz n_def [symmetric] del: map_replicate)
    ultimately show ?thesis using Pair True mem_step_alloc [of m m1] by (simp add: init_post_def)
  qed (use Pair alloc_mem_ok [of m b m1] alloc_live [of m b m1] in
    \<open>auto simp: set_init_alt_def init_post_def\<close>)
qed

text \<open>Clearing: the first \<open>i\<close> slots are emptied, two blocks per entry are given back.\<close>

lemma mem_step_free2: "mem_step m d m' \<Longrightarrow> mem_step m (d - 2) (dealloc (dealloc m'))"
  by (simp add: mem_step_def)

lemma occ_upto_Suc:
  assumes "i < length T"
  shows "card (occ T \<inter> {..<Suc i}) = card (occ T \<inter> {..<i}) + (if T ! i = None then 0 else 1)"
proof -
  have "occ T \<inter> {..<Suc i} = (if T ! i = None then occ T \<inter> {..<i} else insert i (occ T \<inter> {..<i}))"
    using assms by (auto simp: occ_def less_Suc_eq)
  then show ?thesis by simp
qed

lemma occ_upto_all: "occ T \<inter> {..<length T} = occ T"
  by (auto simp: occ_def)

lemma clear_nth:
  assumes "i < length T"
  shows "(replicate i None @ drop i T) ! i = T ! i"
    "(replicate i None @ drop i T)[i := None] = replicate (Suc i) None @ drop (Suc i) T"
    "T ! i = None \<Longrightarrow> replicate i None @ drop i T = replicate (Suc i) None @ drop (Suc i) T"
proof -
  have d: "drop i T = T ! i # drop (Suc i) T" using assms by (rule Cons_nth_drop_Suc [symmetric])
  have r: "replicate (Suc i) x = replicate i x @ [x]" for x :: "'a option"
    by (simp add: replicate_append_same)
  show "(replicate i None @ drop i T) ! i = T ! i" by (simp add: d nth_append)
  show "(replicate i None @ drop i T)[i := None] = replicate (Suc i) None @ drop (Suc i) T"
    unfolding r by (simp add: d list_update_append)
  show "replicate i None @ drop i T = replicate (Suc i) None @ drop (Suc i) T" if "T ! i = None"
    unfolding r by (simp add: d that)
qed

definition clear_body ::
  "nat \<Rightarrow> simple_set \<times> mem \<Rightarrow> (simple_set \<times> mem, simple_set \<times> mem) ctl res" where
  "clear_body i = (\<lambda>(t, m'). rbind (rd (nodes t) i) (\<lambda>n. case n of
         None \<Rightarrow> Inr (Next (t, m'))
       | Some x \<Rightarrow> rbind (free_index t i m') (\<lambda>(t1, m1). Inr (Next (t1, m1)))))"

lemma clear_loop_gives:
  assumes "backs T s"
  shows "gives (run_loop clear_body 0 (length T) (s, m))
    (\<lambda>(t, m'). t = s\<lparr>nodes := vals (replicate (length T) None)\<rparr>
      \<and> mem_step m (- 2 * int (card (occ T))) m') (\<lambda>_. False)"
proof (rule gives_run_loop [where P = "\<lambda>i (t, m'). t = s\<lparr>nodes := vals (replicate i None @ drop i T)\<rparr>
      \<and> mem_step m (- 2 * int (card (occ T \<inter> {..<i}))) m'"])
  have "s\<lparr>nodes := vals T\<rparr> = s" using backsD(1) [OF assms] by (rule nodes_update_id)
  then show "case (s, m) of (t, m') \<Rightarrow> t = s\<lparr>nodes := vals (replicate 0 None @ drop 0 T)\<rparr>
      \<and> mem_step m (- 2 * int (card (occ T \<inter> {..<0}))) m'" by simp
next
  fix i and st :: "simple_set \<times> mem"
  assume "0 \<le> i" "i < 0 + length T"
    and "case st of (t, m') \<Rightarrow> t = s\<lparr>nodes := vals (replicate i None @ drop i T)\<rparr>
      \<and> mem_step m (- 2 * int (card (occ T \<inter> {..<i}))) m'"
  then obtain m' where st: "st = (s\<lparr>nodes := vals (replicate i None @ drop i T)\<rparr>, m')"
    and m': "mem_step m (- 2 * int (card (occ T \<inter> {..<i}))) m'" and i: "i < length T" by auto
  let ?T = "replicate i None @ drop i T"
  have bk: "backs ?T (s\<lparr>nodes := vals ?T\<rparr>)" using i by (intro backs_update [OF assms]) simp
  have li: "i < length ?T" using i by simp
  have rd: "rd (vals ?T) i = Inr (T ! i)" using rd_vals [OF li] unfolding clear_nth(1) [OF i] .
  note fr = free_index_eq [OF bk li]
  show "gives (clear_body i st) (\<lambda>c. case c of
      Next t' \<Rightarrow> (case t' of (t, m') \<Rightarrow> t = s\<lparr>nodes := vals (replicate (Suc i) None @ drop (Suc i) T)\<rparr>
        \<and> mem_step m (- 2 * int (card (occ T \<inter> {..<Suc i}))) m')
    | Break t' \<Rightarrow> (case t' of (t, m') \<Rightarrow> t = s\<lparr>nodes := vals (replicate (length T) None)\<rparr>
        \<and> mem_step m (- 2 * int (card (occ T))) m')) (\<lambda>_. False)"
  proof (cases "T ! i")
    case None
    have "clear_body i st = Inr (Next st)" using rd None unfolding clear_body_def st by simp
    then show ?thesis using m' occ_upto_Suc [OF i] None clear_nth(3) [OF i None] by (simp add: st)
  next
    case (Some x)
    have "clear_body i st =
        Inr (Next (s\<lparr>nodes := vals (?T[i := None])\<rparr>, dealloc (dealloc m')))"
      using rd Some fr [of x m'] clear_nth(1) [OF i] unfolding clear_body_def st by simp
    moreover have "mem_step m (- 2 * int (card (occ T \<inter> {..<Suc i}))) (dealloc (dealloc m'))"
    proof -
      have "- 2 * int (card (occ T \<inter> {..<Suc i})) = - 2 * int (card (occ T \<inter> {..<i})) - 2"
        using occ_upto_Suc [OF i] Some by simp
      then show ?thesis using mem_step_free2 [OF m'] by simp
    qed
    ultimately show ?thesis using clear_nth(2) [OF i] by simp
  qed
qed (auto simp: occ_upto_all)

lemma set_clear_gives:
  assumes "backs T s"
  shows "gives (set_clear s m) (\<lambda>(rc, s', m'). rc = SET_TRUE
      \<and> s' = s\<lparr>nodes := vals (replicate (length T) None), used_nodes := 0\<rparr>
      \<and> mem_step m (- 2 * int (card (occ T))) m') (\<lambda>_. False)"
proof -
  have "set_clear s m = rbind (run_loop clear_body 0 (length T) (s, m))
      (\<lambda>(s1, m1). Inr (SET_TRUE, s1\<lparr>used_nodes := 0\<rparr>, m1))"
    unfolding set_clear_def clear_body_def backsD(2) [OF assms] ..
  then show ?thesis by (auto intro!: gives_rbind [OF clear_loop_gives [OF assms]])
qed

lemma set_destroy_gives:
  assumes "backs T s"
  shows "gives (set_destroy s m) (\<lambda>(rc, s', m'). rc = SET_TRUE
      \<and> s' = s\<lparr>nodes := Freed, number_nodes := 0, used_nodes := 0, hash_function := None\<rparr>
      \<and> mem_step m (- 2 * int (card (occ T)) - 1) m') (\<lambda>_. False)"
  unfolding set_destroy_def
  by (rule gives_rbind [OF set_clear_gives [OF assms]]) (auto simp: c_free_def mem_step_dealloc)

end
