(* ===== verification/SetAlgebra.thy ===== *)
theory SetAlgebra
  imports SetOps
begin

text \<open>
  The operations of \<open>set.c\<close> on whole sets: \<open>set_to_array\<close>, union, intersection,
  difference, symmetric difference, the subset tests and the comparison.  Every one is a loop
  over the nodes of a set; \<open>on_node\<close> is the head of its body.  The sets given to one call are
  values here, so that the result set is none of the operands; the theory \<open>SetAlias\<close> has the
  versions that take addresses.
\<close>

section \<open>Definitions\<close>

definition on_node ::
  "simple_set \<Rightarrow> (simple_set_node \<Rightarrow> 's \<Rightarrow> ('s, 'r) ctl res) \<Rightarrow> nat \<Rightarrow> 's \<Rightarrow> ('s, 'r) ctl res" where
  "on_node s f i st = rbind (rd (nodes s) i) (\<lambda>n. case n of None \<Rightarrow> Inr (Next st) | Some x \<Rightarrow> f x st)"

definition each_node ::
  "simple_set \<Rightarrow> (simple_set_node \<Rightarrow> 's \<Rightarrow> ('s, 's) ctl res) \<Rightarrow> 's \<Rightarrow> 's res" where
  "each_node s f st = run_loop (on_node s f) 0 (unat (number_nodes s)) st"

text \<open>The array of \<open>set_to_array\<close> holds pointers to strings, \<open>None\<close> is \<open>NULL\<close>.\<close>

definition array_node :: "simple_set_node \<Rightarrow> cstr option block \<times> nat \<times> mem \<Rightarrow>
    (cstr option block \<times> nat \<times> mem, cstr option block \<times> nat \<times> mem) ctl res" where
  "array_node x = (\<lambda>(results, j, m). case alloc m of
      (True, m1) \<Rightarrow> rbind (wr results j (Some (node_key x))) (\<lambda>r. Inr (Next (r, j + 1, m1)))
    | (False, m1) \<Rightarrow> Inl NullDeref)"

definition set_to_array :: "simple_set \<Rightarrow> mem \<Rightarrow> (cstr option block \<times> u64 \<times> mem) res" where
  "set_to_array s m = (case alloc m of (ok, m1) \<Rightarrow>
     rbind (each_node s array_node
       (if ok then vals (replicate (unat (used_nodes s + 1)) None) else Null, 0, m1))
       (\<lambda>(results, j, m2). Inr (results, used_nodes s, m2)))"

definition add_node ::
  "simple_set_node \<Rightarrow> simple_set \<times> mem \<Rightarrow> (simple_set \<times> mem, simple_set \<times> mem) ctl res" where
  "add_node x = (\<lambda>(res, m). rbind (set_add_hash res (node_key x) (node_hash x) m)
     (\<lambda>(rc, res', m'). Inr (Next (res', m'))))"

definition add_node_if :: "simple_set \<Rightarrow> (int \<Rightarrow> bool) \<Rightarrow>
    simple_set_node \<Rightarrow> simple_set \<times> mem \<Rightarrow> (simple_set \<times> mem, simple_set \<times> mem) ctl res" where
  "add_node_if s test x st = rbind (set_contains_hash s (node_key x) (node_hash x))
     (\<lambda>c. if test c then add_node x st else Inr (Next st))"

definition set_union ::
  "simple_set \<Rightarrow> simple_set \<Rightarrow> simple_set \<Rightarrow> mem \<Rightarrow> (int \<times> simple_set \<times> mem) res" where
  "set_union res s1 s2 m = (if used_nodes res \<noteq> 0 then Inr (SET_OCCUPIED_ERROR, res, m)
     else rbind (each_node s1 add_node (res, m)) (\<lambda>st.
       rbind (each_node s2 add_node st) (\<lambda>(r, m'). Inr (SET_TRUE, r, m'))))"

definition set_intersection ::
  "simple_set \<Rightarrow> simple_set \<Rightarrow> simple_set \<Rightarrow> mem \<Rightarrow> (int \<times> simple_set \<times> mem) res" where
  "set_intersection res s1 s2 m = (if used_nodes res \<noteq> 0 then Inr (SET_OCCUPIED_ERROR, res, m)
     else rbind (each_node s1 (add_node_if s2 (\<lambda>c. c = SET_TRUE)) (res, m))
       (\<lambda>(r, m'). Inr (SET_TRUE, r, m')))"

definition set_difference ::
  "simple_set \<Rightarrow> simple_set \<Rightarrow> simple_set \<Rightarrow> mem \<Rightarrow> (int \<times> simple_set \<times> mem) res" where
  "set_difference res s1 s2 m = (if used_nodes res \<noteq> 0 then Inr (SET_OCCUPIED_ERROR, res, m)
     else rbind (each_node s1 (add_node_if s2 (\<lambda>c. c \<noteq> SET_TRUE)) (res, m))
       (\<lambda>(r, m'). Inr (SET_TRUE, r, m')))"

definition set_symmetric_difference ::
  "simple_set \<Rightarrow> simple_set \<Rightarrow> simple_set \<Rightarrow> mem \<Rightarrow> (int \<times> simple_set \<times> mem) res" where
  "set_symmetric_difference res s1 s2 m =
     (if used_nodes res \<noteq> 0 then Inr (SET_OCCUPIED_ERROR, res, m)
      else rbind (each_node s1 (add_node_if s2 (\<lambda>c. c \<noteq> SET_TRUE)) (res, m)) (\<lambda>st.
        rbind (each_node s2 (add_node_if s1 (\<lambda>c. c \<noteq> SET_TRUE)) st)
          (\<lambda>(r, m'). Inr (SET_TRUE, r, m'))))"

text \<open>The loops that return a code from their body.\<close>

definition subset_node :: "simple_set \<Rightarrow> simple_set_node \<Rightarrow> unit \<Rightarrow> (unit, int) ctl res" where
  "subset_node against x u = rbind (set_contains_hash against (node_key x) (node_hash x))
     (\<lambda>c. Inr (if c = SET_FALSE then Break SET_FALSE else Next u))"

definition set_is_subset :: "simple_set \<Rightarrow> simple_set \<Rightarrow> int res" where
  "set_is_subset test against =
     rbind (for_loop (on_node test (subset_node against)) 0 (unat (number_nodes test)) ())
       (\<lambda>c. Inr (case c of Next _ \<Rightarrow> SET_TRUE | Break r \<Rightarrow> r))"

definition set_is_subset_strict :: "simple_set \<Rightarrow> simple_set \<Rightarrow> int res" where
  "set_is_subset_strict test against = (if used_nodes test \<ge> used_nodes against then Inr SET_FALSE
     else set_is_subset test against)"

definition set_is_superset :: "simple_set \<Rightarrow> simple_set \<Rightarrow> int res" where
  "set_is_superset test against = set_is_subset against test"

definition set_is_superset_strict :: "simple_set \<Rightarrow> simple_set \<Rightarrow> int res" where
  "set_is_superset_strict test against = set_is_subset_strict against test"

definition cmp_node :: "simple_set \<Rightarrow> simple_set_node \<Rightarrow> unit \<Rightarrow> (unit, int) ctl res" where
  "cmp_node right x u = rbind (set_contains right (node_key x))
     (\<lambda>c. Inr (if c \<noteq> SET_TRUE then Break SET_UNEQUAL else Next u))"

definition set_cmp :: "simple_set \<Rightarrow> simple_set \<Rightarrow> int res" where
  "set_cmp left right = (if used_nodes left < used_nodes right then Inr SET_RIGHT_GREATER
     else if used_nodes right < used_nodes left then Inr SET_LEFT_GREATER
     else rbind (for_loop (on_node left (cmp_node right)) 0 (unat (number_nodes left)) ())
       (\<lambda>c. Inr (case c of Next _ \<Rightarrow> SET_EQUAL | Break r \<Rightarrow> r)))"

section \<open>Loops over the nodes\<close>

text \<open>The entries of the first \<open>i\<close> slots.\<close>

definition seen :: "nat \<Rightarrow> simple_set_node option list \<Rightarrow> simple_set_node set" where
  "seen i T = contents (take i T)"

lemma seen_Suc:
  "i < length T \<Longrightarrow> seen (Suc i) T = (case T ! i of None \<Rightarrow> seen i T | Some x \<Rightarrow> insert x (seen i T))"
  by (auto simp: seen_def contents_def take_Suc_conv_app_nth split: option.splits)

lemma seen_simps [simp]: "seen 0 T = {}" "seen (length T) T = contents T"
  by (simp_all add: seen_def contents_def)

lemma seen_subset: "seen i T \<subseteq> contents T"
  by (auto simp: seen_def contents_def dest: in_set_takeD)

text \<open>An invariant of the entries seen so far and the state holds after the loop.\<close>

lemma on_node_loop_gives:
  assumes "backs T s" "P {} st"
    and "\<And>D x t. D \<subseteq> contents T \<Longrightarrow> x \<in> contents T \<Longrightarrow> P D t \<Longrightarrow>
      gives (f x t) (\<lambda>c. case c of Next t' \<Rightarrow> P (insert x D) t' | Break r \<Rightarrow> R r) E"
    and "\<And>t. P (contents T) t \<Longrightarrow> Q (Next t)" "\<And>r. R r \<Longrightarrow> Q (Break r)"
  shows "gives (for_loop (on_node s f) 0 (unat (number_nodes s)) st) Q E"
proof (rule gives_for_loop [where P = "\<lambda>i. P (seen i T)" and R = R])
  note b = backsD [OF assms(1)]
  fix i t assume i: "i < 0 + unat (number_nodes s)" and P: "P (seen i T) t"
  have rd: "rd (nodes s) i = Inr (T ! i)" using i b(1,2) by simp
  show "gives (on_node s f i t)
      (\<lambda>c. case c of Next t' \<Rightarrow> P (seen (Suc i) T) t' | Break r \<Rightarrow> R r) E"
  proof (cases "T ! i")
    case (Some x)
    then have x: "x \<in> contents T" using contentsI [of i T x] i b(2) by simp
    have e: "seen (Suc i) T = insert x (seen i T)" using Some seen_Suc [of i T] i b(2) by simp
    show ?thesis unfolding e using assms(3) [OF seen_subset x P] rd Some by (simp add: on_node_def)
  qed (use P rd seen_Suc [of i T] i b(2) in \<open>simp add: on_node_def\<close>)
qed (use assms(2,4,5) in \<open>simp_all add: backsD(2) [OF assms(1), symmetric]\<close>)

lemma each_node_gives:
  assumes "backs T s" "P {} st"
    and "\<And>D x t. D \<subseteq> contents T \<Longrightarrow> x \<in> contents T \<Longrightarrow> P D t \<Longrightarrow>
      gives (f x t) (\<lambda>c. case c of Next t' \<Rightarrow> P (insert x D) t' | Break r \<Rightarrow> Q r) E"
    and "\<And>t. P (contents T) t \<Longrightarrow> Q t"
  shows "gives (each_node s f st) Q E"
  unfolding each_node_def run_loop_def
  by (rule gives_rbind, rule on_node_loop_gives [where P = P and R = Q
      and Q = "\<lambda>c. Q (case c of Next t \<Rightarrow> t | Break t \<Rightarrow> t)", OF assms(1,2)]) (use assms in auto)

section \<open>Subset and comparison\<close>

lemma wf_hash: "wf_set H s \<Longrightarrow> x \<in> contents (slots s) \<Longrightarrow> node_hash x = H (node_key x)"
  using wf_setD(3) by (simp add: hashed_def)

lemma card_elems:
  assumes "wf_set H s"
  shows "card (elems s) = unat (used_nodes s)" "finite (elems s)"
proof -
  note w = wf_setD [OF assms]
  have "bij_betw (\<lambda>p. the (slots s ! p)) (occ (slots s)) (contents (slots s))"
  proof (rule bij_betw_imageI)
    show "inj_on (\<lambda>p. the (slots s ! p)) (occ (slots s))"
      using uniqD [OF w(6)] by (intro inj_onI) (auto simp: occ_def)
    show "(\<lambda>p. the (slots s ! p)) ` occ (slots s) = contents (slots s)"
      by (force simp: occ_def contents_nth)
  qed
  then have "card (contents (slots s)) = unat (used_nodes s)" "finite (contents (slots s))"
    using w(7) bij_betw_same_card bij_betw_finite by (fastforce, force)
  then show "card (elems s) = unat (used_nodes s)" "finite (elems s)"
    using card_image [OF uniq_inj [OF w(6)]] by (simp_all add: elems_def)
qed

lemma set_is_subset_wf:
  assumes "wf_set H s" "wf_set H t"
  shows "set_is_subset s t = Inr (if elems s \<subseteq> elems t then SET_TRUE else SET_FALSE)"
proof -
  have "gives (set_is_subset s t)
      (\<lambda>rc. rc = (if elems s \<subseteq> elems t then SET_TRUE else SET_FALSE)) (\<lambda>_. False)"
    unfolding set_is_subset_def
  proof (rule gives_rbind, rule on_node_loop_gives [OF wf_setD(1) [OF assms(1)],
        where P = "\<lambda>D _. node_key ` D \<subseteq> elems t" and R = "\<lambda>r. r = SET_FALSE \<and> \<not> elems s \<subseteq> elems t"
          and Q = "\<lambda>c. (case c of Next _ \<Rightarrow> SET_TRUE | Break r \<Rightarrow> r)
            = (if elems s \<subseteq> elems t then SET_TRUE else SET_FALSE)"])
    fix D :: "simple_set_node set" and x u
    assume D: "x \<in> contents (slots s)" "node_key ` D \<subseteq> elems t"
    have c: "set_contains_hash t (node_key x) (node_hash x)
        = Inr (if node_key x \<in> elems t then SET_TRUE else SET_FALSE)"
      using set_contains_hash_wf [OF assms(2), of "node_key x"] wf_hash [OF assms(1) D(1)] by simp
    have "node_key x \<in> elems s" using D(1) by (simp add: elems_def)
    then show "gives (subset_node t x u) (\<lambda>c. case c of Next t' \<Rightarrow> node_key ` insert x D \<subseteq> elems t
        | Break r \<Rightarrow> r = SET_FALSE \<and> \<not> elems s \<subseteq> elems t) (\<lambda>_. False)"
      using D(2) by (auto simp: subset_node_def c)
  qed (simp_all add: elems_def)
  then show ?thesis by (simp add: gives_total)
qed

lemma set_contains_wf:
  assumes "wf_set H s"
  shows "set_contains s key = Inr (if key \<in> elems s then SET_TRUE else SET_FALSE)"
  using set_contains_hash_wf [OF assms, of key] wf_setD(2) [OF assms]
  by (simp add: set_contains_def set_contains_hash_def call_hash_def)

lemma used_le_iff:
  assumes "wf_set H s" "wf_set K t"
  shows "used_nodes s \<le> used_nodes t \<longleftrightarrow> card (elems s) \<le> card (elems t)"
    "used_nodes s < used_nodes t \<longleftrightarrow> card (elems s) < card (elems t)"
  using card_elems [OF assms(1)] card_elems [OF assms(2)] by (simp_all add: word_le_nat_alt word_less_nat_alt)

lemma set_cmp_wf:
  assumes "wf_set H s" "wf_set K t"
  shows "set_cmp s t = Inr (if card (elems s) < card (elems t) then SET_RIGHT_GREATER
     else if card (elems t) < card (elems s) then SET_LEFT_GREATER
     else if elems s = elems t then SET_EQUAL else SET_UNEQUAL)"
proof -
  have sub: "elems s = elems t \<longleftrightarrow> elems s \<subseteq> elems t" if "card (elems s) = card (elems t)"
    using that card_subset_eq [OF card_elems(2) [OF assms(2)]] by blast
  have "gives (for_loop (on_node s (cmp_node t)) 0 (unat (number_nodes s)) ())
    (\<lambda>c. (case c of Next _ \<Rightarrow> SET_EQUAL | Break r \<Rightarrow> r)
       = (if elems s \<subseteq> elems t then SET_EQUAL else SET_UNEQUAL)) (\<lambda>_. False)"
  proof (rule on_node_loop_gives [OF wf_setD(1) [OF assms(1)],
        where P = "\<lambda>D _. node_key ` D \<subseteq> elems t" and R = "\<lambda>r. r = SET_UNEQUAL \<and> \<not> elems s \<subseteq> elems t"])
    fix D :: "simple_set_node set" and x u
    assume D: "x \<in> contents (slots s)" "node_key ` D \<subseteq> elems t"
    have "node_key x \<in> elems s" using D(1) by (simp add: elems_def)
    then show "gives (cmp_node t x u) (\<lambda>c. case c of Next t' \<Rightarrow> node_key ` insert x D \<subseteq> elems t
        | Break r \<Rightarrow> r = SET_UNEQUAL \<and> \<not> elems s \<subseteq> elems t) (\<lambda>_. False)"
      using D(2) by (auto simp: cmp_node_def set_contains_wf [OF assms(2)])
  qed (simp_all add: elems_def)
  then obtain c where c: "for_loop (on_node s (cmp_node t)) 0 (unat (number_nodes s)) () = Inr c"
    "(case c of Next _ \<Rightarrow> SET_EQUAL | Break r \<Rightarrow> r)
       = (if elems s \<subseteq> elems t then SET_EQUAL else SET_UNEQUAL)" unfolding gives_total by blast
  show ?thesis
  proof (cases "card (elems s) = card (elems t)")
    case True
    then show ?thesis
      using c by (simp add: set_cmp_def used_le_iff(2) [OF assms] used_le_iff(2) [OF assms(2,1)] sub)
  next
    case False
    then show ?thesis
      by (auto simp: set_cmp_def used_le_iff(2) [OF assms] used_le_iff(2) [OF assms(2,1)])
  qed
qed

section \<open>Union, intersection, difference\<close>

text \<open>
  \<open>added H r m K r' m'\<close>: the keys \<open>K\<close> were offered to the well-formed set \<open>r\<close>.  All of
  them are stored when no allocation fails; a failed growth drops the key.
\<close>

definition added ::
  "set_hash_function \<Rightarrow> simple_set \<Rightarrow> mem \<Rightarrow> cstr set \<Rightarrow> simple_set \<Rightarrow> mem \<Rightarrow> bool" where
  "added H r m K r' m' \<longleftrightarrow> wf_set H r' \<and> elems r \<subseteq> elems r' \<and> elems r' \<subseteq> elems r \<union> K
     \<and> (mem_ok m \<longrightarrow> elems r' = elems r \<union> K)
     \<and> mem_step m (2 * (int (card (elems r')) - int (card (elems r)))) m'
     \<and> unat (number_nodes r') \<le> max (unat (number_nodes r)) (9 * card (elems r'))"

lemma added_refl: "wf_set H r \<Longrightarrow> added H r m {} r m"
  by (simp add: added_def)

lemma mem_step_ok: "mem_step m d m' \<Longrightarrow> mem_ok m \<Longrightarrow> mem_ok m'"
  by (simp add: mem_step_def)

lemma added_trans:
  assumes "added H r m K r1 m1" "added H r1 m1 L r2 m2"
  shows "added H r m (K \<union> L) r2 m2"
proof -
  have "finite (elems r2)" using assms(2) card_elems(2) unfolding added_def by blast
  then have "card (elems r1) \<le> card (elems r2)" using assms(2) by (simp add: added_def card_mono)
  moreover have "mem_step m (2 * (int (card (elems r2)) - int (card (elems r)))) m2"
  proof -
    have "2 * (int (card (elems r2)) - int (card (elems r))) =
        2 * (int (card (elems r1)) - int (card (elems r)))
        + 2 * (int (card (elems r2)) - int (card (elems r1)))" by simp
    then show ?thesis
      using mem_step_trans [of m _ m1 _ m2] assms unfolding added_def by metis
  qed
  ultimately show ?thesis using assms by (auto simp: added_def dest: mem_step_ok)
qed

lemma added_one:
  assumes "wf_set H r" "unat (number_nodes r) < 2 ^ 60"
  shows "gives (set_add_hash r key (H key) m) (\<lambda>(rc, r', m'). added H r m {key} r' m') (oom m)"
proof (rule gives_mono [OF set_add_hash_gives [OF assms, of key m]])
  fix p :: "int \<times> simple_set \<times> mem"
  assume p: "add_post H r key m p"
  obtain rc r' m' where e: "p = (rc, r', m')" by (cases p)
  note c = card_elems [OF assms(1)]
  have ov: "unat (number_nodes r) * 2 \<le> 9 * unat (used_nodes r)" if "over_full r"
    using that f32_quot_gt_quarter [of "unat (used_nodes r)" "unat (number_nodes r)"]
      wf_setD(4,9) [OF assms(1)] by (simp add: over_full_def)
  show "case p of (rc, r', m') \<Rightarrow> added H r m {key} r' m'"
  proof (cases "key \<in> elems r")
    case True
    then have "r' = r" "m' = m" using p e by (simp_all add: add_post_def)
    then show ?thesis using assms(1) True e by (auto simp: added_def insert_absorb)
  next
    case new: False
    show ?thesis
    proof (cases "rc = SET_MALLOC_ERROR")
      case True
      then have "r' = r" "live m' = live m" "\<not> mem_ok m" using p e new by (simp_all add: add_post_def)
      then show ?thesis using assms(1) e by (auto simp: added_def mem_step_def)
    next
      case False
      then have r': "wf_set H r'" "elems r' = insert key (elems r)" "mem_step m 2 m'"
        "unat (number_nodes r') = (if over_full r then 2 else 1) * unat (number_nodes r)"
        using p e new by (simp_all add: add_post_def)
      moreover have "card (elems r') = Suc (card (elems r))" using r'(2) new c(2) by simp
      ultimately show ?thesis using e ov c(1) by (auto simp: added_def)
    qed
  qed
qed simp

text \<open>Offering to \<open>r\<close> the keys of \<open>s\<close> that pass a test.\<close>

lemma each_added_gives:
  assumes "wf_set H s" "wf_set H r"
    and "max (unat (number_nodes r)) (9 * (card (elems r) + card (elems s))) < 2 ^ 60"
    and "\<And>x st. x \<in> contents (slots s) \<Longrightarrow> wf_set H (fst st) \<Longrightarrow>
      f x st = (if keep (node_key x) then add_node x st else Inr (Next st))"
  shows "gives (each_node s f (r, m))
    (\<lambda>(r', m'). added H r m {k \<in> elems s. keep k} r' m') (oom m)"
proof -
  define K where "K D = {k \<in> node_key ` D. keep k}" for D :: "simple_set_node set"
  have K: "K (contents (slots s)) = {k \<in> elems s. keep k}" by (auto simp: K_def elems_def)
  show ?thesis
    unfolding K [symmetric]
  proof (rule each_node_gives [OF wf_setD(1) [OF assms(1)],
        where P = "\<lambda>D (r', m'). added H r m (K D) r' m'"])
    show "case (r, m) of (r', m') \<Rightarrow> added H r m (K {}) r' m'"
      using added_refl [OF assms(2)] by (simp add: K_def)
  next
    fix D :: "simple_set_node set" and x and t :: "simple_set \<times> mem"
    assume D: "D \<subseteq> contents (slots s)" and x: "x \<in> contents (slots s)"
      and "case t of (r', m') \<Rightarrow> added H r m (K D) r' m'"
    then obtain r' m' where t: "t = (r', m')" and a: "added H r m (K D) r' m'" by auto
    have w: "wf_set H r'" using a by (simp add: added_def)
    have "K D \<subseteq> elems s" using D by (auto simp: K_def elems_def)
    then have "elems r' \<subseteq> elems r \<union> elems s" using a by (auto simp: added_def)
    then have "card (elems r') \<le> card (elems r) + card (elems s)"
      using card_mono [of "elems r \<union> elems s" "elems r'"] card_Un_le [of "elems r" "elems s"]
        card_elems(2) [OF assms(1)] card_elems(2) [OF assms(2)] by force
    then have b: "unat (number_nodes r') < 2 ^ 60" using a assms(3) by (auto simp: added_def)
    have mo: "oom m' e \<Longrightarrow> oom m e" for e using a oom_step unfolding added_def by blast
    show "gives (f x t) (\<lambda>c. case c of Next t' \<Rightarrow> (case t' of (r', m') \<Rightarrow> added H r m (K (insert x D)) r' m')
        | Break t' \<Rightarrow> (case t' of (r', m') \<Rightarrow> added H r m (K (contents (slots s))) r' m')) (oom m)"
    proof (cases "keep (node_key x)")
      case True
      then have "K (insert x D) = K D \<union> {node_key x}" by (auto simp: K_def)
      then have "gives (add_node x t)
          (\<lambda>c. \<exists>r' m'. c = Next (r', m') \<and> added H r m (K (insert x D)) r' m') (oom m')"
        using added_trans [OF a, of "{node_key x}"] wf_hash [OF assms(1) x]
        by (auto simp: add_node_def t intro!: gives_rbind [OF added_one [OF w b, of "node_key x" m']])
      then show ?thesis using assms(4) [OF x] w t True by (auto intro: mo elim!: gives_mono)
    next
      case False
      then have "K (insert x D) = K D" by (auto simp: K_def)
      then show ?thesis using assms(4) [OF x] w False a t by simp
    qed
  qed auto
qed

text \<open>Sizes for which no table of a result reaches \<open>2 ^ 60\<close> slots.\<close>

definition small :: "simple_set \<Rightarrow> bool" where
  "small s \<longleftrightarrow> unat (number_nodes s) < 2 ^ 55"

lemma small_card: "wf_set H s \<Longrightarrow> small s \<Longrightarrow> card (elems s) < 2 ^ 55"
  using card_elems(1) wf_setD(5,9) by (fastforce simp: small_def)

lemma empty_elems: "wf_set H s \<Longrightarrow> used_nodes s = 0 \<Longrightarrow> elems s = {}"
  using card_elems by fastforce

lemma add_node_if_wf:
  assumes "wf_set H t" "node_hash x = H (node_key x)"
  shows "add_node_if t test x st =
    (if test (if node_key x \<in> elems t then SET_TRUE else SET_FALSE) then add_node x st else Inr (Next st))"
  using set_contains_hash_wf [OF assms(1), of "node_key x"] assms(2) by (simp add: add_node_if_def)

text \<open>What the four operations return when \<open>res\<close> is empty: \<open>K\<close> is the result of the algebra.\<close>

definition algebra_post ::
  "set_hash_function \<Rightarrow> mem \<Rightarrow> cstr set \<Rightarrow> int \<times> simple_set \<times> mem \<Rightarrow> bool" where
  "algebra_post H m K = (\<lambda>(rc, r, m'). rc = SET_TRUE \<and> wf_set H r \<and> elems r \<subseteq> K
     \<and> (mem_ok m \<longrightarrow> elems r = K) \<and> mem_step m (2 * int (card (elems r))) m')"

lemma algebra_postI: "added H res m K r m' \<Longrightarrow> elems res = {} \<Longrightarrow>
    algebra_post H m K (SET_TRUE, r, m')"
  by (auto simp: added_def algebra_post_def)

text \<open>An empty result set and two operands with the same hash function.\<close>

definition operands :: "set_hash_function \<Rightarrow> simple_set \<Rightarrow> simple_set \<Rightarrow> simple_set \<Rightarrow> bool" where
  "operands H res s1 s2 \<longleftrightarrow> wf_set H res \<and> wf_set H s1 \<and> wf_set H s2
     \<and> small res \<and> small s1 \<and> small s2 \<and> used_nodes res = 0"

lemma first_loop:
  assumes "operands H res s1 s2"
    and "\<And>x st. x \<in> contents (slots s1) \<Longrightarrow> wf_set H (fst st) \<Longrightarrow>
      f x st = (if keep (node_key x) then add_node x st else Inr (Next st))"
  shows "gives (each_node s1 f (res, m)) (\<lambda>(r, m'). added H res m {k \<in> elems s1. keep k} r m') (oom m)"
proof (rule each_added_gives [OF _ _ _ assms(2)])
  show "wf_set H s1" "wf_set H res" using assms(1) by (simp_all add: operands_def)
  show "max (unat (number_nodes res)) (9 * (card (elems res) + card (elems s1))) < 2 ^ 60"
    using assms(1) small_card [of H s1] empty_elems [of H res] by (simp add: operands_def small_def)
qed

lemma second_loop:
  assumes "operands H res s1 s2" "added H res m K r m'" "K \<subseteq> elems s1"
    and "\<And>x st. x \<in> contents (slots s2) \<Longrightarrow>
      f x st = (if keep (node_key x) then add_node x st else Inr (Next st))"
  shows "gives (each_node s2 f (r, m'))
    (\<lambda>(r', m''). added H res m (K \<union> {k \<in> elems s2. keep k}) r' m'') (oom m)"
proof -
  have w: "wf_set H res" "wf_set H s1" "wf_set H s2" "wf_set H r"
    using assms(1,2) by (simp_all add: operands_def added_def)
  have e: "elems res = {}" using assms(1) empty_elems [of H res] by (simp add: operands_def)
  have "elems r \<subseteq> elems s1" using assms(2,3) e by (auto simp: added_def)
  then have "card (elems r) \<le> card (elems s1)" using card_mono card_elems(2) [OF w(2)] by blast
  then have "max (unat (number_nodes r)) (9 * (card (elems r) + card (elems s2))) < 2 ^ 60"
    using small_card [OF w(2)] small_card [OF w(3)] assms(1,2)
    by (auto simp: operands_def added_def small_def)
  from each_added_gives [OF w(3,4) this assms(4), of m'] show ?thesis
  proof (rule gives_mono)
    fix p :: "simple_set \<times> mem"
    assume "case p of (r', m'') \<Rightarrow> added H r m' {k \<in> elems s2. keep k} r' m''"
    then show "case p of (r', m'') \<Rightarrow> added H res m (K \<union> {k \<in> elems s2. keep k}) r' m''"
      using added_trans [OF assms(2)] by auto
  qed (use assms(2) oom_step in \<open>auto simp: added_def\<close>)
qed

lemma operands_swap: "operands H res s1 s2 \<Longrightarrow> operands H res s2 s1"
  by (simp add: operands_def)

lemma operandsD:
  "operands H res s1 s2 \<Longrightarrow> wf_set H s1 \<and> wf_set H s2 \<and> elems res = {} \<and> used_nodes res = 0"
  using empty_elems [of H res] by (simp add: operands_def)

lemma set_union_gives:
  assumes "operands H res s1 s2"
  shows "gives (set_union res s1 s2 m) (algebra_post H m (elems s1 \<union> elems s2)) (oom m)"
proof -
  note o = operandsD [OF assms]
  have "gives (rbind (each_node s1 add_node (res, m)) (\<lambda>st.
       rbind (each_node s2 add_node st) (\<lambda>(r, m'). Inr (SET_TRUE, r, m'))))
      (algebra_post H m (elems s1 \<union> elems s2)) (oom m)"
  proof (rule gives_rbind [OF first_loop [OF assms, where keep = "\<lambda>_. True"]], simp, clarify)
    fix r m' assume a: "added H res m {k \<in> elems s1. True} r m'"
    have "gives (each_node s2 add_node (r, m'))
        (\<lambda>(r', m''). added H res m ({k \<in> elems s1. True} \<union> {k \<in> elems s2. True}) r' m'') (oom m)"
      by (rule second_loop [OF assms a]) auto
    then show "gives (rbind (each_node s2 add_node (r, m')) (\<lambda>(r, m'). Inr (SET_TRUE, r, m')))
        (algebra_post H m (elems s1 \<union> elems s2)) (oom m)"
      by (rule gives_rbind) (use o in \<open>auto intro!: algebra_postI\<close>)
  qed
  then show ?thesis using o by (simp add: set_union_def)
qed

lemma set_intersection_gives:
  assumes "operands H res s1 s2"
  shows "gives (set_intersection res s1 s2 m) (algebra_post H m (elems s1 \<inter> elems s2)) (oom m)"
proof -
  note o = operandsD [OF assms]
  have "gives (each_node s1 (add_node_if s2 (\<lambda>c. c = SET_TRUE)) (res, m))
      (\<lambda>(r, m'). added H res m {k \<in> elems s1. k \<in> elems s2} r m') (oom m)"
    using o by (intro first_loop [OF assms]) (simp add: add_node_if_wf [of H s2] wf_hash [of H s1])
  then have "gives (rbind (each_node s1 (add_node_if s2 (\<lambda>c. c = SET_TRUE)) (res, m))
      (\<lambda>(r, m'). Inr (SET_TRUE, r, m'))) (algebra_post H m (elems s1 \<inter> elems s2)) (oom m)"
    by (rule gives_rbind) (use o in \<open>auto simp: Int_def intro!: algebra_postI\<close>)
  then show ?thesis using o by (simp add: set_intersection_def)
qed

lemma difference_loop:
  assumes "operands H res s1 s2"
  shows "gives (each_node s1 (add_node_if s2 (\<lambda>c. c \<noteq> SET_TRUE)) (res, m))
    (\<lambda>(r, m'). added H res m (elems s1 - elems s2) r m') (oom m)"
proof -
  note o = operandsD [OF assms]
  have "gives (each_node s1 (add_node_if s2 (\<lambda>c. c \<noteq> SET_TRUE)) (res, m))
      (\<lambda>(r, m'). added H res m {k \<in> elems s1. k \<notin> elems s2} r m') (oom m)"
    using o by (intro first_loop [OF assms]) (simp add: add_node_if_wf [of H s2] wf_hash [of H s1])
  then show ?thesis by (simp add: set_diff_eq)
qed

lemma set_difference_gives:
  assumes "operands H res s1 s2"
  shows "gives (set_difference res s1 s2 m) (algebra_post H m (elems s1 - elems s2)) (oom m)"
proof -
  note o = operandsD [OF assms]
  have "gives (rbind (each_node s1 (add_node_if s2 (\<lambda>c. c \<noteq> SET_TRUE)) (res, m))
      (\<lambda>(r, m'). Inr (SET_TRUE, r, m'))) (algebra_post H m (elems s1 - elems s2)) (oom m)"
    by (rule gives_rbind [OF difference_loop [OF assms]]) (use o in \<open>auto intro!: algebra_postI\<close>)
  then show ?thesis using o by (simp add: set_difference_def)
qed

lemma set_symmetric_difference_gives:
  assumes "operands H res s1 s2"
  shows "gives (set_symmetric_difference res s1 s2 m)
    (algebra_post H m ((elems s1 - elems s2) \<union> (elems s2 - elems s1))) (oom m)"
proof -
  note o = operandsD [OF assms]
  have "gives (rbind (each_node s1 (add_node_if s2 (\<lambda>c. c \<noteq> SET_TRUE)) (res, m)) (\<lambda>st.
        rbind (each_node s2 (add_node_if s1 (\<lambda>c. c \<noteq> SET_TRUE)) st)
          (\<lambda>(r, m'). Inr (SET_TRUE, r, m'))))
      (algebra_post H m ((elems s1 - elems s2) \<union> (elems s2 - elems s1))) (oom m)"
  proof (rule gives_rbind [OF difference_loop [OF assms]], clarify)
    fix r m' assume a: "added H res m (elems s1 - elems s2) r m'"
    have "gives (each_node s2 (add_node_if s1 (\<lambda>c. c \<noteq> SET_TRUE)) (r, m'))
        (\<lambda>(r', m''). added H res m ((elems s1 - elems s2) \<union> {k \<in> elems s2. k \<notin> elems s1}) r' m'') (oom m)"
      using o by (intro second_loop [OF assms a]) (auto simp: add_node_if_wf [of H s1] wf_hash [of H s2])
    then show "gives (rbind (each_node s2 (add_node_if s1 (\<lambda>c. c \<noteq> SET_TRUE)) (r, m'))
        (\<lambda>(r, m'). Inr (SET_TRUE, r, m')))
      (algebra_post H m ((elems s1 - elems s2) \<union> (elems s2 - elems s1))) (oom m)"
      by (rule gives_rbind) (use o in \<open>auto simp: set_diff_eq intro!: algebra_postI\<close>)
  qed
  then show ?thesis using o by (simp add: set_symmetric_difference_def)
qed

section \<open>The array of keys\<close>

definition keys_of :: "simple_set_node option list \<Rightarrow> cstr list" where
  "keys_of T = map (\<lambda>x. node_key (the x)) (filter (\<lambda>x. x \<noteq> None) T)"

lemma keys_of_set: "set (keys_of T) = node_key ` contents T"
  by (force simp: keys_of_def contents_def)

lemma keys_of_length: "length (keys_of T) = card (occ T)"
  by (simp add: keys_of_def occ_def length_filter_conv_card)

lemma keys_of_Suc: "i < length T \<Longrightarrow>
    keys_of (take (Suc i) T) = keys_of (take i T) @ (case T ! i of None \<Rightarrow> [] | Some x \<Rightarrow> [node_key x])"
  by (simp add: keys_of_def take_Suc_conv_app_nth split: option.split)

lemma keys_of_take_less:
  assumes "i < length T" "T ! i = Some x"
  shows "length (keys_of (take i T)) < length (keys_of T)"
proof -
  have "take (Suc i) T @ drop (Suc i) T = T" by (rule append_take_drop_id)
  then have "keys_of T = keys_of (take (Suc i) T) @ keys_of (drop (Suc i) T)"
    by (metis keys_of_def filter_append map_append)
  then show ?thesis using keys_of_Suc [OF assms(1)] assms(2) by simp
qed

definition array_post :: "simple_set \<Rightarrow> mem \<Rightarrow> cstr option block \<times> u64 \<times> mem \<Rightarrow> bool" where
  "array_post s m = (\<lambda>(results, size, m'). size = used_nodes s
     \<and> (if results = Null then \<not> mem_ok m \<and> elems s = {}
        else results = vals (map Some (keys_of (slots s)) @ [None])
          \<and> mem_step m (1 + int (unat (used_nodes s))) m'))"

text \<open>The array before the pass at slot \<open>i\<close>: the keys of the slots below, the rest null pointers.\<close>

definition array_state ::
  "simple_set_node option list \<Rightarrow> nat \<Rightarrow> mem \<Rightarrow> nat \<Rightarrow> cstr option block \<times> nat \<times> mem \<Rightarrow> bool" where
  "array_state T u m i st \<longleftrightarrow> (let ks = keys_of (take i T) in \<exists>m'.
     st = (vals (map Some ks @ replicate (Suc u - length ks) None), length ks, m')
     \<and> mem_step m (1 + int (length ks)) m')"

lemma array_pass:
  assumes "backs T s" "length (keys_of T) = u" "i < length T" "array_state T u m i st"
  shows "gives (on_node s array_node i st) (\<lambda>c. \<exists>st'. c = Next st' \<and> array_state T u m (Suc i) st') (oom m)"
proof -
  let ?k = "\<lambda>i. keys_of (take i T)"
  obtain m' where m': "mem_step m (1 + int (length (?k i))) m'"
    and st: "st = (vals (map Some (?k i) @ replicate (Suc u - length (?k i)) None), length (?k i), m')"
    using assms(4) by (auto simp: array_state_def Let_def)
  have rd: "rd (nodes s) i = Inr (T ! i)" using assms(3) backsD(1) [OF assms(1)] by simp
  show ?thesis
  proof (cases "T ! i")
    case None
    then show ?thesis using rd m' keys_of_Suc [OF assms(3)] st by (simp add: on_node_def array_state_def)
  next
    case (Some x)
    have k: "?k (Suc i) = ?k i @ [node_key x]" using keys_of_Suc [OF assms(3)] Some by simp
    have lt: "length (?k i) < Suc u" using keys_of_take_less [OF assms(3) Some] assms(2) by simp
    obtain d where d: "Suc u - length (?k i) = Suc d" using lt by (metis Suc_diff_Suc)
    have wr: "wr (vals (map Some (?k i) @ replicate (Suc d) None)) (length (?k i)) (Some (node_key x))
        = Inr (vals (map Some (?k (Suc i)) @ replicate d None))"
      unfolding k by (subst wr_vals) (simp_all add: list_update_append)
    have d': "Suc u - length (?k (Suc i)) = d" using d k by simp
    obtain ok m2 where out: "alloc m' = (ok, m2)" by fastforce
    show ?thesis
    proof (cases ok)
      case True
      then have "mem_step m (1 + int (length (?k (Suc i)))) m2"
        using mem_step_trans [OF m' mem_step_alloc] out k by simp
      then have "array_state T u m (Suc i) (vals (map Some (?k (Suc i)) @ replicate d None), length (?k (Suc i)), m2)"
        unfolding array_state_def Let_def d' by blast
      moreover have "on_node s array_node i st =
          Inr (Next (vals (map Some (?k (Suc i)) @ replicate d None), length (?k (Suc i)), m2))"
        unfolding on_node_def rd rbind_Inr Some option.case st d array_node_def split_conv out prod.case
        using True wr k by simp
      ultimately show ?thesis by simp
    next
      case False
      then have "on_node s array_node i st = Inl NullDeref"
        using rd Some out unfolding on_node_def array_node_def st by simp
      then show ?thesis using False out alloc_mem_ok [of m' ok m2] m' by (auto simp: oom_def mem_step_def)
    qed
  qed
qed

lemma array_loop_gives:
  assumes "backs T s" "length (keys_of T) = u" "mem_step m 1 m1"
  shows "gives (each_node s array_node (vals (replicate (Suc u) None), 0, m1))
    (\<lambda>(results, j, m'). results = vals (map Some (keys_of T) @ [None]) \<and> mem_step m (1 + int u) m') (oom m)"
  unfolding each_node_def
proof (rule gives_run_loop [where P = "array_state T u m"])
  show "array_state T u m 0 (vals (replicate (Suc u) None), 0, m1)"
    using assms(3) by (simp add: array_state_def keys_of_def)
next
  fix i st assume "i < 0 + unat (number_nodes s)" "array_state T u m i st"
  then have "gives (on_node s array_node i st) (\<lambda>c. \<exists>st'. c = Next st' \<and> array_state T u m (Suc i) st') (oom m)"
    using array_pass [OF assms(1,2)] backsD(2) [OF assms(1)] by simp
  then show "gives (on_node s array_node i st) (\<lambda>c. case c of Next st' \<Rightarrow> array_state T u m (Suc i) st'
      | Break (results, j, m') \<Rightarrow> results = vals (map Some (keys_of T) @ [None]) \<and> mem_step m (1 + int u) m') (oom m)"
    by (rule gives_mono) auto
next
  fix st assume "array_state T u m (0 + unat (number_nodes s)) st"
  then show "case st of (results, j, m') \<Rightarrow>
      results = vals (map Some (keys_of T) @ [None]) \<and> mem_step m (1 + int u) m'"
    using backsD(2) [OF assms(1), symmetric] assms(2) by (auto simp: array_state_def)
qed

lemma array_loop_null:
  assumes "backs T s" "\<not> mem_ok m"
  shows "gives (each_node s array_node (Null, 0, m1)) (\<lambda>(results, j, m'). results = Null \<and> contents T = {}) (oom m)"
proof (rule each_node_gives [OF assms(1), where P = "\<lambda>D (results, j, m'). results = Null \<and> D = {}"])
  fix D :: "simple_set_node set" and x and t :: "cstr option block \<times> nat \<times> mem"
  assume "case t of (results, j, m') \<Rightarrow> results = Null \<and> D = {}"
  then obtain j m' where t: "t = (Null, j, m')" by (cases t) auto
  have "array_node x t = Inl NullDeref"
    by (cases "alloc m'") (auto simp: array_node_def t wr_def split: bool.split)
  then show "gives (array_node x t) (\<lambda>c. case c of
      Next t' \<Rightarrow> (case t' of (results, j, m') \<Rightarrow> results = Null \<and> insert x D = {})
    | Break t' \<Rightarrow> (case t' of (results, j, m') \<Rightarrow> results = Null \<and> contents T = {})) (oom m)"
    using assms(2) by (simp add: oom_def)
qed auto

lemma set_to_array_gives:
  assumes "wf_set H s"
  shows "gives (set_to_array s m) (array_post s m) (oom m)"
proof (cases "alloc m")
  case (Pair ok m1)
  note w = wf_setD [OF assms]
  have n: "unat (used_nodes s + 1) = Suc (unat (used_nodes s))"
    using unat_u64_inc [of "used_nodes s" "number_nodes s"] w(5,9) by simp
  show ?thesis
  proof (cases ok)
    case True
    then have m1: "mem_step m 1 m1" using Pair mem_step_alloc by simp
    show ?thesis
      unfolding set_to_array_def Pair prod.case n if_P [OF True]
      by (rule gives_rbind [OF array_loop_gives [OF w(1) _ m1]])
        (use w(7) in \<open>auto simp: keys_of_length array_post_def\<close>)
  next
    case False
    then have "\<not> mem_ok m" using Pair alloc_mem_ok [of m ok m1] by blast
    then show ?thesis
      unfolding set_to_array_def Pair prod.case if_not_P [OF False]
      by (auto intro!: gives_rbind [OF array_loop_null [OF w(1)]] simp: array_post_def elems_def)
  qed
qed

end
