(* ===== verification/StringSet.thy ===== *)
theory StringSet
  imports CBase
begin

text \<open>
  What a program relies on that keeps strings in a set.  The locale \<open>string_set\<close> is the
  contract of an insertion and a lookup, all the proxies need; \<open>string_set_ops\<close> extends it with
  removal and clearing.  The consequences are for a loop that inserts a list of keys and for any
  sequence of calls.  \<open>room n s\<close> says that \<open>s\<close> is usable and that \<open>n\<close> more insertions are within
  the size the implementation can represent.
\<close>

section \<open>Client programs\<close>

text \<open>A loop that inserts keys and ignores the return codes, as the block list loaders do.\<close>

fun add_each :: "('s \<Rightarrow> cstr \<Rightarrow> mem \<Rightarrow> (int \<times> 's \<times> mem) res) \<Rightarrow> cstr list \<Rightarrow> 's \<Rightarrow> mem \<Rightarrow> ('s \<times> mem) res"
where
  "add_each add [] s m = Inr (s, m)"
| "add_each add (k # ks) s m = rbind (add s k m) (\<lambda>(rc, s', m'). add_each add ks s' m')"

datatype set_op = Add cstr | Contains cstr | Remove cstr | Clear

fun run_ops :: "(set_op \<Rightarrow> 's \<Rightarrow> mem \<Rightarrow> (int \<times> 's \<times> mem) res) \<Rightarrow> set_op list \<Rightarrow> 's \<Rightarrow> mem \<Rightarrow>
    (int list \<times> 's \<times> mem) res" where
  "run_ops step [] s m = Inr ([], s, m)"
| "run_ops step (op # ops) s m = rbind (step op s m) (\<lambda>(rc, s', m').
     rbind (run_ops step ops s' m') (\<lambda>(rcs, s'', m''). Inr (rc # rcs, s'', m'')))"

text \<open>Each call of a sequence satisfies \<open>ok\<close> in the state it is made in.\<close>

fun in_scope :: "(set_op \<Rightarrow> 's \<Rightarrow> bool) \<Rightarrow> (set_op \<Rightarrow> 's \<Rightarrow> mem \<Rightarrow> (int \<times> 's \<times> mem) res) \<Rightarrow>
    set_op list \<Rightarrow> 's \<Rightarrow> mem \<Rightarrow> bool" where
  "in_scope ok step [] s m = True"
| "in_scope ok step (op # ops) s m = (ok op s \<and>
     (case step op s m of Inl e \<Rightarrow> True | Inr (rc, s', m') \<Rightarrow> in_scope ok step ops s' m'))"

text \<open>The same sequence on a mathematical set: the codes returned and the final set.\<close>

fun spec_op :: "set_op \<Rightarrow> cstr set \<Rightarrow> int \<times> cstr set" where
  "spec_op (Add k) A = (if k \<in> A then 1 else 0, insert k A)"
| "spec_op (Contains k) A = (if k \<in> A then 0 else - 1, A)"
| "spec_op (Remove k) A = (if k \<in> A then 0 else - 1, A - {k})"
| "spec_op Clear A = (0, {})"

fun spec_ops :: "set_op list \<Rightarrow> cstr set \<Rightarrow> int list \<times> cstr set" where
  "spec_ops [] A = ([], A)"
| "spec_ops (op # ops) A = (case spec_op op A of (rc, A') \<Rightarrow>
     (case spec_ops ops A' of (rcs, B) \<Rightarrow> (rc # rcs, B)))"

section \<open>The contract\<close>

definition add_ok :: "cstr set \<Rightarrow> cstr \<Rightarrow> mem \<Rightarrow> int \<Rightarrow> cstr set \<Rightarrow> mem \<Rightarrow> bool" where
  "add_ok A k m rc B m' \<longleftrightarrow> mem_step m (2 * (int (card B) - int (card A))) m'
     \<and> (if rc < 0 then \<not> mem_ok m \<and> B = A else rc = (if k \<in> A then 1 else 0) \<and> B = insert k A)"

locale string_set =
  fixes room :: "nat \<Rightarrow> 's \<Rightarrow> bool" and keys :: "'s \<Rightarrow> cstr set"
    and add :: "'s \<Rightarrow> cstr \<Rightarrow> mem \<Rightarrow> (int \<times> 's \<times> mem) res"
    and member :: "'s \<Rightarrow> cstr \<Rightarrow> int res"
  assumes room_weaken: "room (Suc n) s \<Longrightarrow> room n s"
    and member_law: "room n s \<Longrightarrow> member s k = Inr (if k \<in> keys s then 0 else - 1)"
    and add_law: "room (Suc n) s \<Longrightarrow> gives (add s k m)
      (\<lambda>(rc, s', m'). room n s' \<and> add_ok (keys s) k m rc (keys s') m') (oom m)"
begin

lemma add_total:
  assumes "room (Suc n) s" "mem_ok m"
  obtains s' m' where "add s k m = Inr (if k \<in> keys s then 1 else 0, s', m')" "room n s'"
    "keys s' = insert k (keys s)" "mem_step m (2 * (int (card (keys s')) - int (card (keys s)))) m'"
proof (cases "add s k m")
  case (Inl e)
  then show thesis using add_law [OF assms(1), of k m] assms(2) by (simp add: oom_def)
next
  case (Inr p)
  obtain rc s' m' where p: "p = (rc, s', m')" by (cases p)
  have a: "room n s'" "add_ok (keys s) k m rc (keys s') m'"
    using add_law [OF assms(1), of k m] Inr p by simp_all
  then have r: "rc = (if k \<in> keys s then 1 else 0)" and e: "keys s' = insert k (keys s)"
    and st: "mem_step m (2 * (int (card (keys s')) - int (card (keys s)))) m'"
    using assms(2) unfolding add_ok_def by presburger+
  show thesis by (rule that [OF Inr [unfolded p r] a(1) e st])
qed

text \<open>Inserting a list: every key is stored unless an allocation fails.\<close>

lemma add_each_gives:
  assumes "room (length ks) s"
  shows "gives (add_each add ks s m) (\<lambda>(s', m'). room 0 s' \<and> keys s \<subseteq> keys s'
      \<and> keys s' \<subseteq> keys s \<union> set ks \<and> (mem_ok m \<longrightarrow> keys s' = keys s \<union> set ks)
      \<and> mem_step m (2 * (int (card (keys s')) - int (card (keys s)))) m') (oom m)"
  using assms
proof (induction ks arbitrary: s m)
  case (Cons k ks)
  then have "room (Suc (length ks)) s" by simp
  from add_law [OF this, of k m] show ?case
    unfolding add_each.simps
  proof (rule gives_rbind, clarify)
    fix rc s1 m1
    assume r: "room (length ks) s1" and a: "add_ok (keys s) k m rc (keys s1) m1"
    have sub: "keys s \<subseteq> keys s1" "keys s1 \<subseteq> insert k (keys s)"
      and full: "mem_ok m \<Longrightarrow> keys s1 = insert k (keys s)"
      and st: "mem_step m (2 * (int (card (keys s1)) - int (card (keys s)))) m1"
      using a by (auto simp: add_ok_def split: if_splits)
    show "gives (add_each add ks s1 m1) (\<lambda>(s', m'). room 0 s' \<and> keys s \<subseteq> keys s'
      \<and> keys s' \<subseteq> keys s \<union> set (k # ks) \<and> (mem_ok m \<longrightarrow> keys s' = keys s \<union> set (k # ks))
      \<and> mem_step m (2 * (int (card (keys s')) - int (card (keys s)))) m') (oom m)"
    proof (rule gives_mono [OF Cons.IH [OF r, of m1]])
      fix p assume "case p of (s', m') \<Rightarrow> room 0 s' \<and> keys s1 \<subseteq> keys s'
        \<and> keys s' \<subseteq> keys s1 \<union> set ks \<and> (mem_ok m1 \<longrightarrow> keys s' = keys s1 \<union> set ks)
        \<and> mem_step m1 (2 * (int (card (keys s')) - int (card (keys s1)))) m'"
      then obtain s' m' where p: "p = (s', m')" "room 0 s'" "keys s1 \<subseteq> keys s'"
        "keys s' \<subseteq> keys s1 \<union> set ks" "mem_ok m1 \<longrightarrow> keys s' = keys s1 \<union> set ks"
        "mem_step m1 (2 * (int (card (keys s')) - int (card (keys s1)))) m'" by auto
      have "mem_step m (2 * (int (card (keys s')) - int (card (keys s)))) m'"
        using mem_step_trans [OF st p(6)] by (simp add: algebra_simps)
      moreover have "mem_ok m \<longrightarrow> keys s' = keys s \<union> set (k # ks)"
        using p(5) full st by (auto simp: mem_step_def)
      ultimately show "case p of (s', m') \<Rightarrow> room 0 s' \<and> keys s \<subseteq> keys s'
        \<and> keys s' \<subseteq> keys s \<union> set (k # ks) \<and> (mem_ok m \<longrightarrow> keys s' = keys s \<union> set (k # ks))
        \<and> mem_step m (2 * (int (card (keys s')) - int (card (keys s)))) m'"
        using p sub by auto
    qed (use oom_step [OF st] in blast)
  qed
qed simp

end

text \<open>
  \<open>served\<close>: a call that returns what the mathematical set says, two blocks per key; a removal or
  another call \<open>ok\<close> does not allow may do anything.
\<close>

definition served :: "cstr set \<Rightarrow> mem \<Rightarrow> int \<times> cstr set \<Rightarrow> int \<Rightarrow> cstr set \<Rightarrow> mem \<Rightarrow> bool" where
  "served A m spec rc B m' \<longleftrightarrow> spec = (rc, B) \<and> mem_ok m' \<and> live m' = live m + 2 * (int (card B) - int (card A))"

locale string_set_ops = string_set +
  fixes step :: "set_op \<Rightarrow> 's \<Rightarrow> mem \<Rightarrow> (int \<times> 's \<times> mem) res" and ok :: "set_op \<Rightarrow> 's \<Rightarrow> bool"
  assumes step_add: "step (Add k) s m = add s k m"
    and step_contains: "step (Contains k) s m = rbind (member s k) (\<lambda>rc. Inr (rc, s, m))"
    and remove_law: "room n s \<Longrightarrow> ok (Remove k) s \<Longrightarrow> mem_ok m \<Longrightarrow> \<exists>rc s' m'. step (Remove k) s m
      = Inr (rc, s', m') \<and> room n s' \<and> served (keys s) m (spec_op (Remove k) (keys s)) rc (keys s') m'"
    and clear_law: "room n s \<Longrightarrow> mem_ok m \<Longrightarrow> \<exists>rc s' m'. step Clear s m
      = Inr (rc, s', m') \<and> room n s' \<and> served (keys s) m (spec_op Clear (keys s)) rc (keys s') m'"
begin

lemma step_served:
  assumes "room (Suc n) s" "ok op s" "mem_ok m"
  shows "\<exists>rc s' m'. step op s m = Inr (rc, s', m') \<and> room n s'
    \<and> served (keys s) m (spec_op op (keys s)) rc (keys s') m'"
proof (cases op)
  case (Add k)
  obtain s' m' where "add s k m = Inr (if k \<in> keys s then 1 else 0, s', m')" "room n s'"
    "keys s' = insert k (keys s)" "mem_step m (2 * (int (card (keys s')) - int (card (keys s)))) m'"
    using add_total [OF assms(1,3)] by blast
  then show ?thesis using assms(3) by (simp add: Add step_add served_def mem_step_def)
next
  case (Contains k)
  then show ?thesis using member_law [OF assms(1), of k] room_weaken [OF assms(1)] assms(3)
    by (simp add: step_contains served_def)
next
  case (Remove k)
  then show ?thesis using remove_law [OF room_weaken [OF assms(1)]] assms(2,3) by blast
next
  case Clear
  then show ?thesis using clear_law [OF room_weaken [OF assms(1)]] assms(3) by blast
qed

text \<open>Simulation: without allocation failures a run agrees with the run on a set.\<close>

lemma run_ops_refines:
  assumes "room (length ops) s" "mem_ok m" "in_scope ok step ops s m"
  shows "\<exists>rcs s' m'. run_ops step ops s m = Inr (rcs, s', m') \<and> spec_ops ops (keys s) = (rcs, keys s')
    \<and> mem_ok m' \<and> live m' = live m + 2 * (int (card (keys s')) - int (card (keys s)))"
  using assms
proof (induction ops arbitrary: s m)
  case (Cons op ops)
  obtain rc s1 m1 where 1: "step op s m = Inr (rc, s1, m1)" "room (length ops) s1"
    "served (keys s) m (spec_op op (keys s)) rc (keys s1) m1"
    using step_served [of "length ops" s op m] Cons.prems by auto
  have "in_scope ok step ops s1 m1" using Cons.prems(3) 1(1) by simp
  then obtain rcs s2 m2 where "run_ops step ops s1 m1 = Inr (rcs, s2, m2)"
    "spec_ops ops (keys s1) = (rcs, keys s2)" "mem_ok m2"
    "live m2 = live m1 + 2 * (int (card (keys s2)) - int (card (keys s1)))"
    using Cons.IH [OF 1(2)] 1(3) unfolding served_def by blast
  then show ?case using 1 by (simp add: served_def)
qed simp

end

end
