(* ===== verification/SetSpec.thy ===== *)
theory SetSpec
  imports SetAlgebra StringSet
begin

text \<open>
  The properties of \<open>set.c\<close>.  A set that satisfies \<open>wf_set\<close> implements the contract
  \<open>string_set\<close>; the theorems below state what each public function does on such a set, and
  which keys a removal loses.  The theory \<open>SetLimits\<close> has the growth of a set and the
  error codes.
\<close>

section \<open>The contract of a string set\<close>

definition set_room :: "set_hash_function \<Rightarrow> nat \<Rightarrow> simple_set \<Rightarrow> bool" where
  "set_room H n s \<longleftrightarrow> wf_set H s
     \<and> max (unat (number_nodes s)) (9 * (card (elems s) + n)) < 2 ^ 60"

lemma set_add_hash_eq: "wf_set H s \<Longrightarrow> set_add s key m = set_add_hash s key (H key) m"
  by (simp add: set_add_def call_hash_def wf_setD(2))

lemma set_add_gives:
  assumes "wf_set H s" "unat (number_nodes s) < 2 ^ 60"
  shows "gives (set_add s key m) (add_post H s key m) (oom m)"
  using set_add_hash_gives [OF assms, of key m] set_add_hash_eq [OF assms(1)] by simp

lemma add_post_codes:
  assumes "add_post H s key m (rc, s', m')" "wf_set H s"
  shows "add_ok (elems s) key m rc (elems s') m'"
proof (cases "key \<in> elems s")
  case True
  then show ?thesis using assms(1) by (auto simp: add_post_def add_ok_def insert_absorb)
next
  case new: False
  then have "card (insert key (elems s)) = Suc (card (elems s))" using card_elems(2) [OF assms(2)] by simp
  with new assms show ?thesis by (auto simp: add_post_def add_ok_def mem_step_def split: if_splits)
qed

lemma set_room_add:
  assumes "set_room H (Suc n) s"
  shows "gives (set_add s k m)
    (\<lambda>(rc, s', m'). set_room H n s' \<and> add_ok (elems s) k m rc (elems s') m') (oom m)"
proof -
  have w: "wf_set H s" "unat (number_nodes s) < 2 ^ 60" using assms by (simp_all add: set_room_def)
  note c = card_elems [OF w(1)]
  have "gives (set_add s k m) (\<lambda>(rc, s', m'). added H s m {k} s' m') (oom m)"
    using added_one [OF w, of k m] set_add_hash_eq [OF w(1)] by simp
  from gives_conj [OF this set_add_gives [OF w, of k m]] show ?thesis
  proof (rule gives_mono)
    fix p :: "int \<times> simple_set \<times> mem"
    assume p: "(case p of (rc, s', m') \<Rightarrow> added H s m {k} s' m') \<and> add_post H s k m p"
    obtain rc s' m' where e: "p = (rc, s', m')" by (cases p)
    have a: "added H s m {k} s' m'" using p e by simp
    have "card (elems s') \<le> Suc (card (elems s))"
      using a card_mono [of "insert k (elems s)" "elems s'"] c(2)
      by (auto simp: added_def card_insert_if split: if_splits intro: le_SucI order_trans)
    then have "set_room H n s'" using a assms by (auto simp: set_room_def added_def)
    then show "case p of (rc, s', m') \<Rightarrow> set_room H n s' \<and> add_ok (elems s) k m rc (elems s') m'"
      using add_post_codes [of H s k m rc s' m'] p w(1) e by simp
  qed
qed

interpretation simple: string_set "set_room H" elems set_add set_contains
proof
  show "set_room H (Suc n) s \<Longrightarrow> set_room H n s" for n s by (auto simp: set_room_def)
  show "set_room H n s \<Longrightarrow> set_contains s k = Inr (if k \<in> elems s then 0 else - 1)" for n s k
    using set_contains_wf [of H s k] by (simp add: set_room_def)
  show "set_room H (Suc n) s \<Longrightarrow> gives (set_add s k m) (\<lambda>(rc, s', m').
      set_room H n s' \<and> add_ok (elems s) k m rc (elems s') m') (oom m)" for n s k m
    by (rule set_room_add)
qed

text \<open>
  \<open>set_clear\<close> empties a well-formed set, keeps its table size and gives back exactly
  the blocks of its entries.
\<close>

lemma set_clear_wf:
  assumes "wf_set H s"
  shows "\<exists>s' m'. set_clear s m = Inr (SET_TRUE, s', m') \<and> wf_set H s' \<and> elems s' = {}
     \<and> number_nodes s' = number_nodes s \<and> live m' = live m - 2 * int (card (elems s))
     \<and> (mem_ok m \<longrightarrow> mem_ok m')"
proof -
  note w = wf_setD [OF assms]
  let ?s = "s\<lparr>nodes := vals (replicate (length (slots s)) None), used_nodes := 0\<rparr>"
  obtain m' where c: "set_clear s m = Inr (SET_TRUE, ?s, m')"
    "mem_step m (- 2 * int (card (occ (slots s)))) m'"
    using set_clear_gives [OF w(1), of m] by (auto simp: gives_total)
  have "wf_set H ?s" "elems ?s = {}"
    using wf_set_empty [of ?s "length (slots s)" H] w(2,4,9) by simp_all
  with c show ?thesis using w(7) card_elems(1) [OF assms] by (auto simp: mem_step_def)
qed

text \<open>The calls of a sequence, and the removals the code gets right.\<close>

definition set_do :: "set_op \<Rightarrow> simple_set \<Rightarrow> mem \<Rightarrow> (int \<times> simple_set \<times> mem) res" where
  "set_do op s m = (case op of
       Add k \<Rightarrow> set_add s k m
     | Contains k \<Rightarrow> rbind (set_contains s k) (\<lambda>rc. Inr (rc, s, m))
     | Remove k \<Rightarrow> set_remove s k m
     | Clear \<Rightarrow> set_clear s m)"

definition removable :: "set_op \<Rightarrow> simple_set \<Rightarrow> bool" where
  "removable op s = (case op of Remove k \<Rightarrow> tail_free s k | _ \<Rightarrow> True)"

lemma set_remove_total:
  assumes "wf_set H s" "tail_free s k" "mem_ok m"
  shows "\<exists>rc s' m'. set_remove s k m = Inr (rc, s', m') \<and> wf_set H s' \<and> number_nodes s' = number_nodes s
    \<and> served (elems s) m (spec_op (Remove k) (elems s)) rc (elems s') m'"
proof -
  obtain rc s' m' where r: "set_remove s k m = Inr (rc, s', m')" and p: "remove_post H s k m (rc, s', m')"
    using set_remove_gives [OF assms(1,2), of m] assms(3) by (cases "set_remove s k m") (auto simp: oom_def)
  have "0 < card (elems s)" if "k \<in> elems s" using that card_elems(2) [OF assms(1)] by (auto simp: card_gt_0_iff)
  then have "served (elems s) m (spec_op (Remove k) (elems s)) rc (elems s') m'"
    using p assms(3) card_elems(2) [OF assms(1)]
    by (auto simp: remove_post_def served_def mem_step_def card_Diff_singleton of_nat_diff Suc_leI split: if_splits)
  then show ?thesis using r p assms(1) by (auto simp: remove_post_def split: if_splits)
qed

interpretation all_ops: string_set_ops "set_room H" elems set_add set_contains set_do removable
proof
  show "set_do (Add k) s m = set_add s k m" for k s m by (simp add: set_do_def)
  show "set_do (Contains k) s m = rbind (set_contains s k) (\<lambda>rc. Inr (rc, s, m))" for k s m
    by (simp add: set_do_def)
  show "\<exists>rc s' m'. set_do (Remove k) s m = Inr (rc, s', m') \<and> set_room H n s'
      \<and> served (elems s) m (spec_op (Remove k) (elems s)) rc (elems s') m'"
    if "set_room H n s" "removable (Remove k) s" "mem_ok m" for n s k m
  proof -
    have w: "wf_set H s" "tail_free s k" and ok: "mem_ok m" using that by (simp_all add: set_room_def removable_def)
    note room = that(1)
    obtain rc s' m' where r: "set_remove s k m = Inr (rc, s', m')" "wf_set H s'" "number_nodes s' = number_nodes s"
      "served (elems s) m (spec_op (Remove k) (elems s)) rc (elems s') m'"
      using set_remove_total [OF w ok] by blast
    have "card (elems s') \<le> card (elems s)"
      using r(4) card_elems(2) [OF w(1)] by (auto simp: served_def intro: card_mono)
    then have "set_room H n s'" using room r(2,3) by (auto simp: set_room_def)
    then show ?thesis using r(1,4) by (simp add: set_do_def)
  qed
  show "\<exists>rc s' m'. set_do Clear s m = Inr (rc, s', m') \<and> set_room H n s'
      \<and> served (elems s) m (spec_op Clear (elems s)) rc (elems s') m'"
    if "set_room H n s" "mem_ok m" for n s m
    using set_clear_wf [of H s m] that by (auto simp: set_do_def set_room_def served_def)
qed

section \<open>Sample sets\<close>

text \<open>
  Tables of four slots with the default hash, which sends \<open>a.com\<close> and \<open>e.com\<close> to slot 3;
  in \<open>sample2\<close> the second key has wrapped to slot 0.
\<close>

definition sample_node :: "string \<Rightarrow> simple_set_node" where
  "sample_node k = \<lparr>node_key = cs k, node_hash = default_hash (cs k)\<rparr>"

definition sample0 :: simple_set where
  "sample0 = \<lparr>nodes = vals [None, None, None, None], number_nodes = 4, used_nodes = 0,
     hash_function = Some default_hash\<rparr>"

definition sample1 :: simple_set where
  "sample1 = \<lparr>nodes = vals [None, None, None, Some (sample_node ''a.com'')], number_nodes = 4,
     used_nodes = 1, hash_function = Some default_hash\<rparr>"

definition sample2 :: simple_set where
  "sample2 = \<lparr>nodes = vals [Some (sample_node ''e.com''), None, None, Some (sample_node ''a.com'')],
     number_nodes = 4, used_nodes = 2, hash_function = Some default_hash\<rparr>"


lemma wf_set_check:
  assumes "hash_function s = Some H" "let T = slots s; n = length T; u = unat (used_nodes s) in
     backs T s \<and> hashed H T \<and> 2 \<le> n \<and> u < n \<and> uniq node_key T \<and> card (occ T) = u
     \<and> (\<forall>p \<in> set [0..<n]. good (home n) T p)"
  shows "wf_set H s"
  using assms by (simp add: wf_set_def Let_def)

lemma sample_wf: "wf_set default_hash sample0" "wf_set default_hash sample1"
  "wf_set default_hash sample2"
  by (rule wf_set_check, simp add: sample0_def sample1_def sample2_def, code_simp)+

lemma sample_elems: "elems sample0 = {}" "elems sample1 = {cs ''a.com''}"
  "elems sample2 = {cs ''a.com'', cs ''e.com''}"
  by (auto simp: elems_def contents_code slots_def sample0_def sample1_def sample2_def sample_node_def)

lemma sample_size: "unat (number_nodes sample0) = 4" "unat (number_nodes sample1) = 4"
  "unat (number_nodes sample2) = 4" "used_nodes sample0 = 0"
  by (simp_all add: sample0_def sample1_def sample2_def)

lemma mem0_ok [simp]: "mem_ok mem0" "live mem0 = 0"
  by (simp_all add: mem0_def mem_ok_def)

section \<open>Lookup and insertion\<close>

text \<open>
  C8.  On a well-formed set \<open>set_contains\<close> always returns, never with
  \<open>SET_CIRCULAR_ERROR\<close>, and its code says whether the key is stored.
\<close>

theorem set_contains_correct:
  assumes "wf_set H s"
  shows "set_contains s key = Inr (if key \<in> elems s then SET_TRUE else SET_FALSE)"
  by (rule set_contains_wf [OF assms])

theorem set_contains_correct_witness:
  "set_contains sample2 (cs ''e.com'') = Inr SET_TRUE \<and> set_contains sample2 (cs ''b.com'') = Inr SET_FALSE"
  using set_contains_correct [OF sample_wf(3), of "cs ''e.com''"]
    set_contains_correct [OF sample_wf(3), of "cs ''b.com''"]
  by (simp add: sample_elems cs_def)

text \<open>
  C7.  When no allocation fails, \<open>set_add\<close> returns \<open>SET_TRUE\<close> or, for a stored key,
  \<open>SET_ALREADY_PRESENT\<close>; the set stays well-formed and holds the old keys and the new one.
\<close>

theorem set_add_correct:
  assumes "wf_set H s" "unat (number_nodes s) < 2 ^ 60" "mem_ok m"
  shows "\<exists>s' m'. set_add s key m = Inr (if key \<in> elems s then SET_ALREADY_PRESENT else SET_TRUE, s', m')
     \<and> wf_set H s' \<and> elems s' = insert key (elems s) \<and> set_length s' = of_nat (card (elems s'))"
proof -
  obtain rc s' m' where r: "set_add s key m = Inr (rc, s', m')" and p: "add_post H s key m (rc, s', m')"
    using set_add_gives [OF assms(1,2), of key m] assms(3)
    by (cases "set_add s key m") (auto simp: oom_def)
  have e: "rc = (if key \<in> elems s then SET_ALREADY_PRESENT else SET_TRUE)" "wf_set H s'"
    "elems s' = insert key (elems s)"
    using p assms(1,3) by (auto simp: add_post_def insert_absorb split: if_splits)
  have "set_length s' = of_nat (card (elems s'))"
    using card_elems(1) [OF e(2)] by (simp add: set_length_def)
  with r e show ?thesis by auto
qed

theorem set_add_correct_witness:
  "\<exists>s' m'. set_add sample1 (cs ''e.com'') mem0 = Inr (SET_TRUE, s', m')
     \<and> wf_set default_hash s' \<and> elems s' = {cs ''e.com'', cs ''a.com''} \<and> set_length s' = 2"
  using set_add_correct [OF sample_wf(2), of mem0 "cs ''e.com''"]
  by (auto simp: sample_elems sample_size cs_def)

text \<open>
  C27.  Whatever the allocator does: a halt of \<open>set_add\<close> is a use of a failed allocation;
  \<open>SET_MALLOC_ERROR\<close> is returned only when the growth failed and leaves the set and the
  number of live blocks as they were; an insertion takes exactly two blocks.
\<close>

theorem set_add_errors:
  assumes "wf_set H s" "unat (number_nodes s) < 2 ^ 60"
  shows "gives (set_add s key m) (\<lambda>(rc, s', m'). wf_set H s'
     \<and> (rc = SET_MALLOC_ERROR \<longrightarrow> s' = s \<and> over_full s \<and> \<not> mem_ok m \<and> live m' = live m)
     \<and> (rc = SET_ALREADY_PRESENT \<longrightarrow> s' = s \<and> m' = m)
     \<and> (rc = SET_TRUE \<longrightarrow> live m' = live m + 2)
     \<and> rc \<in> {SET_TRUE, SET_ALREADY_PRESENT, SET_MALLOC_ERROR}) (\<lambda>e. e = NullDeref \<and> \<not> mem_ok m)"
  by (rule gives_mono [OF set_add_gives [OF assms, of key m]])
    (use assms(1) in \<open>auto simp: add_post_def oom_def mem_step_def split: if_splits\<close>)

theorem set_add_errors_witness:
  "gives (set_add sample2 (cs ''i.com'') \<lparr>outcomes = [False], live = 0\<rparr>)
     (\<lambda>(rc, s', m'). wf_set default_hash s') (\<lambda>e. e = NullDeref)"
  by (rule gives_mono [OF set_add_errors [OF sample_wf(3)]]) (auto simp: sample_size)

text \<open>
  The allocations of a node are not checked: with no memory for it, \<open>set_add\<close>
  dereferences a null pointer, where the header promises \<open>SET_MALLOC_ERROR\<close>.
\<close>

lemma set_add_unchecked_malloc:
  "set_add sample0 (cs ''a.com'') \<lparr>outcomes = [False], live = 0\<rparr> = Inl NullDeref"
proof -
  have "case set_add sample0 (cs ''a.com'') \<lparr>outcomes = [False], live = 0\<rparr> of
      Inl e \<Rightarrow> e = NullDeref | Inr _ \<Rightarrow> False" by code_simp
  then show ?thesis by (auto split: sum.splits)
qed

section \<open>Removal\<close>

text \<open>
  C6.  While no allocation fails, \<open>set_remove\<close> of a key whose cluster ends before the end of the table, or does not
  continue in slot 0, removes exactly that key, keeps the set well-formed and gives its two
  blocks back; of any other key it returns \<open>SET_FALSE\<close> and changes nothing.
\<close>

theorem set_remove_correct:
  assumes "wf_set H s" "tail_free s key" "mem_ok m"
  shows "if key \<in> elems s
    then \<exists>s' m'. set_remove s key m = Inr (SET_TRUE, s', m') \<and> wf_set H s'
      \<and> elems s' = elems s - {key} \<and> used_nodes s' = used_nodes s - 1 \<and> live m' = live m - 2
    else set_remove s key m = Inr (SET_FALSE, s, m)"
  using set_remove_gives [OF assms(1,2), of m] assms(3)
  by (cases "set_remove s key m") (auto simp: remove_post_def oom_def mem_step_def)

theorem set_remove_correct_witness:
  "\<exists>s' m'. set_remove sample2 (cs ''e.com'') mem0 = Inr (SET_TRUE, s', m') \<and> wf_set default_hash s'
     \<and> elems s' = {cs ''a.com''} \<and> used_nodes s' = 1 \<and> live m' = - 2"
proof -
  have "tail_free sample2 (cs ''e.com'')" by code_simp
  moreover have "used_nodes sample2 - 1 = 1" by code_simp
  ultimately show ?thesis
    using set_remove_correct [OF sample_wf(3), of "cs ''e.com''" mem0]
    by (simp add: sample_elems) (simp add: cs_def insert_Diff_if)
qed

text \<open>Where the probe of a key stops after the last slot of a well-formed table was emptied.\<close>

lemma last_emptied_probe:
  assumes "wf_set H s" "n = length (slots s)" "q < n" "slots s ! q = Some y" "q \<noteq> n - 1"
    and "stops ((slots s)[n - 1 := None]) (\<lambda>z. node_key z = node_key y) (home n y) j"
  shows "(slots s)[n - 1 := None] ! j = None \<longleftrightarrow> q < home n y"
proof -
  note w = wf_setD [OF assms(1)]
  let ?T = "(slots s)[n - 1 := None]"
  have n: "0 < n" using w(4) assms(2) by linarith
  then have hn: "home n y < n" by simp
  have q: "?T ! q = Some y" using assms(4,5) by simp
  show ?thesis
  proof (cases "q < home n y")
    case True
    have "?T ! j = None"
    proof (rule ccontr)
      assume "?T ! j \<noteq> None"
      then obtain z where zj: "?T ! j = Some z" by blast
      then have z: "?T ! j = Some z" "node_key z = node_key y" "j < n"
        using assms(6) unfolding stops_def length_list_update assms(2) [symmetric] by blast+
      have "j \<noteq> n - 1" using z(1) n assms(2) by auto
      then have "j = q" using uniqD [OF w(6), of j q z y] z assms(2-4) by simp
      then have "n - 1 \<in> chain n (home n y) j" using True hn by (auto simp: chain_def)
      then have "?T ! (n - 1) \<noteq> None" using assms(2,6) unfolding stops_def length_list_update by blast
      then show False using n assms(2) by simp
    qed
    with True show ?thesis by simp
  next
    case False
    have "stops ?T (\<lambda>z. node_key z = node_key y) (home n y) q"
      unfolding stops_def length_list_update assms(2) [symmetric]
    proof (intro conjI ballI)
      fix r assume r: "r \<in> chain n (home n y) q"
      then have rl: "r < q" using False by (simp add: chain_def)
      have "slots s ! r \<noteq> None" using w(8) [of q] r assms(2-4) by (auto simp: good_def)
      then obtain z where z: "slots s ! r = Some z" by auto
      have "node_key z \<noteq> node_key y" using uniqD [OF w(6), of r q z y] z rl assms(2-4) by auto
      with z rl assms(3,5) show "\<exists>z. ?T ! r = Some z \<and> node_key z \<noteq> node_key y" by simp
    qed (use assms(3) q in auto)
    then have "j = q" using stops_unique [OF assms(6), of q] hn assms(2) by simp
    with q False show ?thesis by simp
  qed
qed

text \<open>The pass that follows finds nothing to do: the freed slot is the last one it visits.\<close>

lemma remove_last_slot:
  assumes "wf_set H s" "n = length (slots s)" "slots s ! (n - 1) = Some x"
  shows "set_remove s (node_key x) m = Inr (SET_TRUE,
    s\<lparr>nodes := vals ((slots s)[n - 1 := None]), used_nodes := used_nodes s - 1\<rparr>, dealloc (dealloc m))"
proof -
  note w = wf_setD [OF assms(1)]
  have n: "n - 1 < n" using w(4) assms(2) by simp
  have hl: "home (length (slots s)) x < length (slots s)" using w(4) by (intro home_less) linarith
  let ?T = "(slots s)[n - 1 := None]"
  let ?s = "s\<lparr>nodes := vals ?T\<rparr>"
  have x: "x \<in> contents (slots s)" using contentsI [OF _ assms(3)] n assms(2) by simp
  then have mem: "node_key x \<in> elems s" by (simp add: elems_def)
  have hx: "home n x = unat (H (node_key x)) mod n" using hashed_home [OF w(3) x refl] .
  obtain j where g: "get_index s (node_key x) (H (node_key x)) 0 = Inr (SET_TRUE, j)"
    and st: "stops (slots s) (\<lambda>y. node_key y = node_key x) (home n x) j"
    using get_index_wf [OF assms(1), of "node_key x" 0] mem hx assms(2) by (auto simp: gives_total)
  have j: "j = n - 1"
    using stops_present [of "slots s" "home n" node_key x j "n - 1"] st w(6,8) n assms(2,3) hl by simp
  have fr: "free_index s (n - 1) m = Inr (?s, dealloc (dealloc m))"
    using free_index_eq [OF w(1)] n assms(2,3) by simp
  have bk: "backs ?T ?s" using backs_update [OF w(1)] by simp
  have "number_nodes ?s = number_nodes s" by simp
  then have "unat (number_nodes ?s) - (n - 1) = Suc 0" using w(9) n assms(2) by simp
  then have "relayout_nodes ?s (n - 1) 0 (dealloc (dealloc m)) = Inr (?s, dealloc (dealloc m))"
    using relayout_body_empty [OF bk, of "n - 1" "n - 1" 0] n assms(2) by (simp add: relayout_nodes_def run_loop_def)
  then show ?thesis using g fr j w(2) by (simp add: set_remove_def call_hash_def)
qed

text \<open>
  C26.  The pass after a removal does not go on at slot 0: when the key of the last slot is
  removed, every other key whose probe has wrapped around the end of the table is still in the
  table but not found any more, and the keys whose probe has not wrapped are.
\<close>

theorem set_remove_loses_key:
  assumes "wf_set H s" "n = length (slots s)" "slots s ! (n - 1) = Some x"
  shows "\<exists>s' m'. set_remove s (node_key x) m = Inr (SET_TRUE, s', m') \<and> elems s' = elems s - {node_key x}
     \<and> (\<forall>q y. q < n - 1 \<and> slots s ! q = Some y \<longrightarrow>
          set_contains s' (node_key y) = Inr (if q < home n y then SET_FALSE else SET_TRUE))"
proof -
  note w = wf_setD [OF assms(1)]
  have n: "n - 1 < n" "2 \<le> n" using w(4) assms(2) by simp_all
  let ?T = "(slots s)[n - 1 := None]"
  let ?s = "s\<lparr>nodes := vals ?T, used_nodes := used_nodes s - 1\<rparr>"
  have x: "x \<in> contents (slots s)" using contentsI [OF _ assms(3)] n assms(2) by simp
  have t: "tab (home n) node_key n (contents (slots s) - {x}) (unat (used_nodes s) - 1) ?T"
    using remove_tab [of "home n" node_key n "contents (slots s)"] wf_tab [OF assms(1)] n assms(2,3) by simp
  have bk: "backs ?T ?s" using w(1) by (simp add: backs_def)
  have "elems ?s = node_key ` (contents (slots s) - {x})" using tabD(3) [OF t] slots_vals [of ?s ?T] by (simp add: elems_def)
  also have "\<dots> = elems s - {node_key x}"
    using inj_on_image_set_diff [OF uniq_inj [OF w(6)], of "contents (slots s)" "{x}"] x by (simp add: elems_def)
  finally have e: "elems ?s = elems s - {node_key x}" .
  have "set_contains ?s (node_key y) = Inr (if q < home n y then SET_FALSE else SET_TRUE)"
    if "q < n - 1" "slots s ! q = Some y" for q y
  proof -
    have y: "y \<in> contents (slots s)" using contentsI [of q "slots s" y] that n assms(2) by simp
    have "hashed H ?T" using w(3) tabD(3) [OF t] by (simp add: hashed_def)
    moreover have "card (occ ?T) < length ?T" using tabD(1,4) [OF t] w(5) assms(2) by simp
    ultimately obtain rc j where g: "get_index ?s (node_key y) (H (node_key y)) 0 = Inr (rc, j)"
      "rc = (if ?T ! j = None then SET_FALSE else SET_TRUE)"
      "stops ?T (\<lambda>z. node_key z = node_key y) (home n y) j"
      using get_index_gives [OF bk, of H "node_key y" 0] hashed_home [OF w(3) y refl, of n] assms(2)
      by (auto simp: gives_total)
    then show ?thesis
      using last_emptied_probe [OF assms(1,2) _ that(2) _ g(3)] that(1) w(2)
      by (simp add: set_contains_def call_hash_def)
  qed
  then show ?thesis using remove_last_slot [OF assms, of m] e by auto
qed

theorem set_remove_loses_key_witness:
  "\<exists>s' m'. set_remove sample2 (cs ''a.com'') mem0 = Inr (SET_TRUE, s', m') \<and> elems s' = {cs ''e.com''}
     \<and> set_contains s' (cs ''e.com'') = Inr SET_FALSE"
proof -
  have h: "home 4 (sample_node ''e.com'') = 3" by code_simp
  have sl: "slots sample2 = [Some (sample_node ''e.com''), None, None, Some (sample_node ''a.com'')]"
    by (rule slots_vals) (simp add: sample2_def)
  have k: "node_key (sample_node k) = cs k" for k by (simp add: sample_node_def)
  have d: "{cs ''a.com'', cs ''e.com''} - {cs ''a.com''} = {cs ''e.com''}" by (auto simp: cs_def)
  have s: "4 = length (slots sample2)" "slots sample2 ! (4 - 1) = Some (sample_node ''a.com'')"
    "slots sample2 ! 0 = Some (sample_node ''e.com'')" by (simp_all add: sl)
  obtain s' m' where r: "set_remove sample2 (node_key (sample_node ''a.com'')) mem0 = Inr (SET_TRUE, s', m')"
    "elems s' = elems sample2 - {node_key (sample_node ''a.com'')}"
    and lost: "\<forall>q y. q < 4 - 1 \<and> slots sample2 ! q = Some y \<longrightarrow>
       set_contains s' (node_key y) = Inr (if q < home 4 y then SET_FALSE else SET_TRUE)"
    using set_remove_loses_key [OF sample_wf(3) s(1,2)] by blast
  have "set_contains s' (node_key (sample_node ''e.com'')) = Inr SET_FALSE"
    using lost [rule_format, of 0 "sample_node ''e.com''"] s(3) h by simp
  then show ?thesis using r by (simp only: k sample_elems d) blast
qed

section \<open>Life cycle\<close>

text \<open>
  \<open>set_init_alt\<close> with at least two slots always returns; it gives an empty well-formed
  set with the hash function asked for, or \<open>SET_MALLOC_ERROR\<close> and no array.
\<close>

lemma set_init_alt_correct:
  assumes "2 \<le> unat num_els" "unat num_els < 2 ^ 60"
  shows "\<exists>rc s' m'. set_init_alt s num_els hash m = Inr (rc, s', m')
     \<and> (if rc = SET_MALLOC_ERROR then nodes s' = Null \<and> \<not> mem_ok m \<and> live m' = live m
        else rc = SET_TRUE \<and> wf_set (case hash of None \<Rightarrow> default_hash | Some h \<Rightarrow> h) s'
          \<and> elems s' = {} \<and> set_length s' = 0 \<and> live m' = live m + 1)"
proof -
  obtain rc s' m' where r: "set_init_alt s num_els hash m = Inr (rc, s', m')"
    and p: "init_post hash num_els m (rc, s', m')"
    using set_init_alt_gives [OF assms, of s hash m] by (auto simp: gives_total)
  show ?thesis
    using r p by (intro exI [of _ rc] exI [of _ s'] exI [of _ m'])
      (simp add: init_post_def mem_step_def set_length_def split: if_splits)
qed

lemma set_init_alt_correct_witness:
  "\<exists>rc s' m'. set_init sample0 mem0 = Inr (rc, s', m') \<and> (rc = SET_TRUE \<longrightarrow> elems s' = {})"
proof -
  have "2 \<le> unat (1024 :: u64)" "unat (1024 :: u64) < 2 ^ 60" by simp_all
  from set_init_alt_correct [OF this, of sample0 None mem0] show ?thesis
    unfolding set_init_def by (elim exE conjE) (auto split: if_splits)
qed

text \<open>A fresh set has room for any realistic number of insertions.\<close>

lemma set_init_room:
  assumes "2 \<le> unat num_els" "unat num_els < 2 ^ 60" "9 * n < 2 ^ 60" "mem_ok m"
  obtains s' m' where "set_init_alt s num_els hash m = Inr (SET_TRUE, s', m')"
    "set_room (case hash of None \<Rightarrow> default_hash | Some h \<Rightarrow> h) n s'" "elems s' = {}"
    "mem_ok m'" "live m' = live m + 1"
proof -
  obtain rc s' m' where r: "set_init_alt s num_els hash m = Inr (rc, s', m')"
    and p: "init_post hash num_els m (rc, s', m')"
    using set_init_alt_gives [OF assms(1,2), of s hash m] by (auto simp: gives_total)
  have "rc = SET_TRUE" "set_room (case hash of None \<Rightarrow> default_hash | Some h \<Rightarrow> h) n s'"
    "elems s' = {}" "mem_ok m'" "live m' = live m + 1"
    using p assms by (auto simp: init_post_def set_room_def mem_step_def split: if_splits)
  with r show thesis by (intro that) simp_all
qed

lemma filled:
  assumes "set_room H (length ks) s" "mem_ok m"
  shows "\<exists>s' m'. add_each set_add ks s m = Inr (s', m') \<and> set_room H 0 s' \<and> elems s' = elems s \<union> set ks
     \<and> live m' = live m + 2 * (int (card (elems s')) - int (card (elems s))) \<and> mem_ok m'"
  using simple.add_each_gives [OF assms(1), of m] assms(2)
  by (cases "add_each set_add ks s m") (auto simp: oom_def mem_step_def)

text \<open>A set that is created, filled, cleared, filled again and destroyed.\<close>

definition lifecycle ::
  "simple_set \<Rightarrow> u64 \<Rightarrow> cstr list \<Rightarrow> cstr list \<Rightarrow> mem \<Rightarrow> (int list \<times> simple_set \<times> simple_set \<times> mem) res" where
  "lifecycle s num_els ks ks' m = rbind (set_init_alt s num_els None m) (\<lambda>(rc, s1, m1).
     rbind (add_each set_add ks s1 m1) (\<lambda>(s2, m2). rbind (set_clear s2 m2) (\<lambda>(rc', s3, m3).
     rbind (add_each set_add ks' s3 m3) (\<lambda>(s4, m4).
     rbind (set_destroy s4 m4) (\<lambda>(rc'', s5, m5). Inr ([rc, rc', rc''], s4, s5, m5))))))"

text \<open>
  C21.  Nothing leaks: when no allocation fails, a set that is initialised with at least two slots,
  filled with any keys, cleared, filled again and destroyed gives back every block it took, and
  after the clearing it holds the new keys only.
\<close>

theorem set_lifecycle_no_leak:
  assumes "2 \<le> unat num_els" "unat num_els < 2 ^ 60" "mem_ok m"
    and "9 * length ks < 2 ^ 60" "9 * length ks' < 2 ^ 60"
  shows "\<exists>t s' m'. lifecycle s num_els ks ks' m = Inr ([SET_TRUE, SET_TRUE, SET_TRUE], t, s', m')
     \<and> elems t = set ks' \<and> nodes s' = Freed \<and> live m' = live m"
proof -
  obtain s1 m1 where i: "set_init_alt s num_els None m = Inr (SET_TRUE, s1, m1)"
    "set_room default_hash (length ks) s1" "elems s1 = {}" "mem_ok m1" "live m1 = live m + 1"
    using set_init_room [OF assms(1,2,4,3), of s None] by auto
  obtain s2 m2 where a: "add_each set_add ks s1 m1 = Inr (s2, m2)" "set_room default_hash 0 s2"
    "elems s2 = set ks" "live m2 = live m1 + 2 * int (card (elems s2))" "mem_ok m2"
    using filled [OF i(2,4)] i(3) by auto
  obtain s3 m3 where c: "set_clear s2 m2 = Inr (SET_TRUE, s3, m3)" "wf_set default_hash s3"
    "elems s3 = {}" "number_nodes s3 = number_nodes s2" "live m3 = live m2 - 2 * int (card (elems s2))"
    "mem_ok m2 \<longrightarrow> mem_ok m3"
    using set_clear_wf [of default_hash s2 m2] a(2) by (auto simp: set_room_def)
  have "set_room default_hash (length ks') s3" using a(2) c(2-4) assms(5) by (simp add: set_room_def)
  then obtain s4 m4 where b: "add_each set_add ks' s3 m3 = Inr (s4, m4)" "set_room default_hash 0 s4"
    "elems s4 = set ks'" "live m4 = live m3 + 2 * int (card (elems s4))"
    using filled [of default_hash ks' s3 m3] c(3,6) a(5) by auto
  have w: "wf_set default_hash s4" using b(2) by (simp add: set_room_def)
  obtain s5 m5 where "set_destroy s4 m4 = Inr (SET_TRUE, s5, m5)" "nodes s5 = Freed"
    "live m5 = live m4 - 2 * int (card (occ (slots s4))) - 1"
    using set_destroy_gives [OF wf_setD(1) [OF w], of m4] by (auto simp: gives_total mem_step_def)
  then show ?thesis
    using i(1,5) a(1,4) c(1,5) b(1,3,4) card_elems(1) [OF w] wf_setD(7) [OF w] by (simp add: lifecycle_def)
qed

theorem set_lifecycle_no_leak_witness:
  "\<exists>t s' m'. lifecycle sample0 1024 [cs ''a.com'', cs ''e.com'', cs ''a.com''] [cs ''b.com''] mem0
     = Inr ([SET_TRUE, SET_TRUE, SET_TRUE], t, s', m') \<and> elems t = {cs ''b.com''} \<and> live m' = 0"
  using set_lifecycle_no_leak [of 1024 mem0 "[cs ''a.com'', cs ''e.com'', cs ''a.com'']" "[cs ''b.com'']" sample0]
  by auto

text \<open>
  C1.  Refinement: when no allocation fails, a new set of at least two slots, run through any sequence of insertions, lookups, removals and
  clearings in which every removal is of a key whose cluster does not wrap around the end of the
  table, returns the codes of the same run on a mathematical set, ends holding that set, and has
  two blocks of memory per key.
\<close>

theorem set_refines_math_set:
  assumes "2 \<le> unat num_els" "unat num_els < 2 ^ 60" "9 * length ops < 2 ^ 60" "mem_ok m0"
    and "set_init_alt s0 num_els hash m0 = Inr (rc, s, m)" "in_scope removable set_do ops s m"
  shows "rc = SET_TRUE \<and> (\<exists>rcs s' m'. run_ops set_do ops s m = Inr (rcs, s', m')
     \<and> spec_ops ops {} = (rcs, elems s') \<and> live m' = live m + 2 * int (card (elems s')))"
proof -
  have i: "rc = SET_TRUE" "set_room (case hash of None \<Rightarrow> default_hash | Some h \<Rightarrow> h) (length ops) s"
    "elems s = {}" "mem_ok m"
    using set_init_room [OF assms(1-4), of s0 hash] assms(5) by auto
  then show ?thesis using all_ops.run_ops_refines [OF i(2,4) assms(6)] by simp blast
qed

theorem set_refines_math_set_witness:
  "\<exists>s m s' m'. set_init_alt sample0 4 None mem0 = Inr (SET_TRUE, s, m)
     \<and> run_ops set_do [Add (cs ''a.com''), Add (cs ''e.com''), Remove (cs ''e.com''), Contains (cs ''e.com''),
         Add (cs ''a.com'')] s m = Inr ([0, 0, 0, - 1, 1], s', m') \<and> elems s' = {cs ''a.com''}"
proof -
  let ?ops = "[Add (cs ''a.com''), Add (cs ''e.com''), Remove (cs ''e.com''), Contains (cs ''e.com''), Add (cs ''a.com'')]"
  have "case set_init_alt sample0 4 None mem0 of Inl e \<Rightarrow> False
      | Inr (rc, s, m) \<Rightarrow> in_scope removable set_do ?ops s m" by code_simp
  then obtain rc s m where i: "set_init_alt sample0 4 None mem0 = Inr (rc, s, m)" "in_scope removable set_do ?ops s m"
    by (auto split: sum.splits simp del: in_scope.simps)
  have "spec_ops ?ops {} = ([0, 0, 0, - 1, 1], {cs ''a.com''})" by (auto simp: cs_def)
  then show ?thesis using set_refines_math_set [OF _ _ _ _ i] i(1) by auto
qed

section \<open>Algebra\<close>

lemma algebra_total:
  assumes "gives x (algebra_post H m K) (oom m)" "mem_ok m"
  shows "\<exists>r m'. x = Inr (SET_TRUE, r, m') \<and> wf_set H r \<and> elems r = K
    \<and> live m' = live m + 2 * int (card K)"
  using assms by (cases x) (auto simp: algebra_post_def oom_def mem_step_def)

lemma sample_operands: "operands default_hash sample0 sample1 sample2"
  by (simp add: operands_def sample_wf small_def sample_size)

text \<open>
  C9.  With an empty result set, three sets of one hash function and no allocation failure,
  \<open>set_union\<close>, \<open>set_intersection\<close>, \<open>set_difference\<close> and \<open>set_symmetric_difference\<close>
  store the set their names say, two blocks per key.
\<close>

theorem set_algebra_correct:
  assumes "operands H res s1 s2" "mem_ok m"
    and "(f, K) \<in> {(set_union, elems s1 \<union> elems s2), (set_intersection, elems s1 \<inter> elems s2),
      (set_difference, elems s1 - elems s2),
      (set_symmetric_difference, (elems s1 - elems s2) \<union> (elems s2 - elems s1))}"
  shows "\<exists>r m'. f res s1 s2 m = Inr (SET_TRUE, r, m') \<and> wf_set H r \<and> elems r = K
     \<and> live m' = live m + 2 * int (card K)"
  using algebra_total [OF set_union_gives [OF assms(1)] assms(2)]
    algebra_total [OF set_intersection_gives [OF assms(1)] assms(2)]
    algebra_total [OF set_difference_gives [OF assms(1)] assms(2)]
    algebra_total [OF set_symmetric_difference_gives [OF assms(1)] assms(2)] assms(3) by auto

theorem set_algebra_correct_witness:
  "\<exists>r m'. set_symmetric_difference sample0 sample1 sample2 mem0 = Inr (SET_TRUE, r, m')
     \<and> elems r = {cs ''e.com''} \<and> live m' = 2"
proof -
  have "(elems sample1 - elems sample2) \<union> (elems sample2 - elems sample1) = {cs ''e.com''}"
    by (simp add: sample_elems) (auto simp: cs_def)
  then show ?thesis
    using set_algebra_correct [OF sample_operands mem0_ok(1), of set_symmetric_difference "{cs ''e.com''}"]
    by auto
qed

text \<open>
  C28.  The four inclusion tests decide inclusion, the strict ones strict inclusion;
  \<open>set_cmp\<close> orders by size and, between sets of one size, says whether they are equal.
\<close>

theorem set_inclusion_correct:
  assumes "wf_set H s" "wf_set H t"
  shows "set_is_subset s t = Inr (if elems s \<subseteq> elems t then SET_TRUE else SET_FALSE)
     \<and> set_is_subset_strict s t = Inr (if elems s \<subset> elems t then SET_TRUE else SET_FALSE)
     \<and> set_is_superset s t = Inr (if elems t \<subseteq> elems s then SET_TRUE else SET_FALSE)
     \<and> set_is_superset_strict s t = Inr (if elems t \<subset> elems s then SET_TRUE else SET_FALSE)
     \<and> set_cmp s t = Inr (if card (elems s) < card (elems t) then SET_RIGHT_GREATER
         else if card (elems t) < card (elems s) then SET_LEFT_GREATER
         else if elems s = elems t then SET_EQUAL else SET_UNEQUAL)"
proof -
  have strict: "set_is_subset_strict a b = Inr (if elems a \<subset> elems b then SET_TRUE else SET_FALSE)"
    if "wf_set H a" "wf_set H b" for a b
  proof (cases "used_nodes b \<le> used_nodes a")
    case True
    then have "\<not> card (elems a) < card (elems b)" using used_le_iff(1) [OF that(2,1)] by simp
    then have "\<not> elems a \<subset> elems b" using psubset_card_mono [OF card_elems(2) [OF that(2)]] by blast
    with True show ?thesis by (simp add: set_is_subset_strict_def)
  next
    case False
    then have "card (elems a) < card (elems b)" using used_le_iff(1) [OF that(2,1)] by simp
    then have "elems a \<subset> elems b \<longleftrightarrow> elems a \<subseteq> elems b" by auto
    with False show ?thesis by (simp add: set_is_subset_strict_def set_is_subset_wf [OF that])
  qed
  show ?thesis
    using strict [OF assms] strict [OF assms(2,1)] set_is_subset_wf [OF assms] set_is_subset_wf [OF assms(2,1)]
    unfolding set_cmp_wf [OF assms] by (simp add: set_is_superset_def set_is_superset_strict_def)
qed

theorem set_inclusion_correct_witness:
  "set_is_subset_strict sample1 sample2 = Inr SET_TRUE \<and> set_is_superset sample1 sample2 = Inr SET_FALSE
     \<and> set_cmp sample1 sample2 = Inr SET_RIGHT_GREATER"
  using set_inclusion_correct [OF sample_wf(2,3)] by (auto simp: sample_elems cs_def card_insert_if)

text \<open>
  \<open>set_to_array\<close> returns the number of keys and an array of that many strings, every
  key once, closed by a null pointer.
\<close>

lemma set_to_array_correct:
  assumes "wf_set H s" "mem_ok m"
  shows "\<exists>ks m'. set_to_array s m = Inr (vals (map Some ks @ [None]), of_nat (length ks), m')
     \<and> distinct ks \<and> set ks = elems s \<and> live m' = live m + 1 + int (length ks)"
proof -
  note w = wf_setD [OF assms(1)]
  obtain r size m' where r: "set_to_array s m = Inr (r, size, m')" and p: "array_post s m (r, size, m')"
    using set_to_array_gives [OF assms(1), of m] assms(2)
    by (cases "set_to_array s m") (auto simp: oom_def)
  have l: "length (keys_of (slots s)) = unat (used_nodes s)" using w(7) by (simp add: keys_of_length)
  have "distinct (keys_of (slots s))"
    using card_elems(1) [OF assms(1)] l keys_of_set [of "slots s"]
    by (intro card_distinct) (simp add: elems_def)
  moreover have "r = vals (map Some (keys_of (slots s)) @ [None])" "size = of_nat (length (keys_of (slots s)))"
    "live m' = live m + 1 + int (length (keys_of (slots s)))"
    using p assms(2) l by (auto simp: array_post_def mem_step_def split: if_splits)
  ultimately show ?thesis using r keys_of_set [of "slots s"] by (auto simp: elems_def)
qed

lemma set_to_array_correct_witness:
  "\<exists>ks m'. set_to_array sample2 mem0 = Inr (vals (map Some ks @ [None]), of_nat (length ks), m')
     \<and> set ks = {cs ''a.com'', cs ''e.com''}"
  using set_to_array_correct [OF sample_wf(3) mem0_ok(1)] by (auto simp: sample_elems)

end
