(* ===== verification/SetSafety.thy ===== *)
theory SetSafety
  imports SetSpec
begin

text \<open>
  Memory safety of \<open>set.c\<close> for every sequence of calls, also of those after a removal that
  broke a probe sequence.  \<open>sound\<close> is what is left of the invariant then: keys can be stored
  twice and need not be found, but the table is initialised, its entries carry the hash of their
  key, and \<open>used_nodes\<close> is at least the number of entries, so that a free slot remains.
\<close>

section \<open>The weaker invariant\<close>

definition sound :: "set_hash_function \<Rightarrow> simple_set \<Rightarrow> bool" where
  "sound H s \<longleftrightarrow> (let T = slots s in backs T s \<and> hash_function s = Some H \<and> hashed H T
     \<and> 2 \<le> length T \<and> card (occ T) \<le> unat (used_nodes s) \<and> unat (used_nodes s) < length T)"

lemma soundD:
  assumes "sound H s"
  shows "backs (slots s) s" "hash_function s = Some H" "hashed H (slots s)" "2 \<le> length (slots s)"
    "card (occ (slots s)) \<le> unat (used_nodes s)" "unat (used_nodes s) < length (slots s)"
    "length (slots s) = unat (number_nodes s)"
  using assms unfolding sound_def Let_def backs_def by blast+

lemma soundI:
  assumes "nodes s = vals T" "length T = unat (number_nodes s)" "hash_function s = Some H" "hashed H T"
    and "2 \<le> length T" "card (occ T) \<le> unat (used_nodes s)" "unat (used_nodes s) < length T"
  shows "sound H s" "elems s = node_key ` contents T"
proof -
  have "slots s = T" using assms(1) by (rule slots_vals)
  moreover have "number_nodes s \<noteq> 0" using assms(2,5) by auto
  ultimately show "sound H s" "elems s = node_key ` contents T"
    using assms by (simp_all add: sound_def backs_def elems_def Let_def)
qed

lemma wf_sound: "wf_set H s \<Longrightarrow> sound H s"
  using wf_setD [of H s] by (simp add: sound_def Let_def)

lemma sound_free: "sound H s \<Longrightarrow> card (occ (slots s)) < length (slots s)"
  using soundD(5,6) le_less_trans by blast

section \<open>Moving an entry\<close>

text \<open>The target of a move is free or holds an entry with the same key, which is the same entry.\<close>

lemma move_sound:
  assumes "hashed H T" "i < length T" "T ! i = Some x" "stops T (\<lambda>y. node_key y = node_key x) h j"
  shows "contents (move T i j) = contents T" "card (occ (move T i j)) \<le> card (occ T)"
proof -
  have j: "j < length T" using assms(4) by (simp add: stops_def)
  have same: "y = x" if "T ! j = Some y" for y
  proof -
    have "node_key y = node_key x" using assms(4) that by (simp add: stops_def)
    moreover have "y \<in> contents T" "x \<in> contents T" using that assms(2,3) j by (auto simp: contents_nth)
    ultimately show ?thesis using assms(1) by (simp add: hashed_def)
  qed
  have nth: "move T i j ! p = (if i = j then T ! p else if p = i then None else if p = j then Some x else T ! p)"
    if "p < length T" for p using that assms(2,3) j by (auto simp: move_def nth_list_update)
  have at: "T ! j = None \<or> T ! j = Some x" using same by (cases "T ! j") auto
  show "contents (move T i j) = contents T"
  proof (cases "i = j")
    case False
    show ?thesis
    proof (intro set_eqI iffI)
      fix y assume "y \<in> contents (move T i j)"
      then obtain p where "p < length T" "move T i j ! p = Some y" by (auto simp: contents_nth)
      then show "y \<in> contents T" using nth [of p] False assms(2,3) by (auto simp: contents_nth split: if_splits)
    next
      fix y assume "y \<in> contents T"
      then obtain p where p: "p < length T" "T ! p = Some y" by (auto simp: contents_nth)
      then have "move T i j ! (if p = i then j else p) = Some y"
        using nth [of p] nth [of j] False j at assms(3) by auto
      then show "y \<in> contents (move T i j)" using p j assms(2) by (auto simp: contents_nth split: if_splits)
    qed
  qed simp
  show "card (occ (move T i j)) \<le> card (occ T)"
  proof (cases "i = j")
    case False
    have "i \<in> occ T" using assms(2,3) by (simp add: occ_def)
    have "occ (move T i j) \<subseteq> insert j (occ T - {i})"
      using nth False by (auto simp: occ_def split: if_splits)
    then have "card (occ (move T i j)) \<le> card (insert j (occ T - {i}))" by (simp add: card_mono)
    also have "\<dots> \<le> Suc (card (occ T - {i}))" by (rule card_insert_le_m1) simp_all
    also have "\<dots> = card (occ T)" using \<open>i \<in> occ T\<close> by (simp only: card_Suc_Diff1 occ_finite)
    finally show ?thesis .
  qed simp
qed

section \<open>Re-layout\<close>

text \<open>A pass of \<open>__relayout_nodes\<close>, wherever it starts and stops, keeps the entries.\<close>

definition relaid :: "simple_set \<Rightarrow> simple_set_node option list \<Rightarrow> nat \<Rightarrow> mem \<Rightarrow> simple_set \<Rightarrow> mem \<Rightarrow> bool" where
  "relaid s T u m s' m' \<longleftrightarrow> (\<exists>T'. s' = s\<lparr>nodes := vals T'\<rparr> \<and> length T' = length T
     \<and> contents T' = contents T \<and> card (occ T') \<le> u \<and> mem_step m 0 m')"

lemma relayout_body_sound:
  assumes "backs T s" "hashed H T" "u < length T" "relaid s T u m t m'" "i < length T"
  shows "gives (relayout_body start eon i (t, ix, m'))
    (\<lambda>c. case c of Next (t', ix', m'') \<Rightarrow> relaid s T u m t' m''
       | Break (t', ix', m'') \<Rightarrow> relaid s T u m t' m'') (oom m)"
proof -
  obtain T' where t: "t = s\<lparr>nodes := vals T'\<rparr>" and l: "length T' = length T"
    and c: "contents T' = contents T" "card (occ T') \<le> u" and m': "mem_step m 0 m'"
    using assms(4) by (auto simp: relaid_def)
  have bk: "backs T' t" using backs_update [OF assms(1) l] by (simp add: t)
  have hs: "hashed H T'" using assms(2) hashed_contents [OF c(1)] by simp
  show ?thesis
  proof (cases "T' ! i")
    case None
    then show ?thesis using relayout_body_empty [OF bk _ None] assms(4,5) l by simp
  next
    case (Some x)
    have free: "card (occ T') < length T'" using c(2) assms(3) l by simp
    have li: "i < length T'" using assms(5) l by simp
    show ?thesis
    proof (rule gives_mono [OF relayout_body_gives [OF bk hs free li Some]], clarify)
      fix j m'' assume st: "mem_step m' 0 m''" "stops T' (\<lambda>y. node_key y = node_key x) (home (length T') x) j"
      have "relaid s T u m (t\<lparr>nodes := vals (move T' i j)\<rparr>) m''"
        unfolding relaid_def using move_sound [OF hs li Some st(2)] l c mem_step_trans [OF m' st(1)]
        by (intro exI [of _ "move T' i j"]) (simp add: t)
      then show "case Next (t\<lparr>nodes := vals (move T' i j)\<rparr>, j, m'') of
          Next (t', ix', m'') \<Rightarrow> relaid s T u m t' m'' | Break (t', ix', m'') \<Rightarrow> relaid s T u m t' m''" by simp
    qed (use oom_step [OF m'] in blast)
  qed
qed

lemma relayout_sound:
  assumes "backs T s" "hashed H T" "card (occ T) \<le> u" "u < length T"
  shows "gives (relayout_nodes s start eon m) (\<lambda>(s', m'). relaid s T u m s' m') (oom m)"
proof (cases "start \<le> length T")
  case True
  have N: "unat (number_nodes s) = length T" using backsD(2) [OF assms(1)] by simp
  have r0: "relaid s T u m s m"
    unfolding relaid_def using assms(3) nodes_update_id [OF backsD(1) [OF assms(1)]]
    by (intro exI [of _ T]) simp
  have "gives (run_loop (relayout_body start eon) start (length T - start) (s, 0, m))
      (\<lambda>(s', ix, m'). relaid s T u m s' m') (oom m)"
  proof (rule gives_run_loop [where P = "\<lambda>_ (s', ix, m'). relaid s T u m s' m'"])
    fix i st assume "start \<le> i" "i < start + (length T - start)"
      and "case st of (s', ix :: nat, m') \<Rightarrow> relaid s T u m s' m'"
    then show "gives (relayout_body start eon i st)
      (\<lambda>c. case c of Next t' \<Rightarrow> (case t' of (s', ix, m') \<Rightarrow> relaid s T u m s' m')
         | Break t' \<Rightarrow> (case t' of (s', ix, m') \<Rightarrow> relaid s T u m s' m')) (oom m)"
      using relayout_body_sound [OF assms(1,2,4)] by (cases st) auto
  qed (use r0 in simp_all)
  then show ?thesis unfolding relayout_nodes_def N by (rule gives_rbind) auto
next
  case False
  then have "unat (number_nodes s) - start = 0" using backsD(2) [OF assms(1)] by simp
  then show ?thesis
    unfolding relayout_nodes_def run_loop_def using assms(3) nodes_update_id [OF backsD(1) [OF assms(1)]]
    by (auto simp: relaid_def intro!: exI [of _ T])
qed

section \<open>Insertion\<close>

text \<open>What a call may do to the keys: none is invented.\<close>

definition kept :: "set_hash_function \<Rightarrow> simple_set \<Rightarrow> mem \<Rightarrow> cstr set \<Rightarrow> simple_set \<Rightarrow> mem \<Rightarrow> bool" where
  "kept H s m K s' m' \<longleftrightarrow> sound H s' \<and> elems s' \<subseteq> elems s \<union> K
     \<and> unat (used_nodes s') \<le> Suc (unat (used_nodes s))
     \<and> unat (number_nodes s') \<le> max (unat (number_nodes s)) (9 * unat (used_nodes s))
     \<and> (mem_ok m \<longrightarrow> mem_ok m')"

lemma get_index_sound:
  assumes "sound H s"
  shows "gives (get_index s key (H key) index) (\<lambda>(rc, j). j < length (slots s)
      \<and> rc = (if slots s ! j = None then SET_FALSE else SET_TRUE)
      \<and> (rc = SET_TRUE \<longrightarrow> key \<in> elems s)) (\<lambda>_. False)"
proof (rule gives_mono [OF get_index_gives [OF soundD(1,3) [OF assms] sound_free [OF assms]]])
  fix p :: "int \<times> nat"
  assume "case p of (rc, j) \<Rightarrow> rc = (if slots s ! j = None then SET_FALSE else SET_TRUE) \<and> j < length (slots s)
      \<and> stops (slots s) (\<lambda>y. node_key y = key) (unat (H key) mod length (slots s)) j"
  then obtain rc j where p: "p = (rc, j)" "rc = (if slots s ! j = None then SET_FALSE else SET_TRUE)"
    and j: "j < length (slots s)"
    and st: "stops (slots s) (\<lambda>y. node_key y = key) (unat (H key) mod length (slots s)) j" by auto
  have "key \<in> elems s" if "slots s ! j = Some y" for y
    using st that contentsI [OF j that] by (auto simp: stops_def elems_def)
  then show "case p of (rc, j) \<Rightarrow> j < length (slots s)
      \<and> rc = (if slots s ! j = None then SET_FALSE else SET_TRUE) \<and> (rc = SET_TRUE \<longrightarrow> key \<in> elems s)"
    using p j by (cases "slots s ! j") auto
qed simp

text \<open>Growth: a larger table with the same keys, or the set as it was.\<close>

lemma grow_bound:
  assumes "sound H s" "over_full s"
  shows "2 * unat (number_nodes s) \<le> 9 * unat (used_nodes s)"
  using assms f32_quot_gt_quarter [of "unat (used_nodes s)" "unat (number_nodes s)"]
    soundD(4,7) [OF assms(1)] by (simp add: over_full_def)

lemma relaid_sound:
  assumes "relaid s T (unat (used_nodes s)) m s' m'" "length T = unat (number_nodes s)"
    and "hash_function s = Some H" "hashed H T" "2 \<le> length T" "unat (used_nodes s) < length T"
  shows "sound H s'" "elems s' = node_key ` contents T" "used_nodes s' = used_nodes s"
    "number_nodes s' = number_nodes s" "mem_step m 0 m'"
proof -
  obtain T' where T': "s' = s\<lparr>nodes := vals T'\<rparr>" "length T' = length T" "contents T' = contents T"
    "card (occ T') \<le> unat (used_nodes s)" "mem_step m 0 m'" using assms(1) by (auto simp: relaid_def)
  have "hashed H T'" using assms(4) T'(3) by (simp add: hashed_def)
  then show "sound H s'" "elems s' = node_key ` contents T" "used_nodes s' = used_nodes s"
    "number_nodes s' = number_nodes s" "mem_step m 0 m'"
    using soundI [of s' T' H] T' assms(2-) by simp_all
qed

lemma expand_sound:
  assumes "sound H s" "unat (number_nodes s) < 2 ^ 60"
  shows "gives (expand s m) (\<lambda>(ok, s', m').
      if ok then sound H s' \<and> elems s' = elems s \<and> used_nodes s' = used_nodes s
        \<and> unat (number_nodes s') = 2 * unat (number_nodes s) \<and> mem_step m 0 m'
      else s' = s \<and> \<not> mem_ok m) (oom m)"
proof -
  note w = soundD [OF assms(1)]
  define T n where "T = slots s" and "n = length T"
  have n: "unat (number_nodes s) = n" "2 \<le> n" using w(4,7) by (simp_all add: n_def T_def)
  have nodes: "nodes s = vals T" using backsD(1) [OF w(1)] by (simp add: T_def)
  have sz: "unat (number_nodes s * 2) = 2 * n" "unat (number_nodes s * 2 * 8) div 8 = 2 * n"
    using assms(2) n by (simp_all add: unat_word_ariths)
  let ?T = "T @ replicate n None"
  let ?s = "s\<lparr>nodes := vals ?T, number_nodes := number_nodes s * 2\<rparr>"
  have re: "c_realloc (nodes s) (2 * n) = Inr (part T n)" by (simp add: nodes c_realloc_def n_def)
  have fill: "null_fill (s\<lparr>nodes := part T n\<rparr>) n (2 * n) = Inr (s\<lparr>nodes := vals ?T\<rparr>)"
    using null_fill_gives [of "s\<lparr>nodes := part T n\<rparr>" T n] by (simp add: n_def mult_2)
  have "p \<in> occ ?T \<longleftrightarrow> p \<in> occ T" for p
    by (cases "p < length T"; cases "p < length T + n") (simp_all add: occ_def nth_append)
  then have cT: "contents ?T = contents T" "occ ?T = occ T" by (auto simp: contents_def)
  have hs: "hashed H ?T" using w(3) cT(1) by (simp add: hashed_def T_def)
  have bk: "backs ?T ?s" using sz(1) n by (auto simp: backs_def n_def)
  have u: "card (occ ?T) \<le> unat (used_nodes s)" "unat (used_nodes s) < length ?T"
    using w(5,6) cT(2) by (simp_all add: T_def)
  have re2: "gives (rbind (relayout_nodes ?s 0 1 m1) (\<lambda>(s3, m3). Inr (True, s3, m3)))
      (\<lambda>(ok, s', m'). ok \<and> sound H s' \<and> elems s' = elems s \<and> used_nodes s' = used_nodes s
        \<and> unat (number_nodes s') = 2 * unat (number_nodes s) \<and> mem_step m1 0 m') (oom m1)" for m1
  proof (rule gives_rbind [OF relayout_sound [OF bk hs u]], clarify)
    fix s' m' assume r: "relaid ?s ?T (unat (used_nodes s)) m1 s' m'"
    have "sound H s'" "elems s' = node_key ` contents ?T" "used_nodes s' = used_nodes s"
      "number_nodes s' = number_nodes s * 2" "mem_step m1 0 m'"
      using relaid_sound [of ?s ?T m1 s' m' H] r sz(1) w(2) hs u(2) n(2) by (simp_all add: n_def)
    then show "gives (Inr (True, s', m')) (\<lambda>(ok, s', m'). ok \<and> sound H s' \<and> elems s' = elems s
        \<and> used_nodes s' = used_nodes s \<and> unat (number_nodes s') = 2 * unat (number_nodes s)
        \<and> mem_step m1 0 m') (oom m1)"
      using sz(1) n(1) cT(1) by (simp add: elems_def T_def)
  qed
  show ?thesis
  proof (cases "next_outcome m")
    case (Pair ok m1)
    show ?thesis
    proof (cases ok)
      case False
      then show ?thesis using Pair next_outcome_mem_ok [of m ok m1] by (auto simp: expand_def Let_def)
    next
      case True
      have st: "mem_step m 0 m1"
        using Pair True next_outcome_mem_ok [of m] next_outcome_live [of m] by (auto simp: mem_step_def)
      have "expand s m = rbind (relayout_nodes ?s 0 1 m1) (\<lambda>(s3, m3). Inr (True, s3, m3))"
        using True nodes re
        by (simp only: expand_def Let_def Pair prod.case sz n(1) fill block.distinct rbind_Inr
            not_True_eq_False if_False)
      then show ?thesis using re2 [of m1]
        by (auto elim!: gives_mono dest: mem_step_trans [OF st] oom_step [OF st])
    qed
  qed
qed

lemma put_node_sound:
  assumes "sound H s" "unat (used_nodes s) + 1 < length (slots s)"
  shows "gives (put_node s key (H key) m) (\<lambda>(rc, s', m'). rc = SET_TRUE \<and> sound H s'
      \<and> elems s' \<subseteq> insert key (elems s) \<and> number_nodes s' = number_nodes s
      \<and> unat (used_nodes s') \<le> Suc (unat (used_nodes s)) \<and> (mem_ok m \<longrightarrow> mem_ok m')) (oom m)"
  unfolding put_node_def
proof (rule gives_rbind [OF gives_mono [OF get_index_sound [OF assms(1)]]])
  show "oom m e" if False for e using that by simp
next
  note w = soundD [OF assms(1)]
  fix p :: "int \<times> nat"
  assume "case p of (rc, j) \<Rightarrow> j < length (slots s) \<and> rc = (if slots s ! j = None then SET_FALSE else SET_TRUE)
      \<and> (rc = SET_TRUE \<longrightarrow> key \<in> elems s)"
  then obtain rc j where p: "p = (rc, j)" "rc = (if slots s ! j = None then SET_FALSE else SET_TRUE)"
    and j: "j < length (slots s)" by auto
  show "gives (case p of (rc, index) \<Rightarrow> if rc = SET_FALSE then
        rbind (assign_node s key (H key) index m) (\<lambda>(s2, m2).
          Inr (SET_TRUE, s2\<lparr>used_nodes := used_nodes s2 + 1\<rparr>, m2)) else Inr (rc, s, m))
      (\<lambda>(rc, s', m'). rc = SET_TRUE \<and> sound H s' \<and> elems s' \<subseteq> insert key (elems s)
        \<and> number_nodes s' = number_nodes s \<and> unat (used_nodes s') \<le> Suc (unat (used_nodes s))
        \<and> (mem_ok m \<longrightarrow> mem_ok m')) (oom m)"
  proof (cases "slots s ! j = None")
    case True
    define x T where "x = \<lparr>node_key = key, node_hash = H key\<rparr>" and "T = (slots s)[j := Some x]"
    let ?s = "s\<lparr>nodes := vals T, used_nodes := used_nodes s + 1\<rparr>"
    have u: "unat (used_nodes s + 1) = Suc (unat (used_nodes s))"
      using w(6,7) unat_u64_inc [of "used_nodes s" "number_nodes s"] by simp
    have nth: "T ! p = (if p = j then Some x else slots s ! p)" if "p < length (slots s)" for p
      using that by (simp add: T_def nth_list_update)
    have c: "contents T = insert x (contents (slots s))"
    proof (intro set_eqI iffI)
      fix y assume "y \<in> contents T"
      then show "y \<in> insert x (contents (slots s))"
        using nth by (auto simp: contents_nth T_def split: if_splits)
    next
      fix y assume y: "y \<in> insert x (contents (slots s))"
      show "y \<in> contents T"
      proof (cases "y = x")
        case False
        then obtain p where p: "p < length (slots s)" "slots s ! p = Some y" using y by (auto simp: contents_nth)
        then have "p \<noteq> j" using True by auto
        then show ?thesis using p nth [OF p(1)] by (intro contentsI [of p]) (simp_all add: T_def)
      qed (use j in \<open>auto simp: T_def intro: contentsI [of j]\<close>)
    qed
    have "occ T = insert j (occ (slots s))" using j by (auto simp: T_def occ_def nth_list_update)
    then have o: "card (occ T) \<le> Suc (card (occ (slots s)))" by (simp add: card_insert_le_m1)
    have "hashed H T" using w(3) c by (simp add: hashed_def x_def)
    then have "sound H ?s" "elems ?s = insert key (elems s)"
      using soundI [of ?s T H] w o u assms(2) c by (simp_all add: T_def elems_def x_def)
    then have "gives (rbind (assign_node s key (H key) j m) (\<lambda>(s2, m2).
          Inr (SET_TRUE, s2\<lparr>used_nodes := used_nodes s2 + 1\<rparr>, m2)))
        (\<lambda>(rc, s', m'). rc = SET_TRUE \<and> sound H s' \<and> elems s' \<subseteq> insert key (elems s)
          \<and> number_nodes s' = number_nodes s \<and> unat (used_nodes s') \<le> Suc (unat (used_nodes s))
          \<and> (mem_ok m \<longrightarrow> mem_ok m')) (oom m)"
      by (intro gives_rbind [OF assign_node_gives [OF w(1) j]]) (auto simp: T_def x_def u mem_step_def)
    with True p show ?thesis by simp
  qed (use p assms(1) in auto)
qed

text \<open>After the load test: room for one more key, the same keys.\<close>

definition grown :: "set_hash_function \<Rightarrow> simple_set \<Rightarrow> mem \<Rightarrow> simple_set \<Rightarrow> mem \<Rightarrow> bool" where
  "grown H s m s1 m1 \<longleftrightarrow> sound H s1 \<and> elems s1 = elems s \<and> used_nodes s1 = used_nodes s
     \<and> unat (number_nodes s1) \<le> max (unat (number_nodes s)) (9 * unat (used_nodes s))
     \<and> unat (used_nodes s1) + 1 < length (slots s1) \<and> mem_step m 0 m1"

definition added :: "set_hash_function \<Rightarrow> simple_set \<Rightarrow> mem \<Rightarrow> cstr \<Rightarrow> int \<times> simple_set \<times> mem \<Rightarrow> bool" where
  "added H s m key = (\<lambda>(rc, s', m'). kept H s m {key} s' m'
     \<and> rc \<in> {SET_TRUE, SET_MALLOC_ERROR, SET_ALREADY_PRESENT})"

lemma grow_sound:
  assumes "sound H s" "unat (number_nodes s) < 2 ^ 60"
  shows "gives (if over_full s then expand s m else Inr (True, s, m))
    (\<lambda>(ok, s1, m1). if ok then grown H s m s1 m1 else s1 = s \<and> \<not> mem_ok m) (oom m)"
proof (cases "over_full s")
  case True
  note w = soundD [OF assms(1)]
  have "unat (used_nodes s) + 1 < length (slots s1)"
    if "sound H s1" "unat (number_nodes s1) = 2 * unat (number_nodes s)" for s1
    using soundD(7) [OF that(1)] that(2) w(4,6,7) by linarith
  then have "gives (expand s m) (\<lambda>(ok, s1, m1). if ok then grown H s m s1 m1 else s1 = s \<and> \<not> mem_ok m) (oom m)"
    using grow_bound [OF assms(1) True]
    by (intro gives_mono [OF expand_sound [OF assms]]) (auto simp: grown_def split: if_splits)
  with True show ?thesis by simp
next
  case False
  note w = soundD [OF assms(1)]
  have "3992 * unat (used_nodes s) \<le> 1000 * length (slots s)"
    using f32_quot_le_quarter [of "unat (used_nodes s)" "length (slots s)"] False w(4,7)
    by (simp add: over_full_def)
  then have "unat (used_nodes s) + 1 < length (slots s)" using w(4) by linarith
  with False assms(1) show ?thesis by (simp add: grown_def)
qed

lemma put_grown_sound:
  assumes "grown H s m s1 m1"
  shows "gives (put_node s1 key (H key) m1) (added H s m key) (oom m)"
proof -
  have g: "sound H s1" "unat (used_nodes s1) + 1 < length (slots s1)" "mem_step m 0 m1"
    using assms unfolding grown_def by blast+
  show ?thesis
    by (rule gives_mono [OF put_node_sound [OF g(1,2)]])
      (use assms mem_step_ok [OF g(3)] oom_step [OF g(3)] in \<open>auto simp: kept_def grown_def added_def\<close>)
qed

lemma added_same: "sound H s \<Longrightarrow> rc \<in> {SET_TRUE, SET_MALLOC_ERROR, SET_ALREADY_PRESENT} \<Longrightarrow>
    mem_ok m \<longrightarrow> mem_ok m' \<Longrightarrow> added H s m key (rc, s, m')"
  by (auto simp: added_def kept_def)

lemma set_add_sound:
  assumes "sound H s" "unat (number_nodes s) < 2 ^ 60"
  shows "gives (set_add s key m) (\<lambda>(rc, s', m'). kept H s m {key} s' m'
     \<and> rc \<in> {SET_TRUE, SET_MALLOC_ERROR, SET_ALREADY_PRESENT}) (oom m)"
proof -
  have look: "gives (rbind (get_index s key (H key) 0) (\<lambda>(rc, index). Inr rc)) (\<lambda>_. True) (oom m)"
    by (rule gives_rbind [OF gives_mono [OF get_index_sound [OF assms(1)]]]) auto
  have put: "gives (rbind (if over_full s then expand s m else Inr (True, s, m)) (\<lambda>(ok, s1, m1).
       if \<not> ok then Inr (SET_MALLOC_ERROR, s1, m1) else put_node s1 key (H key) m1)) (added H s m key) (oom m)"
  proof (rule gives_rbind [OF grow_sound [OF assms]], clarify)
    fix ok s1 m1 assume "if ok then grown H s m s1 m1 else s1 = s \<and> \<not> mem_ok m"
    then show "gives (if \<not> ok then Inr (SET_MALLOC_ERROR, s1, m1) else put_node s1 key (H key) m1)
        (added H s m key) (oom m)"
      using put_grown_sound [of H s m s1 m1 key] added_same [OF assms(1)] by (cases ok) simp_all
  qed
  have "gives (set_add_hash s key (H key) m) (added H s m key) (oom m)"
    unfolding set_add_hash_put set_contains_hash_def
    by (rule gives_rbind [OF look]) (use put added_same [OF assms(1)] in simp)
  then show ?thesis by (simp add: set_add_def call_hash_def soundD(2) [OF assms(1)] added_def)
qed

section \<open>Removal and clearing\<close>

lemma set_remove_sound:
  assumes "sound H s"
  shows "gives (set_remove s key m) (\<lambda>(rc, s', m'). kept H s m {} s' m' \<and> rc \<in> {SET_TRUE, SET_FALSE}
     \<and> (rc = SET_TRUE \<longrightarrow> key \<in> elems s)) (oom m)"
  unfolding set_remove_def call_hash_def soundD(2) [OF assms] option.case rbind_Inr
proof (rule gives_rbind [OF gives_mono [OF get_index_sound [OF assms]]])
  show "oom m e" if False for e using that by simp
next
  note w = soundD [OF assms]
  fix p :: "int \<times> nat"
  assume "case p of (rc, j) \<Rightarrow> j < length (slots s) \<and> rc = (if slots s ! j = None then SET_FALSE else SET_TRUE)
      \<and> (rc = SET_TRUE \<longrightarrow> key \<in> elems s)"
  then obtain rc j where p: "p = (rc, j)" "rc = (if slots s ! j = None then SET_FALSE else SET_TRUE)"
    and j: "j < length (slots s)" and k: "rc = SET_TRUE \<longrightarrow> key \<in> elems s" by auto
  let ?Q = "\<lambda>(rc, s', m'). kept H s m {} s' m' \<and> rc \<in> {SET_TRUE, SET_FALSE} \<and> (rc = SET_TRUE \<longrightarrow> key \<in> elems s)"
  show "gives (case p of (pos, index) \<Rightarrow> if pos \<noteq> SET_TRUE then Inr (pos, s, m)
      else rbind (free_index s index m) (\<lambda>(s1, m1). rbind (relayout_nodes s1 index 0 m1) (\<lambda>(s2, m2).
        Inr (SET_TRUE, s2\<lparr>used_nodes := used_nodes s2 - 1\<rparr>, m2)))) ?Q (oom m)"
  proof (cases "slots s ! j")
    case None
    then show ?thesis using p assms by (simp add: kept_def)
  next
    case (Some x)
    define T u where "T = (slots s)[j := None]" and "u = unat (used_nodes s) - 1"
    let ?s1 = "s\<lparr>nodes := vals T\<rparr>" and ?m1 = "dealloc (dealloc m)"
    have fr: "free_index s j m = Inr (?s1, ?m1)" using free_index_eq [OF w(1) j Some] by (simp add: T_def)
    have bk: "backs T ?s1" using backs_update [OF w(1)] by (simp add: T_def)
    have "occ T = occ (slots s) - {j}" using j by (auto simp: T_def occ_def nth_list_update split: if_splits)
    then have "card (occ T) = card (occ (slots s)) - 1" using j Some by (simp add: occ_def)
    moreover have "0 < card (occ (slots s))" using j Some by (auto simp: card_gt_0_iff occ_def)
    ultimately have u: "card (occ T) \<le> u" "u < length T" "0 < unat (used_nodes s)"
      using w(5,6) by (simp_all add: u_def T_def)
    have sub: "contents T \<subseteq> contents (slots s)"
      using set_update_subset_insert [of "slots s" j None] by (auto simp: T_def contents_def)
    have hs: "hashed H T" using w(3) sub by (auto simp: hashed_def)
    have un: "unat (used_nodes s - 1) = u" using u(3) by (simp add: u_def unat_minus_one unat_gt_0)
    have "gives (rbind (relayout_nodes ?s1 j 0 ?m1) (\<lambda>(s2, m2).
        Inr (SET_TRUE, s2\<lparr>used_nodes := used_nodes s2 - 1\<rparr>, m2))) ?Q (oom ?m1)"
    proof (rule gives_rbind [OF relayout_sound [OF bk hs u(1,2)]], clarify)
      fix s2 m2 assume "relaid ?s1 T u ?m1 s2 m2"
      then obtain T' where T': "s2 = ?s1\<lparr>nodes := vals T'\<rparr>" "length T' = length T" "contents T' = contents T"
        "card (occ T') \<le> u" "mem_step ?m1 0 m2" by (auto simp: relaid_def)
      let ?s3 = "s2\<lparr>used_nodes := used_nodes s2 - 1\<rparr>"
      have "hashed H T'" using hs T'(3) by (simp add: hashed_def)
      then have "sound H ?s3" "elems ?s3 \<subseteq> elems s"
        using soundI [of ?s3 T' H] T' w(2,4,7) u(2) un sub by (auto simp: T_def elems_def)
      then have "kept H s m {} ?s3 m2"
        using T'(1,5) un u(3) by (auto simp: kept_def mem_step_def u_def)
      then show "gives (Inr (SET_TRUE, ?s3, m2)) ?Q (oom ?m1)" using k p(2) Some by simp
    qed
    then have "gives (rbind (relayout_nodes ?s1 j 0 ?m1) (\<lambda>(s2, m2).
        Inr (SET_TRUE, s2\<lparr>used_nodes := used_nodes s2 - 1\<rparr>, m2))) ?Q (oom m)"
      by (rule gives_mono) (auto simp: oom_def)
    then show ?thesis using p Some fr by simp
  qed
qed

lemma set_clear_sound:
  assumes "sound H s"
  shows "gives (set_clear s m) (\<lambda>(rc, s', m'). rc = SET_TRUE \<and> kept H s m {} s' m' \<and> elems s' = {}) (oom m)"
proof (rule gives_mono [OF set_clear_gives [OF soundD(1) [OF assms]]], clarify)
  note w = soundD [OF assms]
  fix m' assume m': "mem_step m (- 2 * int (card (occ (slots s)))) m'"
  let ?s = "s\<lparr>nodes := vals (replicate (length (slots s)) None), used_nodes := 0\<rparr>"
  have "wf_set H ?s" "elems ?s = {}" using wf_set_empty [of ?s "length (slots s)" H] w(2,4,7) by simp_all
  then show "SET_TRUE = SET_TRUE \<and> kept H s m {} ?s m' \<and> elems ?s = {}"
    using wf_sound m' by (auto simp: kept_def mem_step_def)
qed simp

section \<open>Sequences of calls\<close>

text \<open>The keys a call may bring in, and the keys its return code says are stored.\<close>

definition brings :: "set_op \<Rightarrow> cstr set" where
  "brings c = (case c of Add k \<Rightarrow> {k} | _ \<Rightarrow> {})"

definition claims :: "set_op \<Rightarrow> int \<Rightarrow> cstr set" where
  "claims c rc = (case c of Contains k \<Rightarrow> if rc = SET_TRUE then {k} else {}
     | Remove k \<Rightarrow> if rc = SET_TRUE then {k} else {} | _ \<Rightarrow> {})"

definition set_codes :: "int set" where
  "set_codes = {SET_TRUE, SET_FALSE, SET_MALLOC_ERROR, SET_ALREADY_PRESENT}"

lemma set_contains_sound:
  assumes "sound H s"
  shows "gives (set_contains s key) (\<lambda>rc. rc \<in> {SET_TRUE, SET_FALSE} \<and> (rc = SET_TRUE \<longrightarrow> key \<in> elems s)) (\<lambda>_. False)"
  unfolding set_contains_def call_hash_def soundD(2) [OF assms] option.case rbind_Inr
  by (rule gives_rbind [OF get_index_sound [OF assms]]) (auto split: if_splits)

lemma set_do_sound:
  assumes "sound H s" "unat (number_nodes s) < 2 ^ 60"
  shows "gives (set_do c s m) (\<lambda>(rc, s', m'). kept H s m (brings c) s' m' \<and> rc \<in> set_codes
     \<and> claims c rc \<subseteq> elems s) (oom m)"
proof (cases c)
  case (Add k)
  then show ?thesis using set_add_sound [OF assms, of k m]
    by (auto simp: set_do_def brings_def claims_def set_codes_def elim!: gives_mono)
next
  case (Contains k)
  have "gives (rbind (set_contains s k) (\<lambda>rc. Inr (rc, s, m))) (\<lambda>(rc, s', m'). kept H s m (brings c) s' m'
      \<and> rc \<in> set_codes \<and> claims c rc \<subseteq> elems s) (oom m)"
    by (rule gives_rbind [OF gives_mono [OF set_contains_sound [OF assms(1)]]])
      (use assms(1) in \<open>auto simp: Contains kept_def brings_def claims_def set_codes_def\<close>)
  with Contains show ?thesis by (simp add: set_do_def)
next
  case (Remove k)
  then show ?thesis using set_remove_sound [OF assms(1), of k m]
    by (auto simp: set_do_def brings_def claims_def set_codes_def elim!: gives_mono)
next
  case Clear
  then show ?thesis using set_clear_sound [OF assms(1), of m]
    by (auto simp: set_do_def brings_def claims_def set_codes_def elim!: gives_mono)
qed

definition run_post ::
  "set_hash_function \<Rightarrow> cstr set \<Rightarrow> set_op list \<Rightarrow> int list \<times> simple_set \<times> mem \<Rightarrow> bool" where
  "run_post H A calls = (\<lambda>(rcs, s', m'). sound H s' \<and> length rcs = length calls \<and> set rcs \<subseteq> set_codes
     \<and> elems s' \<subseteq> A \<union> \<Union> (brings ` set calls)
     \<and> (\<forall>i < length calls. claims (calls ! i) (rcs ! i) \<subseteq> A \<union> \<Union> (brings ` set (take i calls))))"

lemma run_ops_sound:
  assumes "sound H s" "max (unat (number_nodes s)) (9 * (unat (used_nodes s) + length calls)) < 2 ^ 60"
    and "elems s \<subseteq> A"
  shows "gives (run_ops set_do calls s m) (run_post H A calls) (oom m)"
  using assms
proof (induction calls arbitrary: s m A)
  case (Cons c calls)
  have n: "unat (number_nodes s) < 2 ^ 60" using Cons.prems(2) by simp
  show ?case
    unfolding run_ops.simps
  proof (rule gives_rbind [OF set_do_sound [OF Cons.prems(1) n]], clarify)
    fix rc s1 m1
    assume k: "kept H s m (brings c) s1 m1" and rc: "rc \<in> set_codes" "claims c rc \<subseteq> elems s"
    have s1: "sound H s1" "elems s1 \<subseteq> A \<union> brings c"
      "max (unat (number_nodes s1)) (9 * (unat (used_nodes s1) + length calls)) < 2 ^ 60"
      using k Cons.prems(2,3) by (auto simp: kept_def)
    have "gives (rbind (run_ops set_do calls s1 m1) (\<lambda>(rcs, s2, m2). Inr (rc # rcs, s2, m2)))
        (run_post H A (c # calls)) (oom m1)"
    proof (rule gives_rbind [OF Cons.IH [OF s1(1,3,2)]], clarify)
      fix rcs s2 m2 assume r: "run_post H (A \<union> brings c) calls (rcs, s2, m2)"
      have "claims ((c # calls) ! i) ((rc # rcs) ! i) \<subseteq> A \<union> \<Union> (brings ` set (take i (c # calls)))"
        if i: "i < length (c # calls)" for i
      proof (cases i)
        case 0
        then show ?thesis using rc(2) Cons.prems(3) by auto
      next
        case (Suc j)
        then have "claims (calls ! j) (rcs ! j) \<subseteq> (A \<union> brings c) \<union> \<Union> (brings ` set (take j calls))"
          using r i by (simp add: run_post_def)
        then show ?thesis using Suc by auto
      qed
      then show "gives (Inr (rc # rcs, s2, m2)) (run_post H A (c # calls)) (oom m1)"
        using r rc(1) by (auto simp: run_post_def)
    qed
    then show "gives (rbind (run_ops set_do calls s1 m1) (\<lambda>(rcs, s2, m2). Inr (rc # rcs, s2, m2)))
        (run_post H A (c # calls)) (oom m)"
      by (rule gives_mono) (use k in \<open>auto simp: oom_def kept_def\<close>)
  qed
qed (auto simp: run_post_def)

section \<open>Properties\<close>

text \<open>
  C2.  Memory safety: from a new set of at least two slots, no sequence of insertions, lookups, removals and clearings
  reads or writes out of bounds, uninitialised or freed memory, whichever allocations fail; the
  only way not to return is the null pointer of a failed allocation of a node.  Every code is
  one of \<open>SET_TRUE\<close>, \<open>SET_FALSE\<close>, \<open>SET_MALLOC_ERROR\<close> and \<open>SET_ALREADY_PRESENT\<close>, and a lookup or
  removal succeeds for keys only that an earlier call has added.
\<close>

theorem set_memory_safe:
  assumes "2 \<le> unat num_els" "unat num_els < 2 ^ 60" "9 * length calls < 2 ^ 60"
    and "set_init_alt s0 num_els hash m0 = Inr (SET_TRUE, s, m)"
  shows "gives (run_ops set_do calls s m) (\<lambda>(rcs, s', m'). length rcs = length calls
     \<and> set rcs \<subseteq> {SET_TRUE, SET_FALSE, SET_MALLOC_ERROR, SET_ALREADY_PRESENT}
     \<and> (\<forall>i < length calls. \<forall>k. calls ! i \<in> {Contains k, Remove k} \<longrightarrow> rcs ! i = SET_TRUE \<longrightarrow>
          Add k \<in> set (take i calls))) (\<lambda>e. e = NullDeref \<and> \<not> mem_ok m)"
proof -
  have i: "sound (case hash of None \<Rightarrow> default_hash | Some h \<Rightarrow> h) s" "elems s = {}" "used_nodes s = 0"
    "number_nodes s = num_els"
    using set_init_alt_gives [OF assms(1,2), of s0 hash m0] assms(4) wf_sound by (simp_all add: init_post_def)
  show ?thesis
  proof (rule gives_mono [OF run_ops_sound [OF i(1), of calls "{}" m]])
    fix p assume p: "run_post (case hash of None \<Rightarrow> default_hash | Some h \<Rightarrow> h) {} calls p"
    obtain rcs s' m' where e: "p = (rcs, s', m')" by (cases p)
    have "Add k \<in> set (take i calls)"
      if "i < length calls" "calls ! i \<in> {Contains k, Remove k}" "rcs ! i = SET_TRUE" for i k
    proof -
      have "claims (calls ! i) (rcs ! i) = {k}" using that(2,3) by (auto simp: claims_def)
      moreover have "claims (calls ! i) (rcs ! i) \<subseteq> {} \<union> \<Union> (brings ` set (take i calls))"
        using p that(1) unfolding e run_post_def by blast
      ultimately obtain c where "c \<in> set (take i calls)" "k \<in> brings c" by blast
      then have "c = Add k" by (simp add: brings_def split: set_op.splits)
      then show ?thesis using \<open>c \<in> set (take i calls)\<close> by simp
    qed
    then show "case p of (rcs, s', m') \<Rightarrow> length rcs = length calls
     \<and> set rcs \<subseteq> {SET_TRUE, SET_FALSE, SET_MALLOC_ERROR, SET_ALREADY_PRESENT}
     \<and> (\<forall>i < length calls. \<forall>k. calls ! i \<in> {Contains k, Remove k} \<longrightarrow> rcs ! i = SET_TRUE \<longrightarrow>
          Add k \<in> set (take i calls))"
      using p by (auto simp: e run_post_def set_codes_def)
  qed (use i(2-4) assms(2,3) in \<open>auto simp: oom_def\<close>)
qed

theorem set_memory_safe_witness:
  "\<exists>s m. set_init_alt sample0 4 None mem0 = Inr (SET_TRUE, s, m)
     \<and> gives (run_ops set_do [Add (cs ''a.com''), Add (cs ''e.com''), Remove (cs ''a.com''), Add (cs ''e.com''),
         Contains (cs ''b.com'')] s m) (\<lambda>(rcs, s', m'). length rcs = 5) (\<lambda>e. e = NullDeref)"
proof -
  obtain s m where i: "set_init_alt sample0 4 None mem0 = Inr (SET_TRUE, s, m)"
    using set_init_alt_gives [of 4 sample0 None mem0] by (auto simp: gives_total init_post_def split: if_splits)
  from set_memory_safe [OF _ _ _ i, of "[Add (cs ''a.com''), Add (cs ''e.com''), Remove (cs ''a.com''),
      Add (cs ''e.com''), Contains (cs ''b.com'')]"]
  have "gives (run_ops set_do [Add (cs ''a.com''), Add (cs ''e.com''), Remove (cs ''a.com''), Add (cs ''e.com''),
      Contains (cs ''b.com'')] s m) (\<lambda>(rcs, s', m'). length rcs = 5) (\<lambda>e. e = NullDeref)"
    by (auto elim!: gives_mono)
  with i show ?thesis by blast
qed

text \<open>Once the probe has an answer, more fuel does not change it.\<close>

lemma get_index_loop_fuel:
  "get_index_loop fuel s key hash len idx index i = Inr r \<Longrightarrow> fuel \<le> fuel' \<Longrightarrow>
    get_index_loop fuel' s key hash len idx index i = Inr r"
proof (induction fuel arbitrary: i fuel')
  case (Suc fuel)
  then obtain f where f: "fuel' = Suc f" "fuel \<le> f" by (cases fuel') auto
  show ?case
  proof (cases "rd (nodes s) i")
    case (Inr n)
    show ?thesis
    proof (cases n)
      case None
      then show ?thesis using Suc.prems(1) Inr f(1) by simp
    next
      case (Some x)
      define hit where "hit \<longleftrightarrow> hash = node_hash x \<and> len = c_strlen (node_key x) \<and> c_strncmp len key (node_key x) = 0"
      define i' where "i' = (if i + 1 = unat (number_nodes s) then 0 else i + 1)"
      have step: "get_index_loop (Suc k) s key hash len idx index i = (if hit then Inr (SET_TRUE, i)
          else if i' = idx then Inr (SET_CIRCULAR_ERROR, index) else get_index_loop k s key hash len idx index i')" for k
        unfolding get_index_loop.simps Inr rbind_Inr Some option.case Let_def hit_def i'_def ..
      then show ?thesis using Suc.IH [of i' f] Suc.prems(1) f by (simp split: if_splits)
    qed
  qed (use Suc.prems(1) in simp)
qed simp

text \<open>
  C29.  The endless loop of \<open>__get_index\<close> ends: in any initialised table, full or not, it visits
  each slot at most once, and allowing it more iterations than there are slots changes nothing.
  It returns \<open>SET_CIRCULAR_ERROR\<close> only when no slot is free.
\<close>

theorem probe_terminates:
  assumes "nodes s = vals T" "length T = unat (number_nodes s)" "number_nodes s \<noteq> 0"
  shows "\<exists>rc j. get_index s key hash index = Inr (rc, j) \<and> rc \<in> {SET_TRUE, SET_FALSE, SET_CIRCULAR_ERROR}
     \<and> (rc = SET_CIRCULAR_ERROR \<longrightarrow> None \<notin> set T)
     \<and> (\<forall>fuel \<ge> length T. let idx = unat (hash mod number_nodes s) in
          get_index_loop fuel s key hash (c_strlen key) idx index idx = Inr (rc, j))"
proof -
  have bk: "backs T s" using assms by (simp add: backs_def)
  obtain rc j where r: "get_index s key hash index = Inr (rc, j)"
    and p: "index_post T hash key index (unat hash mod length T) (rc, j)"
    using get_index_post [OF bk, of key hash index] by (auto simp: gives_total)
  have "rc \<in> {SET_TRUE, SET_FALSE, SET_CIRCULAR_ERROR}" using p by (auto simp: index_post_def split: if_splits)
  moreover have "None \<notin> set T" if "rc = SET_CIRCULAR_ERROR"
    using p that by (auto simp: index_post_def in_set_conv_nth)
  moreover define idx where "idx = unat (hash mod number_nodes s)"
  have "get_index_loop (length T) s key hash (c_strlen key) idx index idx = Inr (rc, j)"
    using r unfolding get_index_def Let_def idx_def [symmetric] if_not_P [OF assms(3)] assms(2) .
  then have "\<forall>fuel \<ge> length T. get_index_loop fuel s key hash (c_strlen key) idx index idx = Inr (rc, j)"
    using get_index_loop_fuel by blast
  ultimately show ?thesis using r unfolding Let_def idx_def by blast
qed

theorem probe_terminates_witness:
  "\<exists>rc j. get_index sample2 (cs ''b.com'') 7 0 = Inr (rc, j) \<and> rc \<in> {SET_TRUE, SET_FALSE}"
  using probe_terminates [of sample2 "slots sample2" "cs ''b.com''" 7 0]
  by (auto simp: sample2_def slots_def)

end
