(* ===== verification/SetLimits.thy ===== *)
theory SetLimits
  imports SetSpec
begin

text \<open>
  When a set grows, and what becomes of the error codes of \<open>set.c\<close>: an allocation that is not
  checked, insertions whose failure a caller ignores, and a table without a free slot.
\<close>

section \<open>Growth\<close>

text \<open>Below \<open>2 ^ 24\<close> slots the single-precision load test is exact.\<close>

lemma over_full_iff:
  assumes "wf_set H s" "unat (number_nodes s) < 2 ^ 24"
  shows "over_full s \<longleftrightarrow> unat (number_nodes s) < 4 * card (elems s)"
  using f32_quot_exact [of "unat (used_nodes s)" "unat (number_nodes s)"] assms(2)
    wf_setD(4,5,9) [OF assms(1)] card_elems(1) [OF assms(1)] by (simp add: over_full_def)

text \<open>
  C30.  When no allocation fails and the table has fewer than \<open>2 ^ 24\<close> slots, \<open>set_add\<close>
  doubles the table exactly when the key is new and more than a quarter of the slots are used;
  otherwise, in particular for a stored key, the table keeps its size.
\<close>

theorem growth_threshold:
  assumes "wf_set H s" "unat (number_nodes s) < 2 ^ 24" "mem_ok m"
  shows "\<exists>rc s' m'. set_add s key m = Inr (rc, s', m') \<and> unat (number_nodes s') =
     (if key \<notin> elems s \<and> unat (number_nodes s) < 4 * card (elems s) then 2 else 1) * unat (number_nodes s)"
proof -
  obtain rc s' m' where r: "set_add s key m = Inr (rc, s', m')" and p: "add_post H s key m (rc, s', m')"
    using set_add_gives [OF assms(1), of key m] assms(2,3)
    by (cases "set_add s key m") (auto simp: oom_def)
  have "unat (number_nodes s') =
     (if key \<notin> elems s \<and> unat (number_nodes s) < 4 * card (elems s) then 2 else 1) * unat (number_nodes s)"
    using p assms(3) over_full_iff [OF assms(1,2)] by (simp add: add_post_def split: if_splits)
  with r show ?thesis by blast
qed

theorem growth_threshold_witness:
  "(\<exists>rc s' m'. set_add sample1 (cs ''e.com'') mem0 = Inr (rc, s', m') \<and> unat (number_nodes s') = 4)
   \<and> (\<exists>rc s' m'. set_add sample2 (cs ''i.com'') mem0 = Inr (rc, s', m') \<and> unat (number_nodes s') = 8)"
  using growth_threshold [OF sample_wf(2) _ mem0_ok(1), of "cs ''e.com''"]
    growth_threshold [OF sample_wf(3) _ mem0_ok(1), of "cs ''i.com''"]
  by (simp_all add: sample_size sample_elems cs_def card_insert_if)

section \<open>Failed allocations\<close>

text \<open>The insertion, when the two requests of a node are served and when they are not.\<close>

lemma put_node_alloc:
  assumes "wf_set H s" "key \<notin> elems s" "unat (used_nodes s) + 1 < length (slots s)"
  shows "case (alloc m) of (a, m1) \<Rightarrow> (case alloc m1 of (b, m2) \<Rightarrow>
     if a \<and> b then \<exists>s'. put_node s key (H key) m = Inr (SET_TRUE, s', m2) \<and> wf_set H s'
        \<and> elems s' = insert key (elems s) \<and> number_nodes s' = number_nodes s
     else put_node s key (H key) m = Inl NullDeref)"
proof -
  obtain a m1 b m2 where al: "alloc m = (a, m1)" "alloc m1 = (b, m2)" by (meson surj_pair)
  obtain j where g: "get_index s key (H key) 0 = Inr (SET_FALSE, j)" "slots s ! j = None" "j < length (slots s)"
    and st: "stops (slots s) (\<lambda>y. node_key y = key) (unat (H key) mod length (slots s)) j"
    using get_index_wf [OF assms(1), of key 0] assms(2) by (auto simp: gives_total)
  note ins = wf_set_insert [OF assms st g(2)]
  have "wr (nodes s) j (Some \<lparr>node_key = key, node_hash = H key\<rparr>)
      = Inr (vals ((slots s)[j := Some \<lparr>node_key = key, node_hash = H key\<rparr>]))"
    using backsD(1) [OF wf_setD(1) [OF assms(1)]] g(3) by simp
  then show ?thesis using ins al g(1) by (cases a; cases b) (simp_all add: put_node_def assign_node_def)
qed

text \<open>
  The two allocations of a node are not checked: when the set need not grow, a new key is stored
  exactly when both are served, and otherwise \<open>set_add\<close> dereferences a null pointer, where the
  header promises \<open>SET_MALLOC_ERROR\<close>.
\<close>

lemma set_add_alloc_unchecked:
  assumes "wf_set H s" "key \<notin> elems s" "\<not> over_full s"
  shows "set_add s key m = Inl NullDeref \<longleftrightarrow> \<not> (fst (alloc m) \<and> fst (alloc (snd (alloc m))))"
proof -
  have "set_add s key m = put_node s key (H key) m"
    using assms(2,3) set_add_hash_eq [OF assms(1), of key m]
    by (simp add: set_add_hash_put set_contains_hash_wf [OF assms(1)])
  then show ?thesis using put_node_alloc [OF assms(1,2) room_before_add [OF assms(1,3)], of m]
    by (auto split: prod.splits if_splits)
qed

lemma set_add_alloc_unchecked_witness:
  "set_add sample0 (cs ''a.com'') \<lparr>outcomes = [False], live = 0\<rparr> = Inl NullDeref"
proof -
  have "\<not> over_full sample0" by code_simp
  then show ?thesis using set_add_alloc_unchecked [OF sample_wf(1), of "cs ''a.com''"]
    by (simp add: sample_elems alloc_def next_outcome_def)
qed

text \<open>An empty set of two slots.\<close>

definition sample_two :: simple_set where
  "sample_two = \<lparr>nodes = vals [None, None], number_nodes = 2, used_nodes = 0, hash_function = Some default_hash\<rparr>"

text \<open>
  An allocator that serves the nodes of the first \<open>k\<close> keys and refuses all the rest, where
  \<open>k\<close> is the number of keys a table of \<open>N\<close> slots takes before it has to grow: the set
  \<open>r\<close> was offered the keys \<open>K\<close>, and at least \<open>L\<close> refusals are left.
\<close>

definition keys_before_growth :: "nat \<Rightarrow> nat" where
  "keys_before_growth N = N div 4 + 1"

definition starved :: "set_hash_function \<Rightarrow> nat \<Rightarrow> nat \<Rightarrow> cstr set \<Rightarrow> simple_set \<times> mem \<Rightarrow> bool" where
  "starved H N L K = (\<lambda>(r, m). let k = keys_before_growth N; c = card (elems r) in
     wf_set H r \<and> unat (number_nodes r) = N \<and> elems r \<subseteq> K \<and> c \<le> k \<and> (c < k \<longrightarrow> elems r = K)
     \<and> (\<exists>L' \<ge> L. outcomes m = replicate (2 * (k - c)) True @ replicate L' False))"

lemma alloc_outcomes: "outcomes m = b # os \<Longrightarrow> \<exists>m'. alloc m = (b, m') \<and> outcomes m' = os"
  by (simp add: alloc_def next_outcome_def)

lemma starved_add:
  assumes "starved H N (Suc L) K (r, m)" "N < 2 ^ 24"
  shows "\<exists>rc r' m'. set_add_hash r key (H key) m = Inr (rc, r', m') \<and> starved H N L (insert key K) (r', m')"
proof -
  define k c where "k = keys_before_growth N" and "c = card (elems r)"
  note d = k_def [symmetric] c_def [symmetric]
  have ce: "card (elems r) = c" "keys_before_growth N = k" by (simp_all add: d)
  have s: "wf_set H r" "unat (number_nodes r) = N" "elems r \<subseteq> K" "c \<le> k" "c < k \<longrightarrow> elems r = K"
    using assms(1) by (simp_all add: starved_def Let_def d)
  obtain L' where L': "Suc L \<le> L'" "outcomes m = replicate (2 * (k - c)) True @ replicate L' False"
    using assms(1) by (auto simp: starved_def Let_def d)
  have over: "over_full r \<longleftrightarrow> c = k"
    using over_full_iff [OF s(1)] s(2,4) assms(2) by (auto simp: k_def c_def keys_before_growth_def)
  note look = set_contains_hash_wf [OF s(1), of key]
  consider (stored) "key \<in> elems r" | (new) "key \<notin> elems r" "c < k" | (refused) "key \<notin> elems r" "c = k"
    using s(4) by linarith
  then show ?thesis
  proof cases
    case stored
    then have "starved H N L (insert key K) (r, m)"
      using s L' by (auto simp: starved_def Let_def ce insert_absorb intro!: exI [of _ L'])
    with stored show ?thesis by (simp add: set_add_hash_put look)
  next
    case new
    obtain j where j: "k - c = Suc j" using new(2) by (metis Suc_diff_Suc)
    then have "outcomes m = True # True # replicate (2 * j) True @ replicate L' False" using L'(2) by simp
    then obtain m1 where "alloc m = (True, m1)" "outcomes m1 = True # replicate (2 * j) True @ replicate L' False"
      using alloc_outcomes by blast
    then obtain m2 where al: "alloc m = (True, m1)" "alloc m1 = (True, m2)"
      "outcomes m2 = replicate (2 * j) True @ replicate L' False" using alloc_outcomes by blast
    have nf: "\<not> over_full r" using over new(2) by simp
    obtain s' where s': "put_node r key (H key) m = Inr (SET_TRUE, s', m2)" "wf_set H s'"
      "elems s' = insert key (elems r)" "number_nodes s' = number_nodes r"
      using put_node_alloc [OF s(1) new(1) room_before_add [OF s(1) nf], of m] al by auto
    have "card (elems s') = Suc c" using s'(3) new(1) card_elems(2) [OF s(1)] by (simp add: c_def)
    then have "starved H N L (insert key K) (s', m2)"
      using s' s(2,5) new(2) L'(1) al(3) j by (auto simp: starved_def Let_def ce intro!: exI [of _ L'])
    with s'(1) new(1) nf show ?thesis by (simp add: set_add_hash_put look)
  next
    case refused
    obtain L'' where l: "L' = Suc L''" "L \<le> L''" using L'(1) by (cases L') auto
    let ?m = "m\<lparr>outcomes := replicate L'' False\<rparr>"
    have "expand r m = Inr (False, r, ?m)"
      using L'(2) refused(2) l(1) by (simp add: expand_def Let_def next_outcome_def)
    moreover have "starved H N L (insert key K) (r, ?m)"
      using s refused l(2) by (auto simp: starved_def Let_def ce)
    ultimately show ?thesis using refused over by (simp add: set_add_hash_put look)
  qed
qed

lemma starved_loop:
  assumes "wf_set H s" "N < 2 ^ 24" "starved H N (unat (number_nodes s) + L) K st"
  shows "\<exists>st'. each_node s add_node st = Inr st' \<and> starved H N L (K \<union> elems s) st'"
proof -
  define T n where "T = slots s" and "n = unat (number_nodes s)"
  note w = wf_setD [OF assms(1), folded T_def]
  have n: "length T = n" using w(9) by (simp add: n_def)
  have nd: "nodes s = vals T" using backsD(1) [OF w(1)] .
  have "gives (run_loop (on_node s add_node) 0 n st) (starved H N L (K \<union> elems s)) (\<lambda>_. False)"
  proof (rule gives_run_loop [where P = "\<lambda>i. starved H N (n - i + L) (K \<union> node_key ` seen i T)"])
    fix i t assume i: "i < 0 + n" and t: "starved H N (n - i + L) (K \<union> node_key ` seen i T) t"
    obtain r m where rm: "t = (r, m)" by (cases t)
    have e: "n - i + L = Suc (n - Suc i + L)" using i by simp
    show "gives (on_node s add_node i t) (\<lambda>c. case c of
        Next t' \<Rightarrow> starved H N (n - Suc i + L) (K \<union> node_key ` seen (Suc i) T) t'
      | Break t' \<Rightarrow> starved H N L (K \<union> elems s) t') (\<lambda>_. False)"
    proof (cases "T ! i")
      case None
      have "starved H N (n - Suc i + L) (K \<union> node_key ` seen i T) t"
        using t unfolding e starved_def Let_def rm by auto
      with None show ?thesis using i n nd by (simp add: on_node_def seen_Suc)
    next
      case (Some x)
      have "node_hash x = H (node_key x)" using w(3) contentsI [of i T x] i n Some by (simp add: hashed_def)
      then obtain rc r' m' where "set_add_hash r (node_key x) (node_hash x) m = Inr (rc, r', m')"
        "starved H N (n - Suc i + L) (insert (node_key x) (K \<union> node_key ` seen i T)) (r', m')"
        using starved_add [OF t [unfolded e rm] assms(2), of "node_key x"] by auto
      with Some show ?thesis using i n nd by (simp add: on_node_def add_node_def rm seen_Suc)
    qed
  next
    fix t assume "starved H N (n - (0 + n) + L) (K \<union> node_key ` seen (0 + n) T) t"
    then show "starved H N L (K \<union> elems s) t" by (simp add: n [symmetric] elems_def T_def)
  qed (use assms(3) in \<open>simp add: n_def\<close>)
  then show ?thesis by (simp add: each_node_def n_def gives_total)
qed

text \<open>
  C31.  \<open>set_union\<close> ignores the codes of its insertions.  On three well-formed sets of one hash
  function, the result empty and with fewer than \<open>2 ^ 24\<close> slots: when the allocator serves the nodes
  of the keys the result takes before it has to grow (one more than a quarter of its slots) and
  refuses every later request, \<open>set_union\<close> returns \<open>SET_TRUE\<close>, and of a larger union exactly that
  many keys are stored.
\<close>

theorem set_union_drops_keys:
  assumes "operands H res s1 s2" "unat (number_nodes res) < 2 ^ 24"
    and "k = keys_before_growth (unat (number_nodes res))" "k < card (elems s1 \<union> elems s2)"
    and "outcomes m = replicate (2 * k) True @ replicate L False"
    and "unat (number_nodes s1) + unat (number_nodes s2) \<le> L"
  shows "\<exists>r m'. set_union res s1 s2 m = Inr (SET_TRUE, r, m')
     \<and> card (elems r) = k \<and> elems r \<subset> elems s1 \<union> elems s2"
proof -
  note o = operandsD [OF assms(1)]
  let ?N = "unat (number_nodes res)"
  have "wf_set H res" using assms(1) by (simp add: operands_def)
  then have "starved H ?N (unat (number_nodes s1) + unat (number_nodes s2)) {} (res, m)"
    using o assms(3,5,6) by (auto simp: starved_def Let_def)
  then obtain st where l1: "each_node s1 add_node (res, m) = Inr st"
    and st: "starved H ?N (unat (number_nodes s2) + 0) (elems s1) st"
    using starved_loop [OF conjunct1 [OF o] assms(2), of "unat (number_nodes s2)" "{}" "(res, m)"]
    by (auto simp del: split_paired_Ex)
  obtain r m' where l2: "each_node s2 add_node st = Inr (r, m')"
    and e: "starved H ?N 0 (elems s1 \<union> elems s2) (r, m')"
    using starved_loop [OF _ assms(2) st] o by auto
  have "card (elems r) = k" "elems r \<subseteq> elems s1 \<union> elems s2"
    using e assms(3,4) unfolding starved_def Let_def by (auto simp: le_less)
  then have "card (elems r) = k \<and> elems r \<subset> elems s1 \<union> elems s2" using assms(4) by auto
  then show ?thesis using l1 l2 o by (simp add: set_union_def)
qed

theorem set_union_drops_keys_witness:
  "\<exists>r m'. set_union sample_two sample1 sample2 \<lparr>outcomes = replicate 2 True @ replicate 8 False, live = 0\<rparr>
       = Inr (SET_TRUE, r, m')
     \<and> card (elems r) = 1 \<and> elems r \<subset> {cs ''a.com'', cs ''e.com''}"
proof -
  have "wf_set default_hash sample_two" by (rule wf_set_check, simp add: sample_two_def, code_simp)
  then have o: "operands default_hash sample_two sample1 sample2"
    by (simp add: operands_def sample_wf small_def sample_size) (simp add: sample_two_def)
  have u: "elems sample1 \<union> elems sample2 = {cs ''a.com'', cs ''e.com''}" by (auto simp: sample_elems)
  let ?m = "\<lparr>outcomes = replicate 2 True @ replicate 8 False, live = 0\<rparr>"
  have c: "card {cs ''a.com'', cs ''e.com''} = 2" by (simp add: cs_def card_insert_if)
  have n: "unat (number_nodes sample_two) = 2" by (simp add: sample_two_def)
  then have "unat (number_nodes sample_two) < 2 ^ 24" "1 = keys_before_growth (unat (number_nodes sample_two))"
    by (simp_all add: keys_before_growth_def)
  moreover have "1 < card (elems sample1 \<union> elems sample2)" unfolding u c by simp
  moreover have "outcomes ?m = replicate (2 * 1) True @ replicate 8 False" by (simp only: mem.simps mult_1_right)
  moreover have "unat (number_nodes sample1) + unat (number_nodes sample2) \<le> 8" by (simp add: sample_size)
  ultimately show ?thesis unfolding u [symmetric] by (rule set_union_drops_keys [OF o])
qed

section \<open>A table without a free slot\<close>

text \<open>
  C12.  A table without a free slot: the lookup of a key it does not hold returns
  \<open>SET_CIRCULAR_ERROR\<close>, and \<open>set_is_subset\<close>, which tests for \<open>SET_FALSE\<close> only, calls
  every well-formed set a subset of it.
\<close>

theorem full_set_includes_all:
  assumes "backs T t" "\<forall>r < length T. T ! r \<noteq> None" "hash_function t = Some H" "wf_set K s"
  shows "(key \<notin> elems t \<longrightarrow> set_contains t key = Inr SET_CIRCULAR_ERROR) \<and> set_is_subset s t = Inr SET_TRUE"
proof -
  note b = backsD [OF assms(1)]
  have full: "gives (get_index t k h 0) (\<lambda>(rc, j). rc = SET_CIRCULAR_ERROR \<or> rc = SET_TRUE \<and> k \<in> elems t) (\<lambda>_. False)" for k h
  proof (rule gives_mono [OF get_index_post [OF assms(1), of k h 0]])
    fix p :: "int \<times> nat"
    assume p: "index_post T h k 0 (unat h mod length T) p"
    obtain rc j where e: "p = (rc, j)" by (cases p)
    show "case p of (rc, j) \<Rightarrow> rc = SET_CIRCULAR_ERROR \<or> rc = SET_TRUE \<and> k \<in> elems t"
    proof (cases "rc = SET_CIRCULAR_ERROR")
      case False
      then have rc: "rc = (if T ! j = None then SET_FALSE else SET_TRUE)"
        and st: "stops T (\<lambda>y. h = node_hash y \<and> k = node_key y) (unat h mod length T) j"
        using p e by (auto simp: index_post_def)
      have j: "j < length T" using st by (simp add: stops_def)
      then obtain y where y: "T ! j = Some y" using assms(2) by blast
      then have "k = node_key y" using st by (simp add: stops_def)
      then show ?thesis using rc e y contentsI [OF j y] b(5) by (auto simp: elems_def)
    qed (use e in simp)
  qed simp
  have "gives (set_contains_hash t k h) (\<lambda>rc. rc \<noteq> SET_FALSE) (\<lambda>_. False)" for k h
    unfolding set_contains_hash_def by (rule gives_rbind [OF full]) auto
  then have node: "\<exists>rc. set_contains_hash t k h = Inr rc \<and> rc \<noteq> SET_FALSE" for k h by (simp add: gives_total)
  have "gives (for_loop (on_node s (subset_node t)) 0 (unat (number_nodes s)) ()) (\<lambda>c. c = Next ()) (\<lambda>_. False)"
  proof (rule on_node_loop_gives [OF wf_setD(1) [OF assms(4)], where P = "\<lambda>_ _. True" and R = "\<lambda>_. False"])
    fix D :: "simple_set_node set" and x u
    show "gives (subset_node t x u) (\<lambda>c. case c of Next _ \<Rightarrow> True | Break _ \<Rightarrow> False) (\<lambda>_. False)"
      using node [of "node_key x" "node_hash x"] by (auto simp: subset_node_def)
  qed simp_all
  then have "set_is_subset s t = Inr SET_TRUE" by (auto simp: set_is_subset_def gives_total)
  moreover have "set_contains t key = Inr SET_CIRCULAR_ERROR" if "key \<notin> elems t"
    using full [of key "H key"] that assms(3) by (auto simp: set_contains_def call_hash_def gives_total)
  ultimately show ?thesis by blast
qed

text \<open>A set initialised with one slot is full after its first key.\<close>

theorem full_set_includes_all_witness:
  "\<exists>s0 m0 t m1. set_init_alt sample0 1 None mem0 = Inr (SET_TRUE, s0, m0)
     \<and> set_add s0 (cs ''a.com'') m0 = Inr (SET_TRUE, t, m1)
     \<and> set_contains t (cs ''b.com'') = Inr SET_CIRCULAR_ERROR \<and> set_is_subset sample2 t = Inr SET_TRUE"
proof -
  let ?t = "\<lparr>nodes = vals [Some (sample_node ''a.com'')], number_nodes = 1, used_nodes = 1,
    hash_function = Some default_hash\<rparr>"
  let ?s = "\<lparr>nodes = vals [None], number_nodes = 1, used_nodes = 0, hash_function = Some default_hash\<rparr> :: simple_set"
  have i: "set_init_alt sample0 1 None mem0 = Inr (SET_TRUE, ?s, \<lparr>outcomes = [], live = 1\<rparr>)"
    by (simp add: set_init_alt_def alloc_def next_outcome_def mem0_def null_fill_def run_loop_def wr_def sample0_def)
  have "\<not> over_full ?s" by code_simp
  then have a: "set_add ?s (cs ''a.com'') \<lparr>outcomes = [], live = 1\<rparr> = Inr (SET_TRUE, ?t, \<lparr>outcomes = [], live = 3\<rparr>)"
    by (simp add: set_add_def call_hash_def set_add_hash_def set_contains_hash_def get_index_def Let_def
        assign_node_def alloc_def next_outcome_def sample_node_def rd_def wr_def)
  have "backs [Some (sample_node ''a.com'')] ?t" "cs ''b.com'' \<notin> elems ?t"
    by (simp_all add: backs_def elems_def slots_def contents_code) (simp add: sample_node_def cs_def)
  then show ?thesis
    using full_set_includes_all [of "[Some (sample_node ''a.com'')]" ?t default_hash default_hash sample2 "cs ''b.com''"]
      sample_wf(3) i a by auto
qed

end
