(* ===== verification/SetAlias.thy ===== *)
theory SetAlias
  imports SetSpec
begin

text \<open>
  The operations of \<open>set.c\<close> on three sets, with the sets as objects in memory: the arguments
  are addresses, and any two of them may be the same.  The loop reads the bound and the slots of
  its set again in each iteration, and the lookups see what was inserted before.
\<close>

section \<open>Definitions\<close>

type_synonym sets = "nat \<Rightarrow> simple_set"

text \<open>A loop that need not end is \<open>None\<close> when it does not.\<close>

definition obind :: "'a res option \<Rightarrow> ('a \<Rightarrow> 'b res option) \<Rightarrow> 'b res option" where
  "obind r k = (case r of None \<Rightarrow> None | Some (Inl e) \<Rightarrow> Some (Inl e) | Some (Inr x) \<Rightarrow> k x)"

lemma obind_simps [simp]: "obind None k = None" "obind (Some (Inl e)) k = Some (Inl e)"
  "obind (Some (Inr x)) k = k x"
  by (simp_all add: obind_def)

text \<open>
  The loop over the object at \<open>a\<close>, from slot \<open>i\<close> on.  The body can change that object, also
  its size.
\<close>

definition on_node_at ::
  "nat \<Rightarrow> (simple_set_node \<Rightarrow> sets \<times> mem \<Rightarrow> (sets \<times> mem) res) \<Rightarrow> nat \<Rightarrow> sets \<times> mem \<Rightarrow> (sets \<times> mem) res" where
  "on_node_at a f i st = rbind (rd (nodes (fst st a)) i) (\<lambda>n. case n of None \<Rightarrow> Inr st | Some x \<Rightarrow> f x st)"

partial_function (option) each_node_at ::
  "nat \<Rightarrow> (simple_set_node \<Rightarrow> sets \<times> mem \<Rightarrow> (sets \<times> mem) res) \<Rightarrow> nat \<Rightarrow> sets \<times> mem \<Rightarrow> (sets \<times> mem) res option"
where
  "each_node_at a f i st = (if i < unat (number_nodes (fst st a)) then (case on_node_at a f i st of
       Inl e \<Rightarrow> Some (Inl e) | Inr st' \<Rightarrow> each_node_at a f (Suc i) st')
     else Some (Inr st))"

declare each_node_at.simps [code]

definition add_node_at :: "nat \<Rightarrow> simple_set_node \<Rightarrow> sets \<times> mem \<Rightarrow> (sets \<times> mem) res" where
  "add_node_at r x = (\<lambda>(S, m). rbind (set_add_hash (S r) (node_key x) (node_hash x) m)
     (\<lambda>(rc, s, m'). Inr (S(r := s), m')))"

definition add_node_if_at ::
  "nat \<Rightarrow> nat \<Rightarrow> (int \<Rightarrow> bool) \<Rightarrow> simple_set_node \<Rightarrow> sets \<times> mem \<Rightarrow> (sets \<times> mem) res" where
  "add_node_if_at r a test x st = rbind (set_contains_hash (fst st a) (node_key x) (node_hash x))
     (\<lambda>c. if test c then add_node_at r x st else Inr st)"

definition unless_occupied ::
  "nat \<Rightarrow> (sets \<times> mem \<Rightarrow> (sets \<times> mem) res option) \<Rightarrow> sets \<Rightarrow> mem \<Rightarrow> (int \<times> sets \<times> mem) res option" where
  "unless_occupied res loops S m = (if used_nodes (S res) \<noteq> 0 then Some (Inr (SET_OCCUPIED_ERROR, S, m))
     else obind (loops (S, m)) (\<lambda>(S', m'). Some (Inr (SET_TRUE, S', m'))))"

definition set_union_at :: "nat \<Rightarrow> nat \<Rightarrow> nat \<Rightarrow> sets \<Rightarrow> mem \<Rightarrow> (int \<times> sets \<times> mem) res option" where
  "set_union_at res s1 s2 = unless_occupied res (\<lambda>st. obind (each_node_at s1 (add_node_at res) 0 st)
     (each_node_at s2 (add_node_at res) 0))"

definition set_intersection_at :: "nat \<Rightarrow> nat \<Rightarrow> nat \<Rightarrow> sets \<Rightarrow> mem \<Rightarrow> (int \<times> sets \<times> mem) res option" where
  "set_intersection_at res s1 s2 =
     unless_occupied res (each_node_at s1 (add_node_if_at res s2 (\<lambda>c. c = SET_TRUE)) 0)"

definition set_difference_at :: "nat \<Rightarrow> nat \<Rightarrow> nat \<Rightarrow> sets \<Rightarrow> mem \<Rightarrow> (int \<times> sets \<times> mem) res option" where
  "set_difference_at res s1 s2 =
     unless_occupied res (each_node_at s1 (add_node_if_at res s2 (\<lambda>c. c \<noteq> SET_TRUE)) 0)"

definition set_symmetric_difference_at ::
  "nat \<Rightarrow> nat \<Rightarrow> nat \<Rightarrow> sets \<Rightarrow> mem \<Rightarrow> (int \<times> sets \<times> mem) res option" where
  "set_symmetric_difference_at res s1 s2 = unless_occupied res
     (\<lambda>st. obind (each_node_at s1 (add_node_if_at res s2 (\<lambda>c. c \<noteq> SET_TRUE)) 0 st)
       (each_node_at s2 (add_node_if_at res s1 (\<lambda>c. c \<noteq> SET_TRUE)) 0))"

section \<open>Loops\<close>

text \<open>A body that changes nothing.\<close>

lemma each_node_at_idle:
  assumes "backs T (fst st a)" "\<And>x. x \<in> contents T \<Longrightarrow> f x st = Inr st"
  shows "each_node_at a f i st = Some (Inr st)"
proof (induction "length T - i" arbitrary: i)
  case 0
  then show ?case using backsD(2) [OF assms(1)] by (subst each_node_at.simps) simp
next
  case (Suc k)
  then have i: "i < length T" by simp
  have "on_node_at a f i st = Inr st"
    using assms(2) contentsI [OF i] backsD(1) [OF assms(1)] i
    by (cases "T ! i") (simp_all add: on_node_at_def)
  moreover have "each_node_at a f (Suc i) st = Some (Inr st)" using Suc by simp
  ultimately show ?case using i backsD(2) [OF assms(1)] by (subst each_node_at.simps) simp
qed

text \<open>
  A loop over an object that the body does not touch, while the body changes the object at \<open>r\<close> as
  \<open>g\<close> says, is the loop over the value of the object.
\<close>

definition put :: "nat \<Rightarrow> sets \<Rightarrow> simple_set \<times> mem \<Rightarrow> sets \<times> mem" where
  "put r S = (\<lambda>(s, m). (S(r := s), m))"

lemma put_simps [simp]: "fst (put r S t) a = (if a = r then fst t else S a)" "put r S (S r, m) = (S, m)"
  by (cases t; simp add: put_def) (simp add: put_def)

fun agrees :: "nat \<Rightarrow> sets \<Rightarrow> (simple_set \<times> mem, simple_set \<times> mem) ctl res \<Rightarrow> (sets \<times> mem) res \<Rightarrow> bool" where
  "agrees r S (Inl e) q \<longleftrightarrow> q = Inl e"
| "agrees r S (Inr (Next t)) q \<longleftrightarrow> q = Inr (put r S t)"
| "agrees r S (Inr (Break t)) q \<longleftrightarrow> False"

definition lifts :: "nat \<Rightarrow> sets \<Rightarrow> (simple_set_node \<Rightarrow> sets \<times> mem \<Rightarrow> (sets \<times> mem) res) \<Rightarrow>
    (simple_set_node \<Rightarrow> simple_set \<times> mem \<Rightarrow> (simple_set \<times> mem, simple_set \<times> mem) ctl res) \<Rightarrow> bool" where
  "lifts r S f g \<longleftrightarrow> (\<forall>x t. agrees r S (g x t) (f x (put r S t)))"

lemma lifts_on_node:
  assumes "lifts r S f g" "a \<noteq> r"
  shows "agrees r S (on_node (S a) g i t) (on_node_at a f i (put r S t))"
  using assms unfolding lifts_def on_node_def on_node_at_def
  by (cases t) (auto simp: rbind_def split: sum.split option.split)

lemma each_node_at_lifts:
  assumes "lifts r S f g" "a \<noteq> r"
  shows "each_node_at a f i (put r S t)
    = Some (map_sum id (put r S) (run_loop (on_node (S a) g) i (unat (number_nodes (S a)) - i) t))"
proof (induction "unat (number_nodes (S a)) - i" arbitrary: i t)
  case 0
  then show ?case using assms(2) by (subst each_node_at.simps) (simp add: run_loop_def)
next
  case (Suc k)
  then have i: "i < unat (number_nodes (S a))" "unat (number_nodes (S a)) - i = Suc k"
    "unat (number_nodes (S a)) - Suc i = k" by simp_all
  have ih: "each_node_at a f (Suc i) (put r S t')
      = Some (map_sum id (put r S) (run_loop (on_node (S a) g) (Suc i) k t'))" for t'
    using Suc(1) [of "Suc i" t'] i(3) by simp
  from lifts_on_node [OF assms, of i t] i(1) assms(2) ih show ?case
    by (subst each_node_at.simps, cases "(r, S, on_node (S a) g i t, on_node_at a f i (put r S t))" rule: agrees.cases)
      (simp_all add: run_loop_def i(2))
qed

lemma lifts_add_node: "lifts r S (add_node_at r) add_node"
  by (auto simp: lifts_def add_node_def add_node_at_def put_def rbind_def split: sum.split)

lemma lifts_add_node_if: "b \<noteq> r \<Longrightarrow> lifts r S (add_node_if_at r b test) (add_node_if (S b) test)"
  using lifts_add_node [of r S]
  by (auto simp: lifts_def add_node_if_def add_node_if_at_def rbind_def split: sum.split)

text \<open>The tests see the result set itself.\<close>

lemma lifts_add_node_if_self: "lifts r S (add_node_if_at r r test) (\<lambda>x t. add_node_if (fst t) test x t)"
  using lifts_add_node [of r S]
  by (auto simp: lifts_def add_node_if_def add_node_if_at_def rbind_def split: sum.split)

text \<open>Without aliasing of the result the two versions agree, whatever the sets are.\<close>

definition store :: "nat \<Rightarrow> sets \<Rightarrow> (int \<times> simple_set \<times> mem) res \<Rightarrow> (int \<times> sets \<times> mem) res option" where
  "store r S out = Some (map_sum id (\<lambda>(rc, s, m). (rc, S(r := s), m)) out)"

lemma loop_at:
  assumes "lifts r S f g" "a \<noteq> r"
  shows "each_node_at a f 0 (put r S t) = Some (map_sum id (put r S) (each_node (S a) g t))"
  using each_node_at_lifts [OF assms, of 0 t] by (simp add: each_node_def)

lemma rbind_assoc: "rbind (rbind m f) g = rbind m (\<lambda>x. rbind (f x) g)"
  by (cases m) simp_all

text \<open>A second loop, and the frame of the four operations.\<close>

lemma then_loop_at:
  assumes "lifts r S f g" "a \<noteq> r"
  shows "obind (Some (map_sum id (put r S) X)) (each_node_at a f 0)
    = Some (map_sum id (put r S) (rbind X (each_node (S a) g)))"
  by (cases X) (simp_all add: loop_at [OF assms])

lemma unless_occupied_store:
  assumes "used_nodes (S r) = 0 \<Longrightarrow> loops (S, m) = Some (map_sum id (put r S) X)"
  shows "unless_occupied r loops S m = store r S (if used_nodes (S r) \<noteq> 0 then Inr (SET_OCCUPIED_ERROR, S r, m)
    else rbind X (\<lambda>(s, m'). Inr (SET_TRUE, s, m')))"
  using assms by (cases X) (auto simp: unless_occupied_def store_def put_def)

lemma set_ops_at_distinct:
  assumes "s1 \<noteq> res" "s2 \<noteq> res"
  shows "set_union_at res s1 s2 S m = store res S (set_union (S res) (S s1) (S s2) m)"
    "set_intersection_at res s1 s2 S m = store res S (set_intersection (S res) (S s1) (S s2) m)"
    "set_difference_at res s1 s2 S m = store res S (set_difference (S res) (S s1) (S s2) m)"
    "set_symmetric_difference_at res s1 s2 S m = store res S (set_symmetric_difference (S res) (S s1) (S s2) m)"
proof -
  have st: "(S, m) = put res S (S res, m)" by simp
  note add = lifts_add_node [of res S] and add_if = lifts_add_node_if [of _ res S]
  show "set_union_at res s1 s2 S m = store res S (set_union (S res) (S s1) (S s2) m)"
    unfolding set_union_at_def set_union_def rbind_assoc [symmetric]
    by (intro unless_occupied_store) (simp only: st loop_at [OF add assms(1)] then_loop_at [OF add assms(2)])
  show "set_intersection_at res s1 s2 S m = store res S (set_intersection (S res) (S s1) (S s2) m)"
    unfolding set_intersection_at_def set_intersection_def
    by (intro unless_occupied_store) (simp only: st loop_at [OF add_if [OF assms(2)] assms(1)])
  show "set_difference_at res s1 s2 S m = store res S (set_difference (S res) (S s1) (S s2) m)"
    unfolding set_difference_at_def set_difference_def
    by (intro unless_occupied_store) (simp only: st loop_at [OF add_if [OF assms(2)] assms(1)])
  show "set_symmetric_difference_at res s1 s2 S m = store res S (set_symmetric_difference (S res) (S s1) (S s2) m)"
    unfolding set_symmetric_difference_at_def set_symmetric_difference_def rbind_assoc [symmetric]
    by (intro unless_occupied_store) (simp only: st loop_at [OF add_if [OF assms(2)] assms(1)] then_loop_at [OF add_if [OF assms(1)] assms(2)])
qed

section \<open>The result as an operand\<close>

lemma add_node_present:
  assumes "wf_set H s" "node_hash x = H (node_key x)" "node_key x \<in> elems s"
  shows "add_node x (s, m) = Inr (Next (s, m))"
  using assms by (simp add: add_node_def set_add_hash_put set_contains_hash_wf [OF assms(1)])

text \<open>A test on the result set itself: a key that is present is not stored again.\<close>

lemma add_node_if_self:
  assumes "wf_set H s" "wf_set H (fst t)" "x \<in> contents (slots s)"
  shows "add_node_if (fst t) (\<lambda>c. c = SET_TRUE) x t = Inr (Next t)"
    "add_node_if (fst t) (\<lambda>c. c \<noteq> SET_TRUE) x t = add_node x t"
  using add_node_present [OF assms(2) wf_hash [OF assms(1,3)], of "snd t"]
  by (simp_all add: add_node_if_wf [OF assms(2) wf_hash [OF assms(1,3)]])

text \<open>An empty set has nothing to loop over.\<close>

lemma empty_loop:
  assumes "operands H (S res) s1 s2"
  shows "each_node_at res f 0 (S, m) = Some (map_sum id (put res S) (Inr (S res, m)))"
proof -
  have w: "wf_set H (S res)" "elems (S res) = {}"
    using assms operandsD [OF assms] by (simp_all add: operands_def)
  have "each_node_at res f 0 (S, m) = Some (Inr (S, m))"
    by (rule each_node_at_idle [of "slots (S res)"])
      (use w wf_setD(1) [OF w(1)] in \<open>auto simp: elems_def\<close>)
  then show ?thesis by simp
qed

text \<open>Going over the result set after a loop that leaves nothing to insert.\<close>

lemma then_idle_at:
  assumes "gives X P E" "\<And>r m'. P (r, m') \<Longrightarrow> wf_set H r"
    and "\<And>r m' x. P (r, m') \<Longrightarrow> x \<in> contents (slots r) \<Longrightarrow> f x (put res S (r, m')) = Inr (put res S (r, m'))"
  shows "obind (Some (map_sum id (put res S) X)) (each_node_at res f 0) = Some (map_sum id (put res S) X)"
proof (cases X)
  case (Inr t)
  obtain r m' where t: "t = (r, m')" by (cases t)
  have P: "P (r, m')" using assms(1) by (simp add: Inr t)
  have "each_node_at res f 0 (put res S (r, m')) = Some (Inr (put res S (r, m')))"
    by (rule each_node_at_idle [of "slots r"]) (use wf_setD(1) [OF assms(2) [OF P]] assms(3) [OF P] in simp_all)
  then show ?thesis by (simp add: Inr t)
qed simp

text \<open>How an operation ends whose loops offer the keys \<open>K\<close> to the empty result.\<close>

definition ends_with ::
  "nat \<Rightarrow> set_hash_function \<Rightarrow> sets \<Rightarrow> mem \<Rightarrow> cstr set \<Rightarrow> (int \<times> sets \<times> mem) res option \<Rightarrow> bool" where
  "ends_with res H S m K out \<longleftrightarrow> (\<exists>X. out = store res S X \<and> gives X (algebra_post H m K) (oom m))"

lemma ends_withI:
  assumes "operands H (S res) s1 s2" "loops (S, m) = Some (map_sum id (put res S) X)"
    and "gives X (\<lambda>(r, m'). added H (S res) m K r m') (oom m)"
  shows "ends_with res H S m K (unless_occupied res loops S m)"
proof -
  have o: "used_nodes (S res) = 0" "elems (S res) = {}" using operandsD [OF assms(1)] by simp_all
  have "gives (rbind X (\<lambda>(s, m'). Inr (SET_TRUE, s, m'))) (algebra_post H m K) (oom m)"
    by (rule gives_rbind [OF assms(3)]) (use o(2) in \<open>auto intro: algebra_postI\<close>)
  then show ?thesis unfolding ends_with_def
    using unless_occupied_store [of S res loops m X] assms(2) o(1) by auto
qed

text \<open>The four operations when the result is the first operand, which is then empty.\<close>

lemma added_none: "operands H r s1 s2 \<Longrightarrow> gives (Inr (r, m)) (\<lambda>(r', m'). added H r m {} r' m') E"
  using added_refl by (simp add: operands_def)

lemma lifts_self_not_true:
  assumes "operands H r s1 s2"
  shows "gives (each_node s1 (\<lambda>x t. add_node_if (fst t) (\<lambda>c. c \<noteq> SET_TRUE) x t) (r, m))
    (\<lambda>(r', m'). added H r m (elems s1) r' m') (oom m)"
proof -
  have w: "wf_set H s1" using assms by (simp add: operands_def)
  show ?thesis using first_loop [OF assms, where keep = "\<lambda>_. True", of _ m] add_node_if_self(2) [OF w] by simp
qed

lemma second_loop_only:
  assumes o: "operands H (S res) (S res) (S s2)" and l: "lifts res S g g'"
    and g: "gives (each_node (S s2) g' (S res, m)) (\<lambda>(r, m'). added H (S res) m (elems (S s2)) r m') (oom m)"
  shows "ends_with res H S m (elems (S s2))
    (unless_occupied res (\<lambda>st. obind (each_node_at res f 0 st) (each_node_at s2 g 0)) S m)"
proof (cases "s2 = res")
  case True
  note e = empty_loop [of H S res, OF o]
  have "obind (each_node_at res f 0 (S, m)) (each_node_at s2 g 0) = Some (map_sum id (put res S) (Inr (S res, m)))"
    using e True by simp
  moreover have "elems (S s2) = {}" using operandsD [OF o] True by simp
  ultimately show ?thesis using ends_withI [of H S res, OF o _ added_none [OF o]] by simp
next
  case False
  have "obind (each_node_at res f 0 (S, m)) (each_node_at s2 g 0)
      = Some (map_sum id (put res S) (each_node (S s2) g' (S res, m)))"
    unfolding empty_loop [of H S res, OF o] then_loop_at [OF l False] by simp
  then show ?thesis by (intro ends_withI [of H S res, OF o _ g])
qed

lemma result_first:
  assumes o: "operands H (S res) (S res) (S s2)"
  shows "ends_with res H S m (elems (S s2)) (set_union_at res res s2 S m)"
    "ends_with res H S m {} (set_intersection_at res res s2 S m)"
    "ends_with res H S m {} (set_difference_at res res s2 S m)"
    "ends_with res H S m (elems (S s2)) (set_symmetric_difference_at res res s2 S m)"
proof -
  have o2: "operands H (S res) (S s2) (S s2)" using o by (simp add: operands_def)
  show "ends_with res H S m {} (set_intersection_at res res s2 S m)"
    "ends_with res H S m {} (set_difference_at res res s2 S m)"
    unfolding set_intersection_at_def set_difference_at_def
    by (rule ends_withI [of H S res, OF o], rule empty_loop [of H S res, OF o], rule added_none [OF o])+
  show "ends_with res H S m (elems (S s2)) (set_union_at res res s2 S m)" unfolding set_union_at_def
    by (rule second_loop_only [of H S res, OF o lifts_add_node]) (use first_loop [OF o2, where keep = "\<lambda>_. True"] in simp)
  show "ends_with res H S m (elems (S s2)) (set_symmetric_difference_at res res s2 S m)"
    unfolding set_symmetric_difference_at_def
    by (rule second_loop_only [of H S res, OF o lifts_add_node_if_self lifts_self_not_true [OF o2]])
qed

text \<open>The same when the result is the second operand only.\<close>

lemma result_second:
  assumes o: "operands H (S res) (S s1) (S res)" and ne: "s1 \<noteq> res"
  shows "ends_with res H S m (elems (S s1)) (set_union_at res s1 res S m)"
    "ends_with res H S m {} (set_intersection_at res s1 res S m)"
    "ends_with res H S m (elems (S s1)) (set_difference_at res s1 res S m)"
    "ends_with res H S m (elems (S s1)) (set_symmetric_difference_at res s1 res S m)"
proof -
  have st: "(S, m) = put res S (S res, m)" by simp
  have w: "wf_set H (S s1)" "elems (S res) = {}" using o operandsD [OF o] by (simp_all add: operands_def)
  note self = loop_at [OF lifts_add_node_if_self ne]
  have add: "gives (each_node (S s1) add_node (S res, m)) (\<lambda>(r, m'). added H (S res) m (elems (S s1)) r m') (oom m)"
    using first_loop [OF o, where keep = "\<lambda>_. True"] by simp
  note add' = lifts_self_not_true [OF o, of m]
  have none: "gives (each_node (S s1) (\<lambda>x t. add_node_if (fst t) (\<lambda>c. c = SET_TRUE) x t) (S res, m))
      (\<lambda>(r, m'). added H (S res) m {} r m') (oom m)"
    using first_loop [OF o, where keep = "\<lambda>_. False", of _ m] add_node_if_self(1) [OF w(1)] by simp
  show "ends_with res H S m {} (set_intersection_at res s1 res S m)"
    unfolding set_intersection_at_def by (rule ends_withI [of H S res, OF o _ none]) (simp only: st self)
  show "ends_with res H S m (elems (S s1)) (set_difference_at res s1 res S m)"
    unfolding set_difference_at_def by (rule ends_withI [of H S res, OF o _ add']) (simp only: st self)
  show "ends_with res H S m (elems (S s1)) (set_union_at res s1 res S m)" unfolding set_union_at_def
  proof (rule ends_withI [of H S res, OF o _ add], unfold st loop_at [OF lifts_add_node ne], rule then_idle_at [where H = H, OF add])
    fix r m' x assume "case (r, m') of (r, m') \<Rightarrow> added H (S res) m (elems (S s1)) r m'" "x \<in> contents (slots r)"
    then have "wf_set H r" "node_hash x = H (node_key x)" "node_key x \<in> elems r"
      using wf_hash by (auto simp: added_def elems_def)
    from add_node_present [OF this, of m'] show "add_node_at res x (put res S (r, m')) = Inr (put res S (r, m'))"
      using lifts_add_node [of res S, unfolded lifts_def, rule_format, of x "(r, m')"] by simp
  qed (auto simp: added_def)
  show "ends_with res H S m (elems (S s1)) (set_symmetric_difference_at res s1 res S m)"
    unfolding set_symmetric_difference_at_def
  proof (rule ends_withI [of H S res, OF o _ add'], unfold st self, rule then_idle_at [where H = H, OF add'])
    fix r m' x assume "case (r, m') of (r, m') \<Rightarrow> added H (S res) m (elems (S s1)) r m'" "x \<in> contents (slots r)"
    then have "node_hash x = H (node_key x)" "node_key x \<in> elems (S s1)"
      using wf_hash w(2) by (auto simp: added_def elems_def)
    then show "add_node_if_at res s1 (\<lambda>c. c \<noteq> SET_TRUE) x (put res S (r, m')) = Inr (put res S (r, m'))"
      using set_contains_hash_wf [OF w(1), of "node_key x"] ne by (simp add: add_node_if_at_def)
  qed (auto simp: added_def)
qed

section \<open>Properties\<close>

lemma ends_with_total:
  assumes "ends_with res H S m K out" "mem_ok m"
  shows "\<exists>r m'. out = Some (Inr (SET_TRUE, S(res := r), m')) \<and> wf_set H r \<and> elems r = K
     \<and> live m' = live m + 2 * int (card K)"
proof -
  obtain X where "out = store res S X" "gives X (algebra_post H m K) (oom m)"
    using assms(1) unfolding ends_with_def by blast
  with algebra_total [OF this(2) assms(2)] show ?thesis by (auto simp: store_def)
qed

text \<open>
  C17.  The arguments of the set operations may be the same object.  Wherever the three sets are,
  and also when the result is one of the operands, which then are empty, union, intersection,
  difference and symmetric difference end and leave at the address of the result the set their
  names say, of the values before the call, and every other object as it was.
\<close>

theorem set_algebra_aliased:
  assumes "operands H (S res) (S s1) (S s2)" "mem_ok m"
    and "(f, K) \<in> {(set_union_at res s1 s2, elems (S s1) \<union> elems (S s2)),
      (set_intersection_at res s1 s2, elems (S s1) \<inter> elems (S s2)),
      (set_difference_at res s1 s2, elems (S s1) - elems (S s2)),
      (set_symmetric_difference_at res s1 s2, (elems (S s1) - elems (S s2)) \<union> (elems (S s2) - elems (S s1)))}"
  shows "\<exists>r m'. f S m = Some (Inr (SET_TRUE, S(res := r), m')) \<and> wf_set H r \<and> elems r = K
     \<and> live m' = live m + 2 * int (card K)"
proof (rule ends_with_total [OF _ assms(2)])
  note o = assms(1)
  consider (first) "s1 = res" | (second) "s1 \<noteq> res" "s2 = res" | (none) "s1 \<noteq> res" "s2 \<noteq> res" by blast
  then show "ends_with res H S m K (f S m)"
  proof cases
    case first
    then have "elems (S s1) = {}" using operandsD [OF o] by simp
    with first assms(3) result_first [of H S res s2 m] o show ?thesis by auto
  next
    case second
    then have "elems (S s2) = {}" using operandsD [OF o] by simp
    with second assms(3) result_second [of H S res s1 m] o show ?thesis by auto
  next
    case none
    then show ?thesis using assms(3) set_union_gives [OF o, of m] set_intersection_gives [OF o, of m]
        set_difference_gives [OF o, of m] set_symmetric_difference_gives [OF o, of m]
      unfolding ends_with_def by (auto simp: set_ops_at_distinct)
  qed
qed

theorem set_algebra_aliased_witness:
  "\<exists>r m'. set_symmetric_difference_at 0 1 0 ((\<lambda>_. sample0)(1 := sample2)) mem0
       = Some (Inr (SET_TRUE, (\<lambda>_. sample0)(1 := sample2, 0 := r), m'))
     \<and> elems r = {cs ''a.com'', cs ''e.com''} \<and> live m' = 4"
proof -
  have "operands default_hash sample0 sample2 sample0"
    by (simp add: operands_def sample_wf small_def sample_size)
  then show ?thesis
    using set_algebra_aliased [of default_hash "(\<lambda>_. sample0)(1 := sample2)" 0 1 0 mem0
        "set_symmetric_difference_at 0 1 0" "{cs ''a.com'', cs ''e.com''}"] mem0_ok
    by (auto simp: sample_elems cs_def)
qed

end
