(* ===== verification/AcceptRace.thy ===== *)
theory AcceptRace
  imports CBase
begin

text \<open>
  The hand-over of a connection in \<open>main\<close> of \<open>server.c\<close>: the thread gets the address of
  the variable \<open>client_fd\<close> and reads the descriptor from it when it runs, while \<open>main\<close> goes
  on and stores the next descriptor in the same place.  The steps of the two sides interleave
  freely.
\<close>

section \<open>States and steps\<close>

datatype handler = Started | Running int

record accept_state =
  slot :: int
  waiting :: "int list"
  accepted :: "int list"
  handlers :: "handler list"

text \<open>
  \<open>accept_one\<close>: \<open>accept\<close> returns the next connection, its descriptor is stored and a thread
  is created.  \<open>read_arg\<close>: a thread executes \<open>client_fd = *((int*)args)\<close>.
\<close>

inductive accept_step :: "accept_state \<Rightarrow> accept_state \<Rightarrow> bool" where
  accept_one: "waiting s = fd # fds \<Longrightarrow> 0 < fd \<Longrightarrow> accept_step s
     (s\<lparr>slot := fd, waiting := fds, accepted := accepted s @ [fd], handlers := handlers s @ [Started]\<rparr>)"
| read_arg: "i < length (handlers s) \<Longrightarrow> handlers s ! i = Started \<Longrightarrow> accept_step s
     (s\<lparr>handlers := (handlers s)[i := Running (slot s)]\<rparr>)"

inductive accept_run :: "accept_state \<Rightarrow> accept_state \<Rightarrow> bool" where
  run_refl: "accept_run s s"
| run_step: "accept_run s t \<Longrightarrow> accept_step t u \<Longrightarrow> accept_run s u"

inductive_cases accept_stepE: "accept_step s t"

definition accept_init :: "int list \<Rightarrow> accept_state" where
  "accept_init fds = \<lparr>slot = 0, waiting = fds, accepted = [], handlers = []\<rparr>"

section \<open>Invariant\<close>

text \<open>
  One handler per accepted connection; the variable holds the connection accepted last; what a
  handler has read is its own connection or a later one.
\<close>

definition handed_over :: "int list \<Rightarrow> accept_state \<Rightarrow> bool" where
  "handed_over fds s \<longleftrightarrow> fds = accepted s @ waiting s \<and> length (handlers s) = length (accepted s)
     \<and> (accepted s \<noteq> [] \<longrightarrow> slot s = last (accepted s))
     \<and> (\<forall>i fd. i < length (handlers s) \<longrightarrow> handlers s ! i = Running fd \<longrightarrow>
          (\<exists>j. i \<le> j \<and> j < length (accepted s) \<and> accepted s ! j = fd))"

lemma handed_over_init: "handed_over fds (accept_init fds)"
  by (simp add: handed_over_def accept_init_def)

lemma handed_over_step:
  assumes "handed_over fds s" "accept_step s t"
  shows "handed_over fds t"
  using assms(2)
proof (cases rule: accept_step.cases)
  case (accept_one fd rest)
  have "\<exists>j. i \<le> j \<and> j < Suc (length (accepted s)) \<and> (accepted s @ [fd]) ! j = f"
    if i: "i < Suc (length (accepted s))" and r: "(handlers s @ [Started]) ! i = Running f" for i f
  proof -
    have "i < length (handlers s)"
      using i r assms(1) by (auto simp: handed_over_def nth_append less_Suc_eq split: if_splits)
    moreover have "handlers s ! i = Running f" using calculation r by (simp add: nth_append)
    ultimately obtain j where "i \<le> j" "j < length (accepted s)" "accepted s ! j = f"
      using assms(1) unfolding handed_over_def by blast
    then show ?thesis by (intro exI [of _ j]) (simp add: nth_append)
  qed
  with accept_one assms(1) show ?thesis by (simp add: handed_over_def)
next
  case (read_arg i)
  have ne: "accepted s \<noteq> []" and l: "i < length (accepted s)" using read_arg assms(1) by (auto simp: handed_over_def)
  have own: "\<exists>j. i \<le> j \<and> j < length (accepted s) \<and> accepted s ! j = slot s"
    using ne l assms(1) by (intro exI [of _ "length (accepted s) - 1"])
      (auto simp: handed_over_def last_conv_nth)
  have "\<exists>j. k \<le> j \<and> j < length (accepted s) \<and> accepted s ! j = f"
    if "k < length (handlers s)" "(handlers s)[i := Running (slot s)] ! k = Running f" for k f
    using that own assms(1) by (cases "k = i") (auto simp: handed_over_def)
  with read_arg assms(1) show ?thesis by (simp add: handed_over_def)
qed

lemma handed_over_run: "accept_run s t \<Longrightarrow> handed_over fds s \<Longrightarrow> handed_over fds t"
  by (induction rule: accept_run.induct) (auto intro: handed_over_step)

text \<open>The schedule in which no thread runs before several connections are accepted.\<close>

lemma accept_many:
  assumes "\<forall>fd \<in> set fds. 0 < fd" "waiting s = fds @ rest"
  shows "accept_run s (s\<lparr>slot := last (slot s # fds), waiting := rest, accepted := accepted s @ fds,
      handlers := handlers s @ replicate (length fds) Started\<rparr>)"
  using assms
proof (induction fds arbitrary: rest rule: rev_induct)
  case Nil
  then have "s\<lparr>slot := slot s, waiting := rest, accepted := accepted s, handlers := handlers s\<rparr> = s" by simp
  then show ?case using run_refl [of s] by simp
next
  case (snoc fd fds)
  let ?t = "s\<lparr>slot := last (slot s # fds), waiting := fd # rest, accepted := accepted s @ fds,
      handlers := handlers s @ replicate (length fds) Started\<rparr>"
  have "accept_run s ?t" using snoc.IH [of "fd # rest"] snoc.prems by simp
  moreover have "accept_step ?t (?t\<lparr>slot := fd, waiting := rest, accepted := accepted ?t @ [fd],
      handlers := handlers ?t @ [Started]\<rparr>)" using snoc.prems by (intro accept_one) simp_all
  ultimately have "accept_run s (?t\<lparr>slot := fd, waiting := rest, accepted := accepted ?t @ [fd],
      handlers := handlers ?t @ [Started]\<rparr>)" by (rule run_step)
  then show ?case by (simp add: replicate_append_same)
qed

lemma run_read_arg:
  assumes "accept_run s t" "i < length (handlers t)" "handlers t ! i = Started"
  shows "\<exists>u. accept_run s u \<and> i < length (handlers u) \<and> handlers u ! i = Running (slot t)"
  by (rule exI [of _ "t\<lparr>handlers := (handlers t)[i := Running (slot t)]\<rparr>"])
    (use assms in \<open>simp add: run_step [OF assms(1) read_arg [OF assms(2,3)]]\<close>)

lemma late_reader:
  assumes "\<forall>fd \<in> set fds. 0 < fd" "i \<le> j" "j < length fds"
  shows "\<exists>s. accept_run (accept_init fds) s \<and> i < length (handlers s) \<and> handlers s ! i = Running (fds ! j)"
proof -
  let ?h = "take (Suc j) fds"
  obtain t where t: "accept_run (accept_init fds) t" "slot t = last (0 # ?h)"
    "handlers t = replicate (length ?h) Started"
    using accept_many [of ?h "accept_init fds" "drop (Suc j) fds"] assms
    by (fastforce simp: accept_init_def dest: in_set_takeD)
  have "slot t = fds ! j" using t(2) assms(3) by (simp add: take_Suc_conv_app_nth)
  moreover have "i < length (handlers t)" "handlers t ! i = Started"
    using t(3) assms(2,3) by (simp_all del: replicate.simps add: min_def)
  ultimately show ?thesis using run_read_arg [OF t(1)] by metis
qed

section \<open>Properties\<close>

text \<open>
  C10.  The hand-over is a race.  The handler of a connection can end up working on exactly the
  connections accepted from its own on: never on an earlier or unknown one, but on any later one
  as well, so that two handlers can share a connection and another one has none.
\<close>

theorem accept_race:
  assumes "\<forall>fd \<in> set fds. 0 < fd"
  shows "(\<exists>s. accept_run (accept_init fds) s \<and> i < length (handlers s) \<and> handlers s ! i = Running fd)
     \<longleftrightarrow> (\<exists>j. i \<le> j \<and> j < length fds \<and> fds ! j = fd)"
proof
  assume "\<exists>s. accept_run (accept_init fds) s \<and> i < length (handlers s) \<and> handlers s ! i = Running fd"
  then obtain s where s: "accept_run (accept_init fds) s" "i < length (handlers s)" "handlers s ! i = Running fd"
    by blast
  have "handed_over fds s" by (rule handed_over_run [OF s(1) handed_over_init])
  then obtain j where "i \<le> j" "j < length (accepted s)" "accepted s ! j = fd" "fds = accepted s @ waiting s"
    using s(2,3) unfolding handed_over_def by blast
  then show "\<exists>j. i \<le> j \<and> j < length fds \<and> fds ! j = fd"
    by (intro exI [of _ j]) (simp add: nth_append)
qed (use late_reader [OF assms] in blast)

theorem accept_race_witness:
  "(\<exists>s. accept_run (accept_init [5, 6]) s \<and> 0 < length (handlers s) \<and> handlers s ! 0 = Running 6)
   \<and> \<not> (\<exists>s. accept_run (accept_init [5, 6]) s \<and> 1 < length (handlers s) \<and> handlers s ! 1 = Running 5)"
  using accept_race [of "[5, 6]" 0 6] accept_race [of "[5, 6]" 1 5]
  by (auto simp: less_Suc_eq intro: exI [of _ "1 :: nat"])

end
