(* ===== verification/Posix.thy ===== *)
theory Posix
  imports CBase "HOL-Library.Code_Target_Nat"
begin

text \<open>
  The system calls of the programs.  What the outside world answers is data: \<open>inputs\<close> and
  \<open>outs\<close> are, per descriptor, the outcomes of the coming reads and writes, \<open>answers\<close> the
  results of the coming calls that return a descriptor or a status (\<open>socket\<close>, \<open>connect\<close>,
  \<open>bind\<close>, \<open>accept\<close>, \dots), \<open>resolver\<close> what name resolution returns.  A call whose
  script has run out waits for ever (\<open>Blocked\<close>), except a write, which is then accepted in
  full.  The effects a program has are the events of \<open>trace\<close>, oldest first.

  A computation is a function of the world that also returns the world it leaves behind when it
  does not return, so that properties can speak about what happened before.
\<close>

section \<open>The world\<close>

type_synonym addr = nat

definition EINTR :: int where "EINTR = 4"

datatype inp = Chunk "byte list" | Err int | Eof

datatype outp = Took nat | WErr int

datatype event =
    Sent int "byte list" | Shut int | Closed int | Opened int | Connected int addr int
  | Accepted int | Spawned string "int list" | FreedAddr "addr list" | Ran cstr
  | Waited int | Called string "cstr list" | Duplicated int int

record world =
  inputs :: "int \<Rightarrow> inp list"
  outs :: "int \<Rightarrow> outp list"
  answers :: "int list"
  resolver :: "cstr \<Rightarrow> cstr \<Rightarrow> int + addr list"
  trace :: "event list"

type_synonym 'a io = "world \<Rightarrow> 'a res \<times> world"

definition ret :: "'a \<Rightarrow> 'a io" where "ret x w = (Inr x, w)"

definition halt :: "halt \<Rightarrow> 'a io" where "halt e w = (Inl e, w)"

definition lift :: "'a res \<Rightarrow> 'a io" where "lift r w = (r, w)"

definition iob :: "'a io \<Rightarrow> ('a \<Rightarrow> 'b io) \<Rightarrow> 'b io" where
  "iob m k w = (case m w of (Inl e, w') \<Rightarrow> (Inl e, w') | (Inr x, w') \<Rightarrow> k x w')"

definition emit :: "event \<Rightarrow> unit io" where
  "emit e w = (Inr (), w\<lparr>trace := trace w @ [e]\<rparr>)"

named_theorems io_simps \<open>evaluation rules of computations\<close>

lemma ret_apply [simp, io_simps]: "ret x w = (Inr x, w)"
  by (simp add: ret_def)

lemma halt_apply [simp, io_simps]: "halt e w = (Inl e, w)"
  by (simp add: halt_def)

lemma lift_apply [simp, io_simps]: "lift r w = (r, w)"
  by (simp add: lift_def)

lemma iob_Inr [simp, io_simps]: "m w = (Inr x, w') \<Longrightarrow> iob m k w = k x w'"
  by (simp add: iob_def)

lemma iob_Inl [simp, io_simps]: "m w = (Inl e, w') \<Longrightarrow> iob m k w = (Inl e, w')"
  by (simp add: iob_def)

lemma emit_apply [simp, io_simps]: "emit e w = (Inr (), w\<lparr>trace := trace w @ [e]\<rparr>)"
  by (simp add: emit_def)

lemma iob_cong [fundef_cong]:
  assumes "w = w'" "m w' = m' w'" "\<And>x w''. m' w' = (Inr x, w'') \<Longrightarrow> k x w'' = k' x w''"
  shows "iob m k w = iob m' k' w'"
  using assms by (auto simp: iob_def split: prod.splits sum.splits)

section \<open>Calls\<close>

datatype rres = Got "byte list" | Failed int

text \<open>
  \<open>read\<close> of at most \<open>n\<close> bytes.  A chunk that is longer stays in the queue; the end of the
  stream is returned again and again.
\<close>

fun take_input :: "nat \<Rightarrow> inp list \<Rightarrow> (rres \<times> inp list) option" where
  "take_input n [] = None"
| "take_input n (Eof # is) = Some (Got [], Eof # is)"
| "take_input n (Err e # is) = Some (Failed e, is)"
| "take_input n (Chunk bs # is) =
     (if length bs \<le> n then Some (Got bs, is) else Some (Got (take n bs), Chunk (drop n bs) # is))"

definition sys_read :: "int \<Rightarrow> nat \<Rightarrow> rres io" where
  "sys_read fd n w = (case take_input n (inputs w fd) of None \<Rightarrow> (Inl Blocked, w)
     | Some (r, is) \<Rightarrow> (Inr r, w\<lparr>inputs := (inputs w)(fd := is)\<rparr>))"

datatype wres = Wrote nat | WFailed int

text \<open>\<open>write\<close> of the bytes \<open>bs\<close>: the kernel takes a prefix of them.\<close>

definition sys_write :: "int \<Rightarrow> byte list \<Rightarrow> wres io" where
  "sys_write fd bs w = (case outs w fd of
       [] \<Rightarrow> (Inr (Wrote (length bs)), w\<lparr>trace := trace w @ [Sent fd bs]\<rparr>)
     | Took k # os \<Rightarrow> (Inr (Wrote (min k (length bs))),
         w\<lparr>outs := (outs w)(fd := os), trace := trace w @ [Sent fd (take k bs)]\<rparr>)
     | WErr e # os \<Rightarrow> (Inr (WFailed e), w\<lparr>outs := (outs w)(fd := os)\<rparr>))"

text \<open>A call whose result is the next answer; \<open>ev\<close> says what it leaves in the trace.\<close>

definition sys_answer :: "(int \<Rightarrow> event list) \<Rightarrow> int io" where
  "sys_answer ev w = (case answers w of [] \<Rightarrow> (Inl Blocked, w)
     | r # rs \<Rightarrow> (Inr r, w\<lparr>answers := rs, trace := trace w @ ev r\<rparr>))"

definition sys_socket :: "int io" where
  "sys_socket = sys_answer (\<lambda>r. if r = - 1 then [] else [Opened r])"

definition sys_connect :: "int \<Rightarrow> addr \<Rightarrow> int io" where
  "sys_connect fd ai = sys_answer (\<lambda>r. [Connected fd ai r])"

definition sys_accept :: "int io" where
  "sys_accept = sys_answer (\<lambda>r. if r = - 1 then [] else [Accepted r])"

definition sys_status :: "int io" where
  "sys_status = sys_answer (\<lambda>r. [])"

definition sys_resolve :: "cstr \<Rightarrow> cstr \<Rightarrow> (int + addr list) io" where
  "sys_resolve host port w = (Inr (resolver w host port), w)"

lemma sys_resolve_apply [simp, io_simps]: "sys_resolve h p w = (Inr (resolver w h p), w)"
  by (simp add: sys_resolve_def)

section \<open>Streams\<close>

text \<open>
  \<open>weight\<close> bounds the number of reads a script can answer.  \<open>stream\<close> is what a reader
  that retries on \<open>EINTR\<close> gets to see: the bytes, and how they end.
\<close>

definition weight :: "inp list \<Rightarrow> nat" where
  "weight is = sum_list (map (\<lambda>i. case i of Chunk bs \<Rightarrow> Suc (length bs) | _ \<Rightarrow> 1) is)"

lemma take_input_weight:
  assumes "take_input n is = Some (r, is')" "r \<noteq> Got []" 
  shows "weight is' < weight is"
  using assms by (cases "(n, is)" rule: take_input.cases) (auto simp: weight_def split: if_splits)

lemma sys_read_weight:
  "sys_read fd n w = (Inr r, w') \<Longrightarrow> r \<noteq> Got [] \<Longrightarrow> weight (inputs w' fd) < weight (inputs w fd)"
  by (auto simp: sys_read_def dest: take_input_weight split: option.splits)

datatype stream_end = AtEof | AtErr int | Pending

fun stream :: "inp list \<Rightarrow> byte list \<times> stream_end" where
  "stream [] = ([], Pending)"
| "stream (Eof # is) = ([], AtEof)"
| "stream (Err e # is) = (if e = EINTR then stream is else ([], AtErr e))"
| "stream (Chunk bs # is) =
     (if bs = [] then ([], AtEof) else (case stream is of (tl_bs, e) \<Rightarrow> (bs @ tl_bs, e)))"

lemma take_input_None: "take_input n is = None \<longleftrightarrow> is = []"
  by (cases "(n, is)" rule: take_input.cases) auto

lemma stream_failed:
  assumes "take_input n is = Some (Failed e, is')"
  shows "stream is = (if e = EINTR then stream is' else ([], AtErr e))"
  using assms by (cases "(n, is)" rule: take_input.cases) (auto split: if_splits)

lemma stream_got:
  assumes "take_input n is = Some (Got bs, is')" "0 < n"
  shows "stream is = (if bs = [] then ([], AtEof) else (bs @ fst (stream is'), snd (stream is')))"
    "length bs \<le> n"
  using assms by (cases "(n, is)" rule: take_input.cases; auto split: if_splits prod.splits)+

lemma stream_end_sticky:
  assumes "take_input n is = Some (Got [], is')" "0 < n" 
  shows "fst (stream is) = []" "snd (stream is) = AtEof"
  using stream_got [OF assms] by simp_all

section \<open>Traces\<close>

text \<open>The bytes written to a descriptor.\<close>

fun sent :: "int \<Rightarrow> event list \<Rightarrow> byte list" where
  "sent fd [] = []"
| "sent fd (Sent fd' bs # es) = (if fd' = fd then bs @ sent fd es else sent fd es)"
| "sent fd (e # es) = sent fd es"

lemma sent_append [simp]: "sent fd (es @ fs) = sent fd es @ sent fd fs"
  by (induction fd es rule: sent.induct) simp_all

lemma sent_map_Sent [simp]: "sent fd (map (Sent fd') ps) = (if fd' = fd then concat ps else [])"
  by (induction ps) auto

text \<open>The descriptors that were opened and those that were closed, in order.\<close>

fun opened_fds :: "event list \<Rightarrow> int list" where
  "opened_fds [] = []"
| "opened_fds (Opened d # es) = d # opened_fds es"
| "opened_fds (e # es) = opened_fds es"

fun closed_fds :: "event list \<Rightarrow> int list" where
  "closed_fds [] = []"
| "closed_fds (Closed d # es) = d # closed_fds es"
| "closed_fds (e # es) = closed_fds es"

lemma fds_append [simp]: "opened_fds (es @ fs) = opened_fds es @ opened_fds fs"
  "closed_fds (es @ fs) = closed_fds es @ closed_fds fs"
  by (induction es rule: opened_fds.induct; simp)+

lemma fds_sent [simp]: "opened_fds (map (Sent fd) ps) = []" "closed_fds (map (Sent fd) ps) = []"
  by (induction ps) simp_all

text \<open>A world in which nothing arrives and no name resolves.\<close>

definition world0 :: world where
  "world0 = \<lparr>inputs = (\<lambda>_. []), outs = (\<lambda>_. []), answers = [], resolver = (\<lambda>_ _. Inl 1), trace = []\<rparr>"

end
