(* ===== verification/CString.thy ===== *)
theory CString
  imports CBase
begin

text \<open>
  The string functions of the C library the programs use.  A pointer into a string is the
  suffix it points to; \<open>strstr\<close> returns the offset of the first occurrence.  A character
  array is the list of its bytes, all of them initialised.
\<close>

section \<open>Searching\<close>

fun c_strstr :: "cstr \<Rightarrow> cstr \<Rightarrow> nat option" where
  "c_strstr [] n = (if n = [] then Some 0 else None)"
| "c_strstr (x # xs) n = (if prefix n (x # xs) then Some 0 else map_option Suc (c_strstr xs n))"

definition crlf :: cstr where "crlf = [13, 10]"

lemma c_strstr_Some:
  "c_strstr s n = Some i \<longleftrightarrow> i \<le> length s \<and> prefix n (drop i s) \<and> (\<forall>j < i. \<not> prefix n (drop j s))"
proof (induction s arbitrary: i)
  case (Cons x s)
  show ?case
  proof (cases i)
    case 0
    then show ?thesis by (auto split: if_splits)
  next
    case (Suc k)
    have "(\<forall>j < Suc k. \<not> prefix n (drop j (x # s))) \<longleftrightarrow>
        \<not> prefix n (x # s) \<and> (\<forall>j < k. \<not> prefix n (drop j s))"
      by (auto simp: less_Suc_eq_0_disj)
    with Suc Cons.IH [of k] show ?thesis by auto
  qed
qed auto

lemma c_strstr_None: "c_strstr s n = None \<longleftrightarrow> \<not> sublist n s"
proof (induction s)
  case (Cons x s)
  then show ?case by (auto simp: sublist_Cons_right)
qed simp

lemma c_strstr_split:
  assumes "c_strstr s n = Some i"
  shows "s = take i s @ n @ drop (i + length n) s" "\<not> sublist n (take i s) \<or> n = []" "i + length n \<le> length s"
proof -
  obtain t where t: "drop i s = n @ t" and i: "i \<le> length s"
    and none: "\<And>j. j < i \<Longrightarrow> \<not> prefix n (drop j s)"
    using assms by (auto simp: c_strstr_Some prefix_def)
  have s: "s = take i s @ n @ t" using append_take_drop_id [of i s] t by simp
  have "drop (i + length n) s = t" using t by (metis append_eq_conv_conj drop_drop add.commute)
  with s show "s = take i s @ n @ drop (i + length n) s" by simp
  have "length (drop i s) = length n + length t" using t by simp
  then show "i + length n \<le> length s" using i by simp
  show "\<not> sublist n (take i s) \<or> n = []"
  proof (rule ccontr)
    assume "\<not> ?thesis"
    then have ne: "n \<noteq> []" and "sublist n (take i s)" by auto
    then obtain a b where ab: "take i s = a @ n @ b" by (auto simp: sublist_def)
    then have l: "length a + length n + length b = i" using i by (metis append.assoc length_append length_take min.absorb2)
    have "s = a @ n @ b @ drop i s" using append_take_drop_id [of i s] ab by simp
    then have "drop (length a) s = n @ b @ drop i s" by (metis append_eq_conv_conj)
    moreover have "length a < i" using l ne by (cases n) auto
    ultimately show False using none [of "length a"] by (simp add: prefix_def)
  qed
qed

text \<open>
  The first occurrence behind a text that has none: a needle whose first byte does not occur
  again in it cannot straddle the boundary.
\<close>

lemma no_straddle:
  assumes "c \<notin> set r" "\<not> prefix (c # r) pre" "pre \<noteq> []"
  shows "\<not> prefix (c # r) (pre @ (c # r) @ post)"
proof
  assume p: "prefix (c # r) (pre @ (c # r) @ post)"
  show False
  proof (cases "length (c # r) \<le> length pre")
    case True
    then have "prefix (c # r) pre" using p by (metis prefix_length_prefix prefixI)
    with assms(2) show False by simp
  next
    case False
    then have l: "length pre < length (c # r)" by simp
    obtain u where u: "pre @ (c # r) @ post = (c # r) @ u" using p by (auto simp: prefix_def)
    have "(c # r) ! length pre = ((c # r) @ u) ! length pre" using l by (simp only: nth_append if_True)
    also have "\<dots> = (pre @ (c # r) @ post) ! length pre" by (simp only: u)
    also have "\<dots> = c" by (simp add: nth_append)
    finally have "r ! (length pre - 1) = c" using assms(3) by (cases pre) auto
    moreover have "length pre - 1 < length r" using l assms(3) by (cases pre) auto
    ultimately show False using assms(1) nth_mem by metis
  qed
qed

lemma c_strstr_first:
  assumes "c \<notin> set r" "\<not> sublist (c # r) pre"
  shows "c_strstr (pre @ (c # r) @ post) (c # r) = Some (length pre)"
  using assms(2)
proof (induction pre)
  case (Cons x pre)
  have n: "\<not> prefix (c # r) (x # pre)" "\<not> sublist (c # r) pre"
    using Cons.prems by (auto simp: sublist_Cons_right)
  have "\<not> prefix (c # r) ((x # pre) @ (c # r) @ post)"
    by (rule no_straddle [OF assms(1) n(1)]) simp
  with Cons.IH [OF n(2)] show ?case by simp
qed simp

lemma sublist_single: "sublist [c] s \<longleftrightarrow> c \<in> set s"
  by (auto simp: sublist_def in_set_conv_decomp)

section \<open>Character arrays\<close>

text \<open>\<open>strncpy\<close> into an array: it copies up to \<open>n\<close> bytes and fills up to \<open>n\<close> with NUL.\<close>

definition c_strncpy :: "byte list \<Rightarrow> cstr \<Rightarrow> nat \<Rightarrow> byte list res" where
  "c_strncpy dst src n = (if length dst < n then Inl OutOfBounds
     else Inr (take n src @ replicate (n - length src) 0 @ drop n dst))"

text \<open>The string an array holds; reading on past its end is undefined.\<close>

definition arr_str :: "byte list \<Rightarrow> cstr res" where
  "arr_str a = (if 0 \<in> set a then Inr (takeWhile (\<lambda>b. b \<noteq> 0) a) else Inl OutOfBounds)"

definition c_isspace :: "byte \<Rightarrow> bool" where
  "c_isspace b \<longleftrightarrow> b \<in> {9, 10, 11, 12, 13, 32}"

text \<open>What a buffer holds as a string after \<open>bs\<close> was read into it and closed with a NUL.\<close>

definition buf_str :: "byte list \<Rightarrow> cstr" where
  "buf_str bs = takeWhile (\<lambda>b. b \<noteq> 0) bs"

lemma buf_str_ok [simp]: "cstr_ok (buf_str bs)"
  by (auto simp: buf_str_def cstr_ok_def dest: set_takeWhileD)

lemma buf_str_id: "cstr_ok bs \<Longrightarrow> buf_str bs = bs"
  by (auto simp: buf_str_def cstr_ok_def takeWhile_eq_all_conv)

lemma takeWhile_zeros: "cstr_ok s \<Longrightarrow> takeWhile (\<lambda>b. b \<noteq> 0) (s @ 0 # t) = s"
  by (induction s) (auto simp: cstr_ok_def)

lemma arr_str_copied:
  assumes "cstr_ok s" "length s < k"
  shows "arr_str (s @ replicate (k - length s) 0) = Inr s"
proof -
  obtain j where "k - length s = Suc j" using assms(2) by (metis Suc_diff_Suc)
  then show ?thesis using takeWhile_zeros [OF assms(1)] by (simp add: arr_str_def)
qed

lemma c_strncpy_zeros:
  assumes "n \<le> length src" "n \<le> k"
  shows "c_strncpy (replicate k 0) src n = Inr (take n src @ replicate (k - n) 0)"
  using assms by (simp add: c_strncpy_def)

end
