(* ===== verification/Utils.thy ===== *)
theory Utils
  imports Posix CString
begin

text \<open>
  \<open>utils.c\<close>: complete reads and writes, the connection to the destination, and the parser
  of the host header.  What the functions print is left out.
\<close>

section \<open>Definitions\<close>

record hostinfo =
  hostname :: "byte list"
  port :: "byte list"

text \<open>
  \<open>read_all_from_socket\<close>; \<open>got\<close> is what was stored in the buffer so far, its length is
  \<open>amountRead\<close>.  One \<open>read\<close> returns less than \<open>2 ^ 31\<close> bytes, so that the \<open>int\<close>
  holds the count.
\<close>

function read_all_from_socket :: "int \<Rightarrow> nat \<Rightarrow> byte list \<Rightarrow> (int \<times> byte list) io" where
  "read_all_from_socket fd count got w =
     (if length got < count then
        iob (sys_read fd (count - length got)) (\<lambda>r w1. case r of
            Failed e \<Rightarrow> if e = EINTR then read_all_from_socket fd count got w1
              else ret (- 1, got) w1
          | Got bs \<Rightarrow> if bs = [] then ret (int (length got), got) w1
              else read_all_from_socket fd count (got @ bs) w1) w
      else (Inr (int (length got), got), w))"
  by pat_completeness auto
termination
  by (relation "measure (\<lambda>(fd, count, got, w). weight (inputs w fd))")
    (auto dest: sys_read_weight)

text \<open>\<open>write_all_to_socket\<close>; \<open>rest\<close> is the part of the buffer after \<open>attempt\<close> bytes.\<close>

function write_all_to_socket :: "int \<Rightarrow> byte list \<Rightarrow> nat \<Rightarrow> int io" where
  "write_all_to_socket fd buffer attempt w =
     (if attempt < length buffer then
        iob (sys_write fd (drop attempt buffer)) (\<lambda>r w1. case r of
            Wrote n \<Rightarrow> if n = 0 then ret (int attempt) w1
              else write_all_to_socket fd buffer (attempt + n) w1
          | WFailed e \<Rightarrow> if e = EINTR then write_all_to_socket fd buffer attempt w1
              else ret (- 1) w1) w
      else (Inr (int attempt), w))"
  by pat_completeness auto
termination
  by (relation "measure (\<lambda>(fd, buffer, attempt, w). (length buffer - attempt) + length (outs w fd))")
    (auto simp: sys_write_def split: list.splits outp.splits)

declare read_all_from_socket.simps [simp del] write_all_to_socket.simps [simp del]

text \<open>
  \<open>connect_to_server\<close>.  When \<open>getaddrinfo\<close> fails it does not set \<open>result\<close>, which the
  argument of \<open>connect\<close> reads before the code looks at \<open>s\<close>.
\<close>

definition connect_to_server :: "cstr \<Rightarrow> cstr \<Rightarrow> int io" where
  "connect_to_server host pt = iob (sys_resolve host pt) (\<lambda>result.
     iob sys_socket (\<lambda>serverSocket. case result of
         Inl s \<Rightarrow> halt UninitRead
       | Inr [] \<Rightarrow> halt NullDeref
       | Inr (ai # ais) \<Rightarrow> iob (sys_connect serverSocket ai) (\<lambda>c.
           if c = - 1 then iob (emit (FreedAddr (ai # ais))) (\<lambda>_. ret (- 1))
           else iob (emit (FreedAddr (ai # ais))) (\<lambda>_. ret serverSocket))))"

text \<open>
  \<open>parseHost\<close>.  Without a \<open>"Host: "\<close> the search for the colon starts at \<open>NULL + 6\<close>;
  without a line end behind the port the length given to \<open>strncpy\<close> is a wrapped difference.
\<close>

definition parseHost :: "cstr \<Rightarrow> hostinfo res" where
  "parseHost request = (case c_strstr request (cs ''Host: '') of None \<Rightarrow> Inl NullDeref
     | Some p \<Rightarrow> let hostStart = drop (p + 6) request in
       (case c_strstr hostStart (cs '':'') of None \<Rightarrow> Inl AssertFail
        | Some n \<Rightarrow> rbind (c_strncpy (replicate 1024 0) hostStart n) (\<lambda>h.
            let portStart = drop (n + 1) hostStart in
            (case c_strstr portStart crlf of None \<Rightarrow> Inl OutOfBounds
             | Some k \<Rightarrow> rbind (c_strncpy (replicate 32 0) portStart k) (\<lambda>pt.
                 Inr \<lparr>hostname = h, port = pt\<rparr>)))))"

section \<open>Complete reads\<close>

text \<open>What a complete read of \<open>count\<close> bytes of a stream returns.\<close>

definition read_spec :: "nat \<Rightarrow> byte list \<Rightarrow> byte list \<times> stream_end \<Rightarrow> (int \<times> byte list) res" where
  "read_spec count got = (\<lambda>(bs, e).
     if count \<le> length got + length bs then
       Inr (int (max count (length got)), got @ take (count - length got) bs)
     else (case e of AtEof \<Rightarrow> Inr (int (length got + length bs), got @ bs)
       | AtErr _ \<Rightarrow> Inr (- 1, got @ bs) | Pending \<Rightarrow> Inl Blocked))"

lemma read_spec_step:
  assumes "bs \<noteq> []" "length got + length bs \<le> count"
  shows "read_spec count (got @ bs) (later, e) = read_spec count got (bs @ later, e)"
  using assms by (cases e) (auto simp: read_spec_def max_def)

lemma read_all_spec:
  "fst (read_all_from_socket fd count got w) = read_spec count got (stream (inputs w fd))"
proof (induction fd count got w rule: read_all_from_socket.induct)
  case (1 fd count got w)
  show ?case
  proof (cases "length got < count")
    case lt: True
    define n where "n = count - length got"
    have n: "0 < n" using lt by (simp add: n_def)
    show ?thesis
    proof (cases "take_input n (inputs w fd)")
      case None
      then have "sys_read fd n w = (Inl Blocked, w)" by (simp add: sys_read_def)
      moreover have "stream (inputs w fd) = ([], Pending)" using None by (simp add: take_input_None)
      ultimately show ?thesis using lt by (simp add: read_all_from_socket.simps [of fd] n_def read_spec_def)
    next
      case (Some p)
      obtain r is' where p: "p = (r, is')" by (cases p)
      define w' where "w' = w\<lparr>inputs := (inputs w)(fd := is')\<rparr>"
      have rd: "sys_read fd n w = (Inr r, w')" using Some p by (simp add: sys_read_def w'_def)
      have i': "inputs w' fd = is'" by (simp add: w'_def)
      note step = read_all_from_socket.simps [of fd count got w] and rd' = rd [unfolded n_def]
      show ?thesis
      proof (cases r)
        case (Failed e)
        note f = stream_failed [OF Some [unfolded p Failed]]
        show ?thesis
        proof (cases "e = EINTR")
          case True
          then show ?thesis
            using 1(2) [OF lt rd' Failed True] lt rd' Failed f i' by (simp add: step)
        next
          case False
          then show ?thesis using lt rd' Failed f by (simp add: step read_spec_def)
        qed
      next
        case (Got bs)
        note g = stream_got [OF Some [unfolded p Got] n]
        show ?thesis
        proof (cases "bs = []")
          case True
          then show ?thesis using lt rd' Got g(1) by (simp add: step read_spec_def)
        next
          case False
          have "length got + length bs \<le> count" using g(2) lt by (simp add: n_def)
          then show ?thesis
            using 1(1) [OF lt rd' Got False] lt rd' Got False g(1) i'
              read_spec_step [OF False, of got count "fst (stream is')" "snd (stream is')"]
            by (simp add: step)
        qed
      qed
    qed
  qed (simp add: read_all_from_socket.simps [of fd count got w] read_spec_def max_def split: prod.split)
qed

text \<open>A read that got all it asked for leaves the rest of the stream.\<close>

lemma read_all_rest:
  assumes "read_all_from_socket fd count got w = (Inr (int count, bs), w')" "length got \<le> count"
  shows "stream (inputs w' fd) =
    (drop (count - length got) (fst (stream (inputs w fd))), snd (stream (inputs w fd)))"
  using assms
proof (induction fd count got w rule: read_all_from_socket.induct)
  case (1 fd count got w)
  note step = read_all_from_socket.simps [of fd count got w]
  show ?case
  proof (cases "length got < count")
    case lt: True
    have n: "0 < count - length got" using lt by simp
    show ?thesis
    proof (cases "take_input (count - length got) (inputs w fd)")
      case None
      then have "sys_read fd (count - length got) w = (Inl Blocked, w)" by (simp add: sys_read_def)
      then show ?thesis using 1(3) lt by (simp add: step)
    next
      case (Some p)
      obtain r is' where p: "p = (r, is')" by (cases p)
      define w1 where "w1 = w\<lparr>inputs := (inputs w)(fd := is')\<rparr>"
      have rd: "sys_read fd (count - length got) w = (Inr r, w1)"
        using Some p by (simp add: sys_read_def w1_def)
      have i': "inputs w1 fd = is'" by (simp add: w1_def)
      show ?thesis
      proof (cases r)
        case (Failed e)
        note f = stream_failed [OF Some [unfolded p Failed]]
        show ?thesis
          using 1(2) [OF lt rd Failed] 1(3,4) lt rd Failed f i' by (cases "e = EINTR") (simp_all add: step)
      next
        case (Got new)
        note g = stream_got [OF Some [unfolded p Got] n]
        show ?thesis
        proof (cases "new = []")
          case False
          have le: "length (got @ new) \<le> count" using g(2) lt by simp
          have "read_all_from_socket fd count (got @ new) w1 = (Inr (int count, bs), w')"
            using 1(3) lt rd Got False by (simp add: step)
          then show ?thesis using 1(1) [OF lt rd Got False _ le] g False i' by simp
        qed (use 1(3) lt rd Got in \<open>simp add: step\<close>)
      qed
    qed
  qed (use 1(3,4) in \<open>simp add: step\<close>)
qed

section \<open>Complete writes\<close>

text \<open>Outcomes without a hard error and without a write of nothing.\<close>

definition good_outs :: "outp list \<Rightarrow> bool" where
  "good_outs os \<longleftrightarrow> (\<forall>x \<in> set os. case x of Took k \<Rightarrow> 0 < k | WErr e \<Rightarrow> e = EINTR)"

text \<open>
  \<open>wrote fd bytes w w'\<close>: the only effects between the two worlds are writes to \<open>fd\<close>, of
  \<open>bytes\<close> in all.
\<close>

definition wrote :: "int \<Rightarrow> byte list \<Rightarrow> world \<Rightarrow> world \<Rightarrow> bool" where
  "wrote fd bytes w w' \<longleftrightarrow> (\<exists>os pieces. concat pieces = bytes \<and> set os \<subseteq> set (outs w fd)
     \<and> w' = w\<lparr>outs := (outs w)(fd := os), trace := trace w @ map (Sent fd) pieces\<rparr>)"

lemma wrote_refl: "wrote fd [] w w"
  unfolding wrote_def by (intro exI [of _ "outs w fd"] exI [of _ "[]"]) simp

lemma wrote_trans:
  assumes "wrote fd a w w1" "wrote fd b w1 w2"
  shows "wrote fd (a @ b) w w2"
proof -
  obtain os ps where 1: "concat ps = a" "set os \<subseteq> set (outs w fd)"
    "w1 = w\<lparr>outs := (outs w)(fd := os), trace := trace w @ map (Sent fd) ps\<rparr>"
    using assms(1) by (auto simp: wrote_def)
  obtain os' ps' where 2: "concat ps' = b" "set os' \<subseteq> set (outs w1 fd)"
    "w2 = w1\<lparr>outs := (outs w1)(fd := os'), trace := trace w1 @ map (Sent fd) ps'\<rparr>"
    using assms(2) by (auto simp: wrote_def)
  show ?thesis
    unfolding wrote_def
    by (intro exI [of _ os'] exI [of _ "ps @ ps'"]) (use 1 2 in auto)
qed

lemma wroteD:
  assumes "wrote fd bytes w w'"
  shows "sent fd (trace w') = sent fd (trace w) @ bytes"
    "fd' \<noteq> fd \<Longrightarrow> sent fd' (trace w') = sent fd' (trace w)"
    "inputs w' = inputs w" "answers w' = answers w" "resolver w' = resolver w"
    "fd' \<noteq> fd \<Longrightarrow> outs w' fd' = outs w fd'" "good_outs (outs w fd) \<Longrightarrow> good_outs (outs w' fd)"
  using assms by (auto simp: wrote_def good_outs_def)

lemma sys_write_wrote:
  "\<exists>r w'. sys_write fd bs w = (Inr r, w')
    \<and> (case r of Wrote n \<Rightarrow> n \<le> length bs \<and> wrote fd (take n bs) w w'
         \<and> (n = 0 \<longrightarrow> bs = [] \<or> Took 0 \<in> set (outs w fd))
       | WFailed e \<Rightarrow> wrote fd [] w w' \<and> WErr e \<in> set (outs w fd))"
proof (cases "outs w fd")
  case Nil
  then have "wrote fd bs w (w\<lparr>trace := trace w @ [Sent fd bs]\<rparr>)"
    unfolding wrote_def by (intro exI [of _ "[]"] exI [of _ "[bs]"]) (auto simp: fun_upd_idem)
  with Nil show ?thesis by (simp add: sys_write_def)
next
  case (Cons x os)
  show ?thesis
  proof (cases x)
    case (Took k)
    have "wrote fd (take (min k (length bs)) bs) w
        (w\<lparr>outs := (outs w)(fd := os), trace := trace w @ [Sent fd (take k bs)]\<rparr>)"
      unfolding wrote_def using Cons
      by (intro exI [of _ os] exI [of _ "[take k bs]"]) (auto simp: min_def)
    with Cons Took show ?thesis by (auto simp: sys_write_def min_def)
  next
    case (WErr e)
    have "wrote fd [] w (w\<lparr>outs := (outs w)(fd := os)\<rparr>)"
      unfolding wrote_def using Cons by (intro exI [of _ os] exI [of _ "[]"]) auto
    with Cons WErr show ?thesis by (simp add: sys_write_def)
  qed
qed

lemma sys_write_some:
  obtains r w' bytes where "sys_write fd bs w = (Inr r, w')" "wrote fd bytes w w'"
proof -
  obtain r w' where "sys_write fd bs w = (Inr r, w')" "case r of
      Wrote n \<Rightarrow> wrote fd (take n bs) w w' | WFailed e \<Rightarrow> wrote fd [] w w'"
    using sys_write_wrote [of fd bs w] by (fastforce split: wres.splits)
  then show thesis using that by (cases r) auto
qed

text \<open>The outcome from position \<open>a\<close> on: the bytes up to a position \<open>n\<close>, which is the result, or -1.\<close>

definition writes_from :: "int \<Rightarrow> byte list \<Rightarrow> nat \<Rightarrow> world \<Rightarrow> int res \<times> world \<Rightarrow> bool" where
  "writes_from fd buf a w out \<longleftrightarrow> (\<exists>rc n w'. out = (Inr rc, w') \<and> a \<le> n \<and> n \<le> length buf
    \<and> wrote fd (take (n - a) (drop a buf)) w w' \<and> (rc = int n \<or> rc = - 1)
    \<and> (good_outs (outs w fd) \<longrightarrow> rc = int (length buf) \<and> n = length buf))"

lemma writes_pass:
  assumes "writes_from fd buf (a + k) w1 out" "wrote fd (take k (drop a buf)) w w1"
  shows "writes_from fd buf a w out"
proof -
  obtain rc n w' where o: "out = (Inr rc, w')" "a + k \<le> n" "n \<le> length buf"
    "wrote fd (take (n - (a + k)) (drop (a + k) buf)) w1 w'" "rc = int n \<or> rc = - 1"
    "good_outs (outs w1 fd) \<longrightarrow> rc = int (length buf) \<and> n = length buf"
    using assms(1) unfolding writes_from_def by blast
  have "take k (drop a buf) @ take (n - (a + k)) (drop (a + k) buf) = take (n - a) (drop a buf)"
    using o(2) take_add [of k "n - (a + k)" "drop a buf"] by (simp add: add.commute)
  then have "wrote fd (take (n - a) (drop a buf)) w w'" using wrote_trans [OF assms(2) o(4)] by simp
  then show ?thesis unfolding writes_from_def
    using o wroteD(7) [OF assms(2)] by (intro exI [of _ rc] exI [of _ n] exI [of _ w']) auto
qed

lemma writes_stop:
  assumes "wrote fd [] w w'" "a \<le> length buf" "rc = int a \<or> rc = - 1"
    "\<not> good_outs (outs w fd) \<or> rc = int (length buf) \<and> a = length buf"
  shows "writes_from fd buf a w (Inr rc, w')"
  unfolding writes_from_def by (intro exI [of _ rc] exI [of _ a] exI [of _ w']) (use assms in auto)

lemma not_good_outs: "Took 0 \<in> set os \<Longrightarrow> \<not> good_outs os" "WErr e \<in> set os \<Longrightarrow> e \<noteq> EINTR \<Longrightarrow> \<not> good_outs os"
  by (force simp: good_outs_def)+

lemma write_all_writes: "a \<le> length buf \<Longrightarrow> writes_from fd buf a w (write_all_to_socket fd buf a w)"
proof (induction fd buf a w rule: write_all_to_socket.induct)
  case (1 fd buf a w)
  note step = write_all_to_socket.simps [of fd buf a w]
  show ?case
  proof (cases "a < length buf")
    case lt: True
    obtain r w1 where sw: "sys_write fd (drop a buf) w = (Inr r, w1)"
      and r: "case r of Wrote n \<Rightarrow> n \<le> length (drop a buf) \<and> wrote fd (take n (drop a buf)) w w1
         \<and> (n = 0 \<longrightarrow> drop a buf = [] \<or> Took 0 \<in> set (outs w fd))
       | WFailed e \<Rightarrow> wrote fd [] w w1 \<and> WErr e \<in> set (outs w fd)"
      using sys_write_wrote [of fd "drop a buf" w] by auto
    consider (some) k where "r = Wrote k" "k \<noteq> 0" | (none) "r = Wrote 0"
      | (again) "r = WFailed EINTR" | (fail) e where "r = WFailed e" "e \<noteq> EINTR" by (cases r) auto
    then show ?thesis
    proof cases
      case (some k)
      have k: "a + k \<le> length buf" "wrote fd (take k (drop a buf)) w w1" using r some lt by auto
      show ?thesis using writes_pass [OF 1(1) [OF lt sw some k(1)] k(2)] lt sw some by (simp add: step)
    next
      case none
      then have "wrote fd [] w w1" "\<not> good_outs (outs w fd)" using r lt not_good_outs by auto
      then show ?thesis using writes_stop [of fd w w1 a buf "int a"] lt sw none by (simp add: step)
    next
      case again
      then have "wrote fd (take 0 (drop a buf)) w w1" using r by simp
      with writes_pass [of fd buf a 0] 1(2) [OF lt sw again refl 1(3)] show ?thesis
        using lt sw again by (simp add: step)
    next
      case (fail e)
      then have "wrote fd [] w w1" "\<not> good_outs (outs w fd)" using r not_good_outs(2) by auto
      then show ?thesis using writes_stop [of fd w w1 a buf "- 1"] lt sw fail by (simp add: step)
    qed
  next
    case False
    then have "write_all_to_socket fd buf a w = (Inr (int a), w)" by (simp add: step)
    moreover have "a = length buf" using 1(3) False by simp
    ultimately show ?thesis using wrote_refl [of fd w] writes_stop [of fd w w a buf "int a"] by simp
  qed
qed

lemma write_all_effect:
  assumes "a \<le> length buf"
  shows "\<exists>rc n w'. write_all_to_socket fd buf a w = (Inr rc, w') \<and> a \<le> n \<and> n \<le> length buf
    \<and> wrote fd (take (n - a) (drop a buf)) w w' \<and> (rc = int n \<or> rc = - 1)
    \<and> (good_outs (outs w fd) \<longrightarrow> rc = int (length buf) \<and> n = length buf)"
  using write_all_writes [OF assms] unfolding writes_from_def .

section \<open>The host header\<close>

lemma host_needle: "cs ''Host: '' = 72 # cs ''ost: ''" "72 \<notin> set (cs ''ost: '')"
  "length (cs ''Host: '') = 6" "cs '':'' = [58]"
  by (simp_all add: cs_def)

lemma crlf_needle: "crlf = 13 # [10]" "13 \<notin> set [10 :: byte]"
  by (simp_all add: crlf_def)

text \<open>The shape of a request the parser accepts.\<close>

definition host_line :: "cstr \<Rightarrow> cstr \<Rightarrow> cstr \<Rightarrow> cstr \<Rightarrow> cstr" where
  "host_line pre h pt post = pre @ cs ''Host: '' @ h @ cs '':'' @ pt @ crlf @ post"

definition host_parts :: "cstr \<Rightarrow> cstr \<Rightarrow> cstr \<Rightarrow> bool" where
  "host_parts pre h pt \<longleftrightarrow> \<not> sublist (cs ''Host: '') pre \<and> 58 \<notin> set h \<and> \<not> sublist crlf pt
     \<and> length h \<le> 1024 \<and> length pt \<le> 32"

lemma parseHost_line:
  assumes "host_parts pre h pt"
  shows "parseHost (host_line pre h pt post) = Inr
    \<lparr>hostname = h @ replicate (1024 - length h) 0, port = pt @ replicate (32 - length pt) 0\<rparr>"
proof -
  note a = assms [unfolded host_parts_def]
  let ?r = "host_line pre h pt post"
  let ?s = "h @ [58] @ pt @ crlf @ post"
  have "c_strstr (pre @ (72 # cs ''ost: '') @ ?s) (72 # cs ''ost: '') = Some (length pre)"
    using a by (intro c_strstr_first) (simp_all add: host_needle)
  then have 1: "c_strstr ?r (cs ''Host: '') = Some (length pre)"
    by (simp add: host_line_def host_needle)
  have d: "drop (length pre + 6) ?r = ?s" by (simp add: host_line_def cs_def)
  have 2: "c_strstr ?s (cs '':'') = Some (length h)"
    using a c_strstr_first [of 58 "[]" h "pt @ crlf @ post"] by (simp add: host_needle sublist_single)
  have 3: "c_strstr (pt @ crlf @ post) crlf = Some (length pt)"
    using a c_strstr_first [OF crlf_needle(2), of pt post] by (simp add: crlf_needle)
  show ?thesis
    using a unfolding parseHost_def 1 option.case Let_def d 2
    by (simp add: c_strncpy_zeros 3)
qed

lemma parseHost_shape:
  assumes "parseHost r = Inr info"
  shows "\<exists>pre h pt post. r = host_line pre h pt post \<and> host_parts pre h pt"
proof -
  obtain p where p: "c_strstr r (cs ''Host: '') = Some p" using assms by (auto simp: parseHost_def split: option.splits)
  define s where "s = drop (p + 6) r"
  obtain n where n: "c_strstr s (cs '':'') = Some n"
    using assms p by (auto simp: parseHost_def s_def Let_def split: option.splits)
  have n1: "n \<le> 1024"
    using assms p n by (auto simp: parseHost_def s_def Let_def c_strncpy_def split: if_splits)
  define t where "t = drop (n + 1) s"
  have t': "drop (Suc n) s = t" by (simp add: t_def)
  obtain k where k: "c_strstr t crlf = Some k"
    using assms p n by (auto simp: parseHost_def s_def [symmetric] t_def Let_def rbind_eq_Inr split: option.splits)
  have k1: "k \<le> 32"
    using assms p n k by (auto simp: parseHost_def s_def [symmetric] t' Let_def rbind_eq_Inr
        c_strncpy_def split: if_splits)
  note P = c_strstr_split [OF p] and N = c_strstr_split [OF n] and K = c_strstr_split [OF k]
  have "r = take p r @ cs ''Host: '' @ s" using P(1) by (simp add: s_def host_needle(3))
  moreover have "s = take n s @ cs '':'' @ t" using N(1) by (simp add: t_def cs_def)
  moreover have "t = take k t @ crlf @ drop (k + length crlf) t" using K(1) .
  ultimately have "r = host_line (take p r) (take n s) (take k t) (drop (k + length crlf) t)"
    unfolding host_line_def by metis
  moreover have "host_parts (take p r) (take n s) (take k t)"
    unfolding host_parts_def using P(2) N(2) K(2) n1 k1
    by (auto simp: cs_def crlf_def sublist_single)
  ultimately show ?thesis by blast
qed

section \<open>Properties\<close>

text \<open>
  C23.  \<open>read_all_from_socket\<close> returns the first \<open>count\<close> bytes of the stream however the
  kernel cuts it up and however often a read is interrupted; at the end of the stream it
  returns what there was, after an error -1, and it waits when bytes are still missing.
\<close>

theorem read_all_correct:
  "fst (read_all_from_socket fd count [] w) = (case stream (inputs w fd) of (bs, e) \<Rightarrow>
     if count \<le> length bs then Inr (int count, take count bs)
     else (case e of AtEof \<Rightarrow> Inr (int (length bs), bs) | AtErr _ \<Rightarrow> Inr (- 1, bs)
       | Pending \<Rightarrow> Inl Blocked))"
  unfolding read_all_spec read_spec_def by (simp split: prod.split stream_end.split)

text \<open>
  C24.  \<open>write_all_to_socket\<close> always returns.  It writes a prefix of the buffer to its
  descriptor and nothing else; it returns the length of that prefix or -1, and when the kernel
  takes at least one byte per call and fails with \<open>EINTR\<close> only, the whole buffer is written.
\<close>

theorem write_all_correct:
  "\<exists>rc n w' ps. write_all_to_socket fd buf 0 w = (Inr rc, w') \<and> n \<le> length buf
     \<and> trace w' = trace w @ map (Sent fd) ps \<and> concat ps = take n buf \<and> (rc = int n \<or> rc = - 1)
     \<and> (good_outs (outs w fd) \<longrightarrow> rc = int (length buf) \<and> concat ps = buf)"
proof -
  obtain rc n w' where w: "write_all_to_socket fd buf 0 w = (Inr rc, w')" "n \<le> length buf"
    "wrote fd (take n buf) w w'" "rc = int n \<or> rc = - 1"
    "good_outs (outs w fd) \<longrightarrow> rc = int (length buf) \<and> n = length buf"
    using write_all_effect [of 0 buf fd w] by auto
  obtain ps where "concat ps = take n buf" "trace w' = trace w @ map (Sent fd) ps"
    using w(3) by (auto simp: wrote_def)
  with w show ?thesis
    by (intro exI [of _ rc] exI [of _ n] exI [of _ w'] exI [of _ ps]) auto
qed

theorem write_all_correct_witness:
  "\<exists>rc n w' ps. write_all_to_socket 3 [1, 2, 3] 0 \<lparr>inputs = (\<lambda>_. []),
       outs = (\<lambda>_. [Took 1, WErr EINTR, Took 1]), answers = [], resolver = (\<lambda>_ _. Inl 1), trace = []\<rparr>
     = (Inr rc, w') \<and> trace w' = map (Sent 3) ps \<and> rc = 3 \<and> concat ps = [1, 2, 3]"
  using write_all_correct [of 3 "[1, 2, 3]" "\<lparr>inputs = (\<lambda>_. []),
       outs = (\<lambda>_. [Took 1, WErr EINTR, Took 1]), answers = [], resolver = (\<lambda>_ _. Inl 1), trace = []\<rparr>"]
  by (auto simp: good_outs_def)

text \<open>
  C14.  Round trip: from a request that carries the line \<open>Host: h:pt\<close>, with no \<open>"Host: "\<close> before
  it, a host of less than 1024 bytes without a colon and a port of less than 32 bytes, \<open>parseHost\<close>
  fills the two arrays with strings that read back as \<open>h\<close> and \<open>pt\<close>.
\<close>

theorem parse_host_roundtrip:
  assumes "host_parts pre h pt" "length h < 1024" "length pt < 32" "cstr_ok h" "cstr_ok pt"
  shows "\<exists>info. parseHost (host_line pre h pt post) = Inr info
     \<and> arr_str (hostname info) = Inr h \<and> arr_str (port info) = Inr pt"
  using parseHost_line [OF assms(1), of post] arr_str_copied [OF assms(4,2)] arr_str_copied [OF assms(5,3)]
  by simp

theorem parse_host_roundtrip_witness:
  "\<exists>info. parseHost (host_line (cs ''GET'') (cs ''a.com'') (cs ''80'') []) = Inr info
     \<and> arr_str (hostname info) = Inr (cs ''a.com'') \<and> arr_str (port info) = Inr (cs ''80'')"
  by (rule parse_host_roundtrip)
    (simp_all add: host_parts_def cs_def cstr_ok_def crlf_def c_strstr_None [symmetric])

text \<open>
  C25.  \<open>parseHost\<close> has a result exactly for the requests that carry a line \<open>Host: h:pt\<close> with a
  host of at most 1024 bytes without a colon and a port of at most 32 bytes; on every other request its behaviour is undefined or it aborts.  After a
  host of exactly 1024 bytes the array \<open>hostname\<close> does not hold a terminated string, and after a port
  of exactly 32 bytes the array \<open>port\<close> does not.
\<close>

theorem parse_host_defined:
  "((\<exists>info. parseHost r = Inr info) \<longleftrightarrow> (\<exists>pre h pt post. r = host_line pre h pt post \<and> host_parts pre h pt))
   \<and> (\<not> sublist (cs ''Host: '') r \<longrightarrow> parseHost r = Inl NullDeref)
   \<and> (\<forall>pre h pt post. host_parts pre h pt \<longrightarrow> (\<exists>info. parseHost (host_line pre h pt post) = Inr info
        \<and> (cstr_ok h \<longrightarrow> length h = 1024 \<longrightarrow> arr_str (hostname info) = Inl OutOfBounds)
        \<and> (cstr_ok pt \<longrightarrow> length pt = 32 \<longrightarrow> arr_str (port info) = Inl OutOfBounds)))"
proof (intro conjI impI allI)
  show "(\<exists>info. parseHost r = Inr info) \<longleftrightarrow>
      (\<exists>pre h pt post. r = host_line pre h pt post \<and> host_parts pre h pt)"
    using parseHost_shape [of r] parseHost_line by blast
  show "parseHost r = Inl NullDeref" if "\<not> sublist (cs ''Host: '') r"
    using that by (simp add: parseHost_def c_strstr_None [symmetric])
  fix pre h pt post assume "host_parts pre h pt"
  then show "\<exists>info. parseHost (host_line pre h pt post) = Inr info
      \<and> (cstr_ok h \<longrightarrow> length h = 1024 \<longrightarrow> arr_str (hostname info) = Inl OutOfBounds)
      \<and> (cstr_ok pt \<longrightarrow> length pt = 32 \<longrightarrow> arr_str (port info) = Inl OutOfBounds)"
    using parseHost_line [of pre h pt post] by (simp add: arr_str_def cstr_ok_def)
qed

theorem parse_host_defined_witness:
  "parseHost (cs ''GET'') = Inl NullDeref
   \<and> (\<exists>info. parseHost (host_line [] (cs ''a.com'') (replicate 32 56) []) = Inr info
        \<and> arr_str (port info) = Inl OutOfBounds)"
proof -
  have "\<not> sublist (cs ''Host: '') (cs ''GET'')" by (simp add: c_strstr_None [symmetric] cs_def)
  moreover have "\<not> sublist crlf (replicate 32 56)" by (auto simp: crlf_def dest!: set_mono_sublist)
  then have "host_parts [] (cs ''a.com'') (replicate 32 56)" "cstr_ok (replicate 32 56)"
    by (simp_all add: host_parts_def cs_def cstr_ok_def sublist_Nil_right)
  moreover have "length (replicate 32 (56 :: byte)) = 32" by (rule length_replicate)
  ultimately show ?thesis using parse_host_defined [of "cs ''GET''"] by blast
qed

end
