(* ===== verification/Relay.thy ===== *)
theory Relay
  imports Utils
begin

text \<open>
  The loop of the proxy threads of \<open>server.c\<close> that copies what one descriptor delivers to
  another one, and what it does to the world.
\<close>

section \<open>The loop\<close>

lemma sys_write_inputs: "sys_write fd bs w = (r, w') \<Longrightarrow> inputs w' = inputs w"
  by (auto simp: sys_write_def split: list.splits outp.splits)

lemma relay_decreases:
  assumes "sys_read src cap w = (Inr (Got bs), w1)" "bs \<noteq> []" "sys_write dst bs w1 = (Inr n, w2)"
  shows "weight (inputs w2 src) < weight (inputs w src)"
  using sys_read_weight [OF assms(1)] assms(2) sys_write_inputs [OF assms(3)] by simp

text \<open>
  The read-and-write loop, which \<open>HostToCli\<close> runs from the destination to the client and
  \<open>HandleConnection\<close> the other way.  The result of the write is not looked at.
\<close>

function relay :: "nat \<Rightarrow> int \<Rightarrow> int \<Rightarrow> unit io" where
  "relay cap src dst w = iob (sys_read src cap) (\<lambda>r w1. case r of
       Failed e \<Rightarrow> if e = EINTR then relay cap src dst w1 else ret () w1
     | Got bs \<Rightarrow> if bs = [] then ret () w1
         else iob (sys_write dst bs) (\<lambda>n w2. relay cap src dst w2) w1) w"
  by pat_completeness auto
termination
  by (relation "measure (\<lambda>(cap, src, dst, w). weight (inputs w src))")
    (auto dest: sys_read_weight relay_decreases)

declare relay.simps [simp del]

section \<open>The relay\<close>

text \<open>What a write does, whatever its result.\<close>

lemma sys_write_effect:
  assumes "sys_write dst bs w = (Inr n, w')"
  obtains os ps where "w' = w\<lparr>outs := (outs w)(dst := os), trace := trace w @ map (Sent dst) ps\<rparr>"
    "prefix (concat ps) bs" "outs w dst = [] \<longrightarrow> concat ps = bs \<and> os = []"
proof (cases "outs w dst")
  case Nil
  then show thesis using assms that [where os = "[]" and ps = "[bs]"] by (auto simp: sys_write_def fun_upd_idem)
next
  case (Cons x os)
  then show thesis
    using assms that [where os = os and ps = "case x of Took k \<Rightarrow> [take k bs] | WErr e \<Rightarrow> []"]
    by (auto simp: sys_write_def take_is_prefix split: outp.splits)
qed

text \<open>
  \<open>relays\<close>: the outcome of the loop.  It waits for ever when the source does; it has written to
  its destination only, a subsequence of the source's stream, all of it if no write is cut short.
\<close>

definition relays :: "int \<Rightarrow> int \<Rightarrow> world \<Rightarrow> unit res \<times> world \<Rightarrow> bool" where
  "relays src dst w out \<longleftrightarrow> (\<exists>js os pieces. out =
      (if snd (stream (inputs w src)) = Pending then Inl Blocked else Inr (),
       w\<lparr>inputs := (inputs w)(src := js), outs := (outs w)(dst := os),
         trace := trace w @ map (Sent dst) pieces\<rparr>)
    \<and> subseq (concat pieces) (fst (stream (inputs w src)))
    \<and> (outs w dst = [] \<longrightarrow> concat pieces = fst (stream (inputs w src))))"

lemma relays_stop:
  "fst (stream (inputs w src)) = [] \<Longrightarrow>
    r = (if snd (stream (inputs w src)) = Pending then Inl Blocked else Inr ()) \<Longrightarrow>
    relays src dst w (r, w\<lparr>inputs := (inputs w)(src := js)\<rparr>)"
  unfolding relays_def
  by (intro exI [of _ js] exI [of _ "outs w dst"] exI [of _ "[]"]) (simp add: fun_upd_idem)

text \<open>One pass: \<open>bs\<close> was read, \<open>ps\<close> was written of it.\<close>

lemma relays_pass:
  assumes "relays src dst (w\<lparr>inputs := (inputs w)(src := is), outs := (outs w)(dst := os),
      trace := trace w @ map (Sent dst) ps\<rparr>) out"
    and "stream (inputs w src) = (bs @ fst (stream is), snd (stream is))"
    and "prefix (concat ps) bs" "outs w dst = [] \<longrightarrow> concat ps = bs \<and> os = []"
  shows "relays src dst w out"
proof -
  obtain js os' qs where o: "out = (if snd (stream is) = Pending then Inl Blocked else Inr (),
      w\<lparr>inputs := (inputs w)(src := js), outs := (outs w)(dst := os'),
        trace := trace w @ map (Sent dst) (ps @ qs)\<rparr>)"
    "subseq (concat qs) (fst (stream is))" "os = [] \<longrightarrow> concat qs = fst (stream is)"
    using assms(1) unfolding relays_def by auto
  have "subseq (concat (ps @ qs)) (bs @ fst (stream is))"
    using o(2) assms(3) by (simp add: prefix_imp_subseq list_emb_append_mono)
  then show ?thesis unfolding relays_def assms(2)
    by (intro exI [of _ js] exI [of _ os'] exI [of _ "ps @ qs"]) (use o assms(4) in auto)
qed

lemma relays_again:
  assumes "relays src dst (w\<lparr>inputs := (inputs w)(src := is)\<rparr>) out" "stream (inputs w src) = stream is"
  shows "relays src dst w out"
  by (rule relays_pass [where w = w and os = "outs w dst" and ps = "[]" and bs = "[]"])
    (use assms in \<open>simp_all add: fun_upd_idem\<close>)

lemma relay_relays: "0 < cap \<Longrightarrow> relays src dst w (relay cap src dst w)"
proof (induction cap src dst w rule: relay.induct)
  case (1 cap src dst w)
  note step = relay.simps [of cap src dst w]
  show ?case
  proof (cases "take_input cap (inputs w src)")
    case None
    then have "sys_read src cap w = (Inl Blocked, w)" "inputs w src = []"
      by (simp_all add: sys_read_def take_input_None)
    then show ?thesis using relays_stop [of w src _ dst "inputs w src"] by (simp add: step fun_upd_idem)
  next
    case (Some p)
    obtain r is' where p: "p = (r, is')" by (cases p)
    let ?w1 = "w\<lparr>inputs := (inputs w)(src := is')\<rparr>"
    have rd: "sys_read src cap w = (Inr r, ?w1)" using Some p by (simp add: sys_read_def)
    consider (stop) "relay cap src dst w = (Inr (), ?w1)" "fst (stream (inputs w src)) = []"
        "snd (stream (inputs w src)) \<noteq> Pending"
      | (again) "r = Failed EINTR" "stream (inputs w src) = stream is'"
      | (pass) bs where "r = Got bs" "bs \<noteq> []" "stream (inputs w src) = (bs @ fst (stream is'), snd (stream is'))"
      using rd Some p stream_failed stream_got [OF _ 1(3)] by (cases r) (force simp: step split: if_splits)+
    then show ?thesis
    proof cases
      case stop
      then show ?thesis using relays_stop [of w src "Inr ()" dst is'] by simp
    next
      case again
      then have "relays src dst ?w1 (relay cap src dst w)" using 1(2) [OF rd _ refl 1(3)] rd by (simp add: step)
      then show ?thesis using again(2) by (rule relays_again)
    next
      case (pass bs)
      obtain n w2 where sw: "sys_write dst bs ?w1 = (Inr n, w2)" using sys_write_wrote [of dst bs ?w1] by blast
      then obtain os ps where w2: "w2 = ?w1\<lparr>outs := (outs w)(dst := os), trace := trace w @ map (Sent dst) ps\<rparr>"
        "prefix (concat ps) bs" "outs w dst = [] \<longrightarrow> concat ps = bs \<and> os = []"
        by (rule sys_write_effect) simp
      have "relays src dst w2 (relay cap src dst w)"
        using 1(1) [OF rd pass(1,2) sw 1(3)] rd pass sw by (simp add: step)
      then show ?thesis using pass(3) w2 by (intro relays_pass [where w = w and bs = bs and ps = ps and os = os]) simp_all
    qed
  qed
qed

lemma relay_effect:
  assumes "0 < cap"
  shows "\<exists>js os pieces. relay cap src dst w =
      (if snd (stream (inputs w src)) = Pending then Inl Blocked else Inr (),
       w\<lparr>inputs := (inputs w)(src := js), outs := (outs w)(dst := os),
         trace := trace w @ map (Sent dst) pieces\<rparr>)
    \<and> subseq (concat pieces) (fst (stream (inputs w src)))
    \<and> (outs w dst = [] \<longrightarrow> concat pieces = fst (stream (inputs w src)))"
  using relay_relays [OF assms] unfolding relays_def .

end
