(* ===== verification/Blocklist.thy ===== *)
theory Blocklist
  imports SetSpec CString
begin

text \<open>
  The block list of \<open>server.c\<close> and \<open>ssl-redirect.c\<close>: the loop of \<open>main\<close> that reads
  \<open>blocked_list.txt\<close> into a \<open>SimpleSet\<close>, and \<open>checkBlocklist\<close>.  A file is the list of
  its bytes.  The buffer \<open>getline\<close> allocates for itself is not counted.
\<close>

section \<open>Definitions\<close>

text \<open>The lines \<open>getline\<close> returns, each with its newline if it has one.\<close>

fun getlines :: "byte list \<Rightarrow> byte list \<Rightarrow> byte list list" where
  "getlines acc [] = (if acc = [] then [] else [acc])"
| "getlines acc (b # bs) =
     (if b = 10 then (acc @ [b]) # getlines [] bs else getlines (acc @ [b]) bs)"

text \<open>\<open>block_line[strlen(block_line) - 1] = 0\<close>; for an empty string the index wraps.\<close>

definition strip_line :: "byte list \<Rightarrow> cstr res" where
  "strip_line l = (let s = buf_str l in if s = [] then Inl OutOfBounds else Inr (butlast s))"

fun load_lines :: "byte list list \<Rightarrow> simple_set \<Rightarrow> mem \<Rightarrow> (simple_set \<times> mem) res" where
  "load_lines [] s m = Inr (s, m)"
| "load_lines (l # ls) s m = rbind (strip_line l) (\<lambda>k.
     rbind (set_add s k m) (\<lambda>(rc, s', m'). load_lines ls s' m'))"

text \<open>
  The set is in fresh memory, its fields not set; \<open>main\<close> does not look at what \<open>set_init\<close>
  returns.  \<open>None\<close> is a file that cannot be opened.
\<close>

definition fresh_set :: simple_set where
  "fresh_set = \<lparr>nodes = Null, number_nodes = 0, used_nodes = 0, hash_function = None\<rparr>"

definition load_blocklist :: "byte list option \<Rightarrow> mem \<Rightarrow> (simple_set \<times> mem) res" where
  "load_blocklist file m = (case file of None \<Rightarrow> Inl AssertFail
     | Some content \<Rightarrow> (case alloc m of
         (False, m1) \<Rightarrow> Inl NullDeref
       | (True, m1) \<Rightarrow> rbind (set_init fresh_set m1) (\<lambda>(rc, s, m2).
           load_lines (getlines [] content) s m2)))"

definition checkBlocklist :: "simple_set \<Rightarrow> cstr \<Rightarrow> int res" where
  "checkBlocklist blocked_set name = rbind (set_contains blocked_set name) (\<lambda>c.
     Inr (if c = SET_TRUE then 1 else 0))"

section \<open>Lines\<close>

text \<open>A text file: lines without newline or NUL bytes, and perhaps an unfinished last line.\<close>

definition plain :: "byte list \<Rightarrow> bool" where
  "plain l \<longleftrightarrow> 0 \<notin> set l \<and> 10 \<notin> set l"

definition file_of :: "byte list list \<Rightarrow> byte list \<Rightarrow> byte list" where
  "file_of ls rest = concat (map (\<lambda>l. l @ [10]) ls) @ rest"

lemma getlines_plain:
  "10 \<notin> set l \<Longrightarrow> getlines acc (l @ 10 # bs) = (acc @ l @ [10]) # getlines [] bs"
  by (induction l arbitrary: acc) auto

lemma getlines_rest: "10 \<notin> set l \<Longrightarrow> getlines acc l = (if acc @ l = [] then [] else [acc @ l])"
  by (induction l arbitrary: acc) auto

lemma getlines_file:
  assumes "\<forall>l \<in> set ls. plain l" "plain rest"
  shows "getlines [] (file_of ls rest) =
    map (\<lambda>l. l @ [10]) ls @ (if rest = [] then [] else [rest])"
  using assms(1)
proof (induction ls)
  case Nil
  then show ?case using assms(2) by (simp add: file_of_def getlines_rest plain_def)
next
  case (Cons l ls)
  have "file_of (l # ls) rest = l @ 10 # file_of ls rest" by (simp add: file_of_def)
  with Cons show ?case by (simp add: getlines_plain plain_def)
qed

lemma strip_line_plain: "plain l \<Longrightarrow> strip_line (l @ [10]) = Inr l"
proof -
  assume "plain l"
  then have "buf_str (l @ [10]) = l @ [10]" by (intro buf_str_id) (auto simp: plain_def cstr_ok_def)
  then show ?thesis by (simp add: strip_line_def)
qed

lemma strip_line_rest: "plain l \<Longrightarrow> l \<noteq> [] \<Longrightarrow> strip_line l = Inr (butlast l)"
  using buf_str_id [of l] by (simp add: strip_line_def plain_def cstr_ok_def)

lemma load_lines_add_each:
  assumes "map strip_line ls = map Inr ks"
  shows "load_lines ls s m = add_each set_add ks s m"
  using assms
proof (induction ls arbitrary: ks s m)
  case (Cons l ls)
  then obtain k ks' where "ks = k # ks'" "strip_line l = Inr k" "map strip_line ls = map Inr ks'"
    by (cases ks) auto
  with Cons.IH show ?case by (auto intro!: arg_cong [where f = "rbind (set_add s k m)"])
qed simp

text \<open>The host names a file blocks: the last line loses its last byte if it is unfinished.\<close>

definition names_of :: "byte list list \<Rightarrow> byte list \<Rightarrow> cstr list" where
  "names_of ls rest = ls @ (if rest = [] then [] else [butlast rest])"

lemma strip_file:
  assumes "\<forall>l \<in> set ls. plain l" "plain rest"
  shows "map strip_line (getlines [] (file_of ls rest)) = map Inr (names_of ls rest)"
proof -
  have "map strip_line (map (\<lambda>l. l @ [10]) ls) = map Inr ls"
    using assms(1) strip_line_plain by (induction ls) auto
  then show ?thesis using assms(2) by (simp add: getlines_file [OF assms] names_of_def strip_line_rest)
qed

lemma load_lines_file:
  assumes "\<forall>l \<in> set ls. plain l" "plain rest"
  shows "load_lines (getlines [] (file_of ls rest)) s m = add_each set_add (names_of ls rest) s m"
  by (rule load_lines_add_each [OF strip_file [OF assms]])

lemma names_of_ok:
  assumes "\<forall>l \<in> set ls. plain l" "plain rest"
  shows "\<forall>l \<in> set (names_of ls rest). cstr_ok l" "length (names_of ls rest) \<le> length ls + 1"
  using assms by (auto simp: names_of_def plain_def cstr_ok_def dest: in_set_butlastD)

section \<open>Loading\<close>

text \<open>A block list ready for use, holding the host names \<open>B\<close>.\<close>

definition blocks :: "simple_set \<Rightarrow> cstr set \<Rightarrow> bool" where
  "blocks s B \<longleftrightarrow> wf_set default_hash s \<and> elems s = B"

lemma checkBlocklist_blocks:
  "blocks s B \<Longrightarrow> checkBlocklist s name = Inr (if name \<in> B then 1 else 0)"
  by (auto simp: checkBlocklist_def blocks_def set_contains_wf)

lemma load_blocklist_file:
  assumes "\<forall>l \<in> set ls. plain l" "plain rest" "9 * (length ls + 1) < 2 ^ 60" "mem_ok m"
  obtains s m' where "load_blocklist (Some (file_of ls rest)) m = Inr (s, m')"
    "blocks s (set (names_of ls rest))"
proof -
  obtain m1 where a: "alloc m = (True, m1)" "mem_ok m1"
    using alloc_ok [OF assms(4)] by blast
  note len = names_of_ok(2) [OF assms(1,2)]
  obtain s1 m2 where i: "set_init_alt fresh_set 1024 None m1 = Inr (SET_TRUE, s1, m2)"
    "set_room default_hash (length (names_of ls rest)) s1" "elems s1 = {}" "mem_ok m2"
    by (rule set_init_room [of 1024 "length (names_of ls rest)" m1 fresh_set None])
      (use assms(3) a(2) len in auto)
  obtain s m' where l: "add_each set_add (names_of ls rest) s1 m2 = Inr (s, m')"
    "set_room default_hash 0 s" "elems s = set (names_of ls rest)"
    using simple.add_each_gives [OF i(2), of m2] i(3,4)
    by (cases "add_each set_add (names_of ls rest) s1 m2") (auto simp: oom_def)
  have "load_blocklist (Some (file_of ls rest)) m = Inr (s, m')"
    using a(1) i(1) l(1) by (simp add: load_blocklist_def set_init_def load_lines_file [OF assms(1,2)])
  moreover have "blocks s (set (names_of ls rest))" using l(2,3) by (simp add: blocks_def set_room_def)
  ultimately show thesis by (rule that)
qed

section \<open>The contract of a block list\<close>

text \<open>
  What the proxies rely on: a file of \<open>room\<close> lines loads, and asking then decides as \<open>covers\<close>
  says for the names of the file.  Every name of the file is covered, and a longer file covers
  no less.
\<close>

locale block_list =
  fixes room :: "nat \<Rightarrow> bool" and load :: "byte list option \<Rightarrow> mem \<Rightarrow> ('s \<times> mem) res"
    and holds :: "'s \<Rightarrow> cstr set \<Rightarrow> bool" and asks :: "'s \<Rightarrow> cstr \<Rightarrow> bool res"
    and covers :: "cstr set \<Rightarrow> cstr \<Rightarrow> bool"
  assumes load_law: "\<forall>l \<in> set ls. plain l \<Longrightarrow> plain rest \<Longrightarrow> room (length ls) \<Longrightarrow> mem_ok m \<Longrightarrow>
      \<exists>s m'. load (Some (file_of ls rest)) m = Inr (s, m') \<and> holds s (set (names_of ls rest))"
    and asks_law: "holds s N \<Longrightarrow> asks s h = Inr (covers N h)"
    and covers_listed: "h \<in> N \<Longrightarrow> covers N h"
    and covers_mono: "covers M h \<Longrightarrow> M \<subseteq> N \<Longrightarrow> covers N h"
begin

lemma file_decides:
  assumes "\<forall>l \<in> set ls. plain l" "plain rest" "room (length ls)" "mem_ok m"
  obtains s m' where "load (Some (file_of ls rest)) m = Inr (s, m')" "holds s (set (names_of ls rest))"
    "\<And>h. asks s h = Inr (covers (set (names_of ls rest)) h)"
  using load_law [OF assms] asks_law by blast

text \<open>Lines added to a file take nothing back.\<close>

lemma longer_file_refuses:
  assumes "\<forall>l \<in> set (ls @ ls'). plain l" "plain rest" "room (length (ls @ ls'))" "mem_ok m"
  obtains s m' where "load (Some (file_of (ls @ ls') rest)) m = Inr (s, m')"
    "\<And>h. covers (set ls) h \<Longrightarrow> asks s h = Inr True" "\<And>h. h \<in> set ls \<Longrightarrow> asks s h = Inr True"
proof -
  have "set ls \<subseteq> set (names_of (ls @ ls') rest)" by (auto simp: names_of_def)
  then have c: "covers (set (names_of (ls @ ls') rest)) h" if "covers (set ls) h" for h
    using that covers_mono by blast
  obtain s m' where s: "load (Some (file_of (ls @ ls') rest)) m = Inr (s, m')"
    "\<And>h. asks s h = Inr (covers (set (names_of (ls @ ls') rest)) h)"
    using file_decides [OF assms] by metis
  show thesis by (rule that [OF s(1)]) (simp_all add: s(2) c covers_listed)
qed

end

locale exact_block_list = block_list +
  assumes covers_exact: "covers N h \<longleftrightarrow> h \<in> N"
begin

lemma exact_file:
  assumes "\<forall>l \<in> set ls. plain l" "plain rest" "room (length ls)" "mem_ok m"
  obtains s m' where "load (Some (file_of ls rest)) m = Inr (s, m')"
    "\<And>h. asks s h = Inr (h \<in> set ls \<or> rest \<noteq> [] \<and> h = butlast rest)"
proof -
  obtain s m' where "load (Some (file_of ls rest)) m = Inr (s, m')"
    "\<And>h. asks s h = Inr (covers (set (names_of ls rest)) h)"
    using file_decides [OF assms] by metis
  then show thesis by (intro that) (auto simp: covers_exact names_of_def)
qed

end

text \<open>The hash set of \<open>server.c\<close> and \<open>ssl-redirect.c\<close>.\<close>

definition hash_asks :: "simple_set \<Rightarrow> cstr \<Rightarrow> bool res" where
  "hash_asks s h = rbind (checkBlocklist s h) (\<lambda>c. Inr (c \<noteq> 0))"

interpretation hash_list: exact_block_list "\<lambda>n. 9 * (n + 1) < 2 ^ 60" load_blocklist blocks hash_asks "\<lambda>N h. h \<in> N"
proof
  show "\<exists>s m'. load_blocklist (Some (file_of ls rest)) m = Inr (s, m') \<and> blocks s (set (names_of ls rest))"
    if "\<forall>l \<in> set ls. plain l" "plain rest" "9 * (length ls + 1) < 2 ^ 60" "mem_ok m" for ls rest m
    using load_blocklist_file [OF that] by metis
qed (auto simp: hash_asks_def checkBlocklist_blocks)

lemma hash_asks_iff: "hash_asks s h = Inr b \<Longrightarrow> checkBlocklist s h = Inr (if b then 1 else 0)"
  by (auto simp: hash_asks_def checkBlocklist_def rbind_def split: sum.splits if_splits)

section \<open>Properties\<close>

definition google :: cstr where "google = cs ''www.google.com''"

text \<open>
  C16.  A block list file blocks exactly the host names of its complete lines: loading succeeds,
  and \<open>checkBlocklist\<close> returns 1 for these and 0 for any other name.  The loader takes the last
  byte off every line, so a last line without a newline is cut short: its name is not blocked
  for its sake, the name without its last byte is.
\<close>

theorem blocklist_exact:
  assumes "\<forall>l \<in> set ls. plain l" "plain rest" "9 * (length ls + 1) < 2 ^ 60" "mem_ok m"
  shows "\<exists>s m'. load_blocklist (Some (file_of ls rest)) m = Inr (s, m')
     \<and> (\<forall>name. checkBlocklist s name
           = Inr (if name \<in> set ls \<or> rest \<noteq> [] \<and> name = butlast rest then 1 else 0))"
proof -
  obtain s m' where "load_blocklist (Some (file_of ls rest)) m = Inr (s, m')"
    "\<And>h. hash_asks s h = Inr (h \<in> set ls \<or> rest \<noteq> [] \<and> h = butlast rest)"
    using hash_list.exact_file [OF assms] by metis
  then show ?thesis using hash_asks_iff by fastforce
qed

theorem blocklist_exact_witness:
  "\<exists>s m'. load_blocklist (Some (google @ [10] @ cs ''a.com'')) mem0 = Inr (s, m')
     \<and> checkBlocklist s google = Inr 1 \<and> checkBlocklist s (cs ''a.com'') = Inr 0
     \<and> checkBlocklist s (cs ''a.co'') = Inr 1"
proof -
  obtain s m' where "load_blocklist (Some (file_of [google] (cs ''a.com''))) mem0 = Inr (s, m')"
    "\<forall>name. checkBlocklist s name = Inr (if name \<in> set [google] \<or> cs ''a.com'' \<noteq> []
        \<and> name = butlast (cs ''a.com'') then 1 else 0)"
    using blocklist_exact [of "[google]" "cs ''a.com''" mem0] by (auto simp: plain_def google_def cs_def)
  then show ?thesis by (simp add: file_of_def google_def cs_def)
qed

end
