(* ===== verification/Server.thy ===== *)
theory Server
  imports Relay Blocklist
begin

text \<open>
  \<open>server.c\<close>: the threads of the proxy as computations of the world.  \<open>HandleConnection\<close>
  is modelled with the descriptor it was started for; that the descriptor is passed by the
  address of a variable of \<open>main\<close> is the subject of the theory of the accept loop.  Output to
  the terminal is left out.  A terminated process (\<open>assert\<close>, undefined behaviour) is a halt.
\<close>

section \<open>Definitions\<close>

definition BUFSIZE :: nat where "BUFSIZE = 1024 * 1024"

definition msg_forbidden :: cstr where "msg_forbidden = cs ''403 Forbidden'' @ crlf @ crlf"

definition msg_ok :: cstr where "msg_ok = cs ''200 OK'' @ crlf @ crlf"

definition HostToCli :: "int list \<Rightarrow> unit io" where
  "HostToCli fds = relay BUFSIZE (fds ! 1) (fds ! 0)"

text \<open>The refusal, written out twice in the code: for an empty request and a blocked host.\<close>

definition refuse :: "int \<Rightarrow> unit io" where
  "refuse client_fd = iob (write_all_to_socket client_fd msg_forbidden 0) (\<lambda>_.
     iob (emit (Shut client_fd)) (\<lambda>_. emit (Closed client_fd)))"

text \<open>What follows the connection to the destination.\<close>

definition tunnel :: "int \<Rightarrow> int \<Rightarrow> unit io" where
  "tunnel client_fd dest_fd = iob (write_all_to_socket client_fd msg_ok 0) (\<lambda>_.
     iob (emit (Spawned ''HostToCli'' [client_fd, dest_fd])) (\<lambda>_.
     iob (relay BUFSIZE client_fd dest_fd) (\<lambda>_.
     iob (emit (Shut client_fd)) (\<lambda>_. iob (emit (Closed client_fd)) (\<lambda>_.
     iob (emit (Shut dest_fd)) (\<lambda>_. emit (Closed dest_fd)))))))"

text \<open>What follows the parsing of the request.\<close>

definition serve :: "simple_set \<Rightarrow> int \<Rightarrow> hostinfo \<Rightarrow> unit io" where
  "serve blocked_set client_fd info = iob (lift (arr_str (hostname info))) (\<lambda>h.
     iob (lift (arr_str (port info))) (\<lambda>pt.
     iob (lift (checkBlocklist blocked_set h)) (\<lambda>is_blocked.
       if is_blocked \<noteq> 0 then refuse client_fd
       else iob (connect_to_server h pt) (\<lambda>dest_fd.
         if dest_fd < 0 then halt AssertFail else tunnel client_fd dest_fd))))"

definition HandleConnection :: "simple_set \<Rightarrow> int \<Rightarrow> unit io" where
  "HandleConnection blocked_set client_fd = iob (sys_read client_fd BUFSIZE) (\<lambda>r. case r of
       Failed e \<Rightarrow> refuse client_fd
     | Got bs \<Rightarrow> if bs = [] then refuse client_fd
         else iob (lift (parseHost (buf_str bs))) (serve blocked_set client_fd))"

text \<open>The listening socket: the status of each call decides as in the code.\<close>

definition open_listener :: "int io" where
  "open_listener = iob sys_status (\<lambda>s. if s \<noteq> 0 then halt AssertFail
     else iob sys_socket (\<lambda>sock_fd. iob sys_status (\<lambda>reuse.
       iob sys_status (\<lambda>b. if b \<noteq> 0 then halt (Exited 1)
         else iob sys_status (\<lambda>l. if l \<noteq> 0 then halt (Exited 1) else ret sock_fd)))))"

function accept_loop :: "unit io" where
  "accept_loop w = iob sys_accept (\<lambda>client_fd w1.
     if client_fd > 0 then
       iob (emit (Spawned ''HandleConnection'' [client_fd])) (\<lambda>_ w2. accept_loop w2) w1
     else halt AssertFail w1) w"
  by pat_completeness auto
termination
  by (relation "measure (\<lambda>w. length (answers w))")
    (auto simp: sys_accept_def sys_answer_def split: list.splits)

declare accept_loop.simps [simp del]

definition server_main :: "byte list option \<Rightarrow> mem \<Rightarrow> unit io" where
  "server_main file m = iob (lift (load_blocklist file m)) (\<lambda>(blocked_set, m').
     iob open_listener (\<lambda>sock_fd. accept_loop))"

section \<open>Effects\<close>

text \<open>A computation without a result to look at: what it leaves in the trace.\<close>

definition leaves :: "(event \<Rightarrow> bool) \<Rightarrow> 'a io \<Rightarrow> world \<Rightarrow> bool" where
  "leaves P m w \<longleftrightarrow> (\<exists>es. trace (snd (m w)) = trace w @ es \<and> (\<forall>e \<in> set es. P e))
     \<and> resolver (snd (m w)) = resolver w"

lemma leaves_bind:
  assumes "leaves P m w" "\<And>x w'. m w = (Inr x, w') \<Longrightarrow> resolver w' = resolver w \<Longrightarrow> leaves P (k x) w'"
  shows "leaves P (iob m k) w"
proof (cases "m w")
  case (Pair r w')
  show ?thesis
  proof (cases r)
    case (Inr x)
    obtain es where es: "trace w' = trace w @ es" "\<forall>e \<in> set es. P e" "resolver w' = resolver w"
      using assms(1) Pair by (auto simp: leaves_def)
    obtain fs where "trace (snd (k x w')) = trace w' @ fs" "\<forall>e \<in> set fs. P e"
      "resolver (snd (k x w')) = resolver w'"
      using assms(2) [of x w'] Pair Inr es(3) by (auto simp: leaves_def)
    then show ?thesis using es Pair Inr by (auto simp: leaves_def intro!: exI [of _ "es @ fs"])
  qed (use assms(1) Pair in \<open>simp add: leaves_def\<close>)
qed

lemma leaves_pure [simp]: "leaves P (ret x) w" "leaves P (halt e) w" "leaves P (lift r) w"
  "leaves P (sys_resolve h pt) w"
  by (simp_all add: leaves_def)

lemma leaves_emit [simp]: "P e \<Longrightarrow> leaves P (emit e) w"
  by (simp add: leaves_def)

lemma leaves_read [simp]: "leaves P (sys_read fd n) w"
  by (auto simp: leaves_def sys_read_def split: option.split)

lemma leaves_answer: "(\<And>r. \<forall>e \<in> set (ev r). P e) \<Longrightarrow> leaves P (sys_answer ev) w"
  by (auto simp: leaves_def sys_answer_def split: list.split)

lemma leaves_write_all [simp]:
  assumes "\<And>bs. P (Sent fd bs)"
  shows "leaves P (write_all_to_socket fd buf 0) w"
  using write_all_effect [of 0 buf fd w] assms by (auto simp: leaves_def wrote_def)

lemma leaves_relay [simp]:
  assumes "\<And>bs. P (Sent dst bs)"
  shows "leaves P (relay BUFSIZE src dst) w"
  using relay_effect [of BUFSIZE src dst w] assms by (auto simp: leaves_def BUFSIZE_def)

lemma write_all_good:
  assumes "good_outs (outs w fd)"
  obtains w' where "write_all_to_socket fd buf 0 w = (Inr (int (length buf)), w')" "wrote fd buf w w'"
  using write_all_effect [of 0 buf fd w] assms by auto

lemma refuse_effect:
  "\<exists>w' bytes. refuse fd w = (Inr (), w'\<lparr>trace := trace w' @ [Shut fd, Closed fd]\<rparr>)
    \<and> wrote fd bytes w w' \<and> (good_outs (outs w fd) \<longrightarrow> bytes = msg_forbidden)"
proof -
  obtain rc n w' where "write_all_to_socket fd msg_forbidden 0 w = (Inr rc, w')"
    "wrote fd (take n msg_forbidden) w w'" "good_outs (outs w fd) \<longrightarrow> n = length msg_forbidden"
    using write_all_effect [of 0 msg_forbidden fd w] by auto
  then show ?thesis
    by (intro exI [of _ w'] exI [of _ "take n msg_forbidden"]) (auto simp: refuse_def)
qed

text \<open>Every way a connection is served to the end.\<close>

definition tunnel_events :: "int \<Rightarrow> int \<Rightarrow> byte list list \<Rightarrow> byte list list \<Rightarrow> event list" where
  "tunnel_events c d ps qs = map (Sent c) ps @ [Spawned ''HostToCli'' [c, d]] @ map (Sent d) qs
     @ [Shut c, Closed c, Shut d, Closed d]"

lemma tunnel_effect:
  "\<exists>ps qs. (tunnel c d w = (Inr (), w') \<longrightarrow> trace w' = trace w @ tunnel_events c d ps qs)"
proof (cases "tunnel c d w = (Inr (), w')")
  case True
  obtain rc n w1 where 1: "write_all_to_socket c msg_ok 0 w = (Inr rc, w1)"
    "wrote c (take n msg_ok) w w1" using write_all_effect [of 0 msg_ok c w] by auto
  obtain os ps where ps: "w1 = w\<lparr>outs := (outs w)(c := os), trace := trace w @ map (Sent c) ps\<rparr>"
    using 1(2) by (auto simp: wrote_def)
  define w2 where "w2 = w1\<lparr>trace := trace w1 @ [Spawned ''HostToCli'' [c, d]]\<rparr>"
  obtain js os' qs where 2: "relay BUFSIZE c d w2 =
      (if snd (stream (inputs w2 c)) = Pending then Inl Blocked else Inr (),
       w2\<lparr>inputs := (inputs w2)(c := js), outs := (outs w2)(d := os'),
         trace := trace w2 @ map (Sent d) qs\<rparr>)"
    using relay_effect [of BUFSIZE c d w2] by (auto simp: BUFSIZE_def)
  have "trace w' = trace w @ tunnel_events c d ps qs"
    using True 1(1) 2 by (auto simp: tunnel_def w2_def [symmetric] tunnel_events_def w2_def ps split: if_splits)
  then show ?thesis by blast
qed simp

lemma connect_effect:
  "connect_to_server h pt w = (Inr d, w') \<Longrightarrow> d \<noteq> - 1 \<Longrightarrow>
    \<exists>ai ais rc. resolver w h pt = Inr (ai # ais) \<and> resolver w' = resolver w
      \<and> trace w' = trace w @ [Opened d] @ [Connected d ai rc, FreedAddr (ai # ais)]"
  by (auto simp: connect_to_server_def sys_socket_def sys_connect_def sys_answer_def iob_def
      split: sum.splits list.splits prod.splits if_splits)

definition refused_trace :: "int \<Rightarrow> event list \<Rightarrow> bool" where
  "refused_trace c es \<longleftrightarrow> (\<exists>ps. es = map (Sent c) ps @ [Shut c, Closed c])"

definition tunnelled_trace :: "int \<Rightarrow> event list \<Rightarrow> bool" where
  "tunnelled_trace c es \<longleftrightarrow> (\<exists>d ai ais rc ps qs. 0 \<le> d
     \<and> es = [Opened d, Connected d ai rc, FreedAddr ais] @ tunnel_events c d ps qs)"

lemma refuse_trace:
  "refuse c w = (Inr (), w') \<Longrightarrow> \<exists>es. trace w' = trace w @ es \<and> refused_trace c es"
  using refuse_effect [of c w] by (auto simp: wrote_def refused_trace_def)

lemma serve_trace:
  assumes "serve s c info w = (Inr (), w')"
  shows "\<exists>es. trace w' = trace w @ es \<and> (refused_trace c es \<or> tunnelled_trace c es)"
proof -
  obtain h pt b where a: "arr_str (hostname info) = Inr h" "arr_str (port info) = Inr pt"
    "checkBlocklist s h = Inr b"
    using assms by (auto simp: serve_def iob_def split: sum.splits)
  show ?thesis
  proof (cases "b = 0")
    case True
    obtain d w1 where d: "connect_to_server h pt w = (Inr d, w1)" "0 \<le> d" "tunnel c d w1 = (Inr (), w')"
      using assms a True by (auto simp: serve_def iob_def split: sum.splits prod.splits if_splits)
    obtain ai ais rc where "trace w1 = trace w @ [Opened d, Connected d ai rc, FreedAddr (ai # ais)]"
      using connect_effect [OF d(1)] d(2) by auto
    moreover obtain ps qs where "trace w' = trace w1 @ tunnel_events c d ps qs"
      using tunnel_effect [of c d w1 w'] d(3) by blast
    ultimately have "trace w' = trace w @ [Opened d, Connected d ai rc, FreedAddr (ai # ais)]
        @ tunnel_events c d ps qs" by simp
    moreover have "tunnelled_trace c ([Opened d, Connected d ai rc, FreedAddr (ai # ais)]
        @ tunnel_events c d ps qs)" using d(2) unfolding tunnelled_trace_def by blast
    ultimately show ?thesis by blast
  next
    case False
    then have "refuse c w = (Inr (), w')" using assms a by (simp add: serve_def)
    then show ?thesis using refuse_trace by blast
  qed
qed

lemma HandleConnection_trace:
  assumes "HandleConnection s c w = (Inr (), w')"
  shows "\<exists>es. trace w' = trace w @ es \<and> (refused_trace c es \<or> tunnelled_trace c es)"
proof -
  obtain r w1 where r: "sys_read c BUFSIZE w = (Inr r, w1)"
    using assms by (auto simp: HandleConnection_def iob_def split: prod.splits sum.splits)
  have t: "trace w1 = trace w" using r by (auto simp: sys_read_def split: option.splits)
  show ?thesis
  proof (cases "\<exists>bs. r = Got bs \<and> bs \<noteq> []")
    case True
    then obtain bs info where "serve s c info w1 = (Inr (), w')"
      using assms r by (auto simp: HandleConnection_def iob_def split: prod.splits sum.splits)
    then show ?thesis using serve_trace t by metis
  next
    case False
    then have "refuse c w1 = (Inr (), w')"
      using assms r by (auto simp: HandleConnection_def split: rres.splits)
    then show ?thesis using refuse_trace t by metis
  qed
qed

section \<open>Properties of the relay\<close>

text \<open>
  When the peer accepts what is written, the relay copies the stream of the source to
  the other side, every byte and in order, and returns when the stream ends.
\<close>

lemma relay_forwards_all:
  assumes "outs w dst = []"
  shows "\<exists>w'. relay BUFSIZE src dst w
      = (if snd (stream (inputs w src)) = Pending then Inl Blocked else Inr (), w')
    \<and> sent dst (trace w') = sent dst (trace w) @ fst (stream (inputs w src))"
  using relay_effect [of BUFSIZE src dst w] assms by (auto simp: BUFSIZE_def)

lemma relay_forwards_all_witness:
  "\<exists>w'. relay BUFSIZE 3 4 (world0\<lparr>inputs := (\<lambda>_. [])(3 := [Chunk [1, 2], Err EINTR, Chunk [3], Eof])\<rparr>)
     = (Inr (), w') \<and> sent 4 (trace w') = [1, 2, 3]"
  using relay_forwards_all [of "world0\<lparr>inputs := (\<lambda>_. [])(3 := [Chunk [1, 2], Err EINTR, Chunk [3], Eof])\<rparr>" 4 3]
  by (simp add: world0_def)

text \<open>
  C15.  Whatever the peers do, the relay writes to its destination only, and only a
  subsequence of the bytes of its source: nothing is invented, repeated or reordered.  It does
  not look at what \<open>write\<close> returns, so bytes do get lost: of three bytes of which the kernel
  takes one, the other two are missing although both directions stay up.
\<close>

theorem relay_invents_nothing:
  "(\<exists>ps. trace (snd (relay BUFSIZE src dst w)) = trace w @ map (Sent dst) ps
     \<and> subseq (concat ps) (fst (stream (inputs w src))))
   \<and> (\<lambda>(r, w). (r, sent 4 (trace w))) (relay BUFSIZE 3 4 (world0\<lparr>
       inputs := (\<lambda>_. [])(3 := [Chunk [1, 2, 3], Chunk [4], Eof]), outs := (\<lambda>_. [])(4 := [Took 1])\<rparr>))
     = (Inr (), [1, 4])"
proof
  have "0 < BUFSIZE" by (simp add: BUFSIZE_def)
  from relay_effect [OF this, of src dst w] show "\<exists>ps. trace (snd (relay BUFSIZE src dst w))
      = trace w @ map (Sent dst) ps \<and> subseq (concat ps) (fst (stream (inputs w src)))" by auto
qed (simp add: world0_def relay.simps sys_read_def sys_write_def BUFSIZE_def iob_def)

section \<open>Properties of a connection\<close>

text \<open>A request with a host header whose parts fit, arriving in one read.\<close>

definition requests :: "world \<Rightarrow> int \<Rightarrow> cstr \<Rightarrow> cstr \<Rightarrow> inp list \<Rightarrow> bool" where
  "requests w c h pt is \<longleftrightarrow> (\<exists>pre post. let r = host_line pre h pt post in
     inputs w c = Chunk r # is \<and> length r \<le> BUFSIZE \<and> cstr_ok r \<and> host_parts pre h pt
     \<and> length h < 1024 \<and> length pt < 32)"

lemma HandleConnection_request:
  assumes "requests w c h pt is"
  shows "HandleConnection s c w = iob (lift (checkBlocklist s h)) (\<lambda>is_blocked.
       if is_blocked \<noteq> 0 then refuse c
       else iob (connect_to_server h pt) (\<lambda>d. if d < 0 then halt AssertFail else tunnel c d))
     (w\<lparr>inputs := (inputs w)(c := is)\<rparr>)"
proof -
  obtain pre post where r: "inputs w c = Chunk (host_line pre h pt post) # is"
    "length (host_line pre h pt post) \<le> BUFSIZE" "cstr_ok (host_line pre h pt post)"
    "host_parts pre h pt" "length h < 1024" "length pt < 32"
    using assms by (auto simp: requests_def Let_def)
  have ok: "cstr_ok h" "cstr_ok pt" "host_line pre h pt post \<noteq> []"
    using r(3) by (auto simp: host_line_def cstr_ok_def cs_def)
  have "sys_read c BUFSIZE w = (Inr (Got (host_line pre h pt post)), w\<lparr>inputs := (inputs w)(c := is)\<rparr>)"
    using r(1,2) by (simp add: sys_read_def)
  then show ?thesis
    using ok parseHost_line [OF r(4), of post] arr_str_copied [OF ok(1) r(5)] arr_str_copied [OF ok(2) r(6)]
    by (simp add: HandleConnection_def buf_str_id [OF r(3)] serve_def)
qed

text \<open>
  A request for a host of the block list is answered with \<open>403 Forbidden\<close> and closed:
  nothing else happens, no connection is opened.
\<close>

lemma blocked_host_refused:
  assumes "requests w c h pt is" "blocks s B" "h \<in> B" "good_outs (outs w c)"
  shows "\<exists>w' ps. HandleConnection s c w = (Inr (), w')
     \<and> trace w' = trace w @ map (Sent c) ps @ [Shut c, Closed c] \<and> concat ps = msg_forbidden"
proof -
  let ?w = "w\<lparr>inputs := (inputs w)(c := is)\<rparr>"
  have "HandleConnection s c w = refuse c ?w"
    using HandleConnection_request [OF assms(1), of s] checkBlocklist_blocks [OF assms(2), of h] assms(3) by simp
  then show ?thesis using refuse_effect [of c ?w] assms(4) by (auto simp: wrote_def)
qed

definition sample_request :: cstr where
  "sample_request = cs ''CONNECT'' @ crlf @ cs ''Host: www.google.com:443'' @ crlf"

definition sample_world :: world where
  "sample_world = world0\<lparr>inputs := (\<lambda>_. [])(3 := [Chunk sample_request, Chunk [1, 2], Eof]),
     answers := [4, 0], resolver := (\<lambda>_ _. Inr [7])\<rparr>"

lemma sample_host_line: "sample_request = host_line (cs ''CONNECT'' @ crlf) google (cs ''443'') []"
  by (simp add: sample_request_def host_line_def google_def cs_def)

lemma sample_requests: "requests sample_world 3 google (cs ''443'') [Chunk [1, 2], Eof]"
proof -
  have "host_parts (cs ''CONNECT'' @ crlf) google (cs ''443'')"
    by (simp add: host_parts_def cs_def crlf_def google_def c_strstr_None [symmetric])
  then show ?thesis
    unfolding requests_def Let_def
    by (intro exI [of _ "cs ''CONNECT'' @ crlf"] exI [of _ "[]"])
      (simp add: sample_host_line [symmetric] sample_world_def BUFSIZE_def,
       simp add: sample_request_def cs_def crlf_def cstr_ok_def google_def)
qed

lemma sample_blocks: "blocks sample1 {cs ''a.com''}"
  by (simp add: blocks_def sample_wf sample_elems)

text \<open>
  C5.  A request for any other host, when the name resolves, the connection succeeds and the
  peers accept what is written: the client is told \<open>200 OK\<close> and then every byte it sends
  after the request reaches the destination; when it stops, both descriptors are closed.
\<close>

theorem allowed_host_tunnelled:
  assumes "requests w c h pt is" "blocks s B" "h \<notin> B"
    and "resolver w h pt = Inr (ai # ais)" "answers w = d # 0 # more_answers" "0 \<le> d" "d \<noteq> c"
    and "outs w c = []" "outs w d = []" "snd (stream is) \<noteq> Pending"
  shows "\<exists>w' ps qs. HandleConnection s c w = (Inr (), w')
     \<and> trace w' = trace w @ [Opened d, Connected d ai 0, FreedAddr (ai # ais)] @ tunnel_events c d ps qs
     \<and> concat ps = msg_ok \<and> concat qs = fst (stream is)"
proof -
  define w1 where "w1 = w\<lparr>inputs := (inputs w)(c := is), answers := more_answers,
      trace := trace w @ [Opened d, Connected d ai 0, FreedAddr (ai # ais)]\<rparr>"
  have "HandleConnection s c w = tunnel c d w1"
    using HandleConnection_request [OF assms(1), of s] checkBlocklist_blocks [OF assms(2), of h] assms(3-6)
    by (simp add: connect_to_server_def sys_socket_def sys_connect_def sys_answer_def iob_def w1_def)
  moreover have "good_outs (outs w1 c)" using assms(8) by (simp add: good_outs_def w1_def)
  then obtain w2 where 2: "write_all_to_socket c msg_ok 0 w1 = (Inr (int (length msg_ok)), w2)"
    "wrote c msg_ok w1 w2" by (rule write_all_good)
  obtain os ps where w2: "concat ps = msg_ok" "w2 = w1\<lparr>outs := (outs w1)(c := os), trace := trace w1 @ map (Sent c) ps\<rparr>"
    using 2(2) by (auto simp: wrote_def)
  define w3 where "w3 = w2\<lparr>trace := trace w2 @ [Spawned ''HostToCli'' [c, d]]\<rparr>"
  have w3: "inputs w3 c = is" "outs w3 d = []" using assms(7,9) by (simp_all add: w3_def w2 w1_def)
  obtain js os' qs where 3: "relay BUFSIZE c d w3 = (Inr (), w3\<lparr>inputs := (inputs w3)(c := js),
       outs := (outs w3)(d := os'), trace := trace w3 @ map (Sent d) qs\<rparr>)"
    "concat qs = fst (stream is)"
    using relay_effect [of BUFSIZE c d w3] assms(10) by (auto simp: BUFSIZE_def w3)
  have "\<exists>w'. tunnel c d w1 = (Inr (), w') \<and> trace w' = trace w1 @ tunnel_events c d ps qs"
    using 2(1) 3(1) by (simp add: tunnel_def w3_def [symmetric] tunnel_events_def) (simp add: w3_def w2)
  ultimately show ?thesis using w2(1) 3(2) by (auto simp: w1_def)
qed

theorem allowed_host_tunnelled_witness:
  "\<exists>w'. HandleConnection sample1 3 sample_world = (Inr (), w') \<and> sent 4 (trace w') = [1, 2]"
proof -
  have h: "google \<notin> {cs ''a.com''}" "(4 :: int) \<noteq> 3" "(0 :: int) \<le> 4"
    "snd (stream [Chunk [1, 2], Eof]) \<noteq> Pending"
    and w: "resolver sample_world google (cs ''443'') = Inr [7]" "answers sample_world = [4, 0]"
    "outs sample_world 3 = []" "outs sample_world 4 = []" "trace sample_world = []"
    by (simp_all add: google_def cs_def sample_world_def world0_def)
  obtain w' ps qs where "HandleConnection sample1 3 sample_world = (Inr (), w')"
    "trace w' = [Opened 4, Connected 4 7 0, FreedAddr [7]] @ tunnel_events 3 4 ps qs"
    "concat qs = [1, 2]"
    using allowed_host_tunnelled [OF sample_requests sample_blocks h(1) w(1,2) h(3,2) w(3,4) h(4)] w(5)
    by auto
  then show ?thesis by (auto simp: tunnel_events_def)
qed

text \<open>An event that is no connection to an address of blocked names only.\<close>

definition avoids :: "cstr set \<Rightarrow> world \<Rightarrow> event \<Rightarrow> bool" where
  "avoids B w e \<longleftrightarrow> (\<forall>d ai rc. e = Connected d ai rc \<longrightarrow>
     (\<exists>h pt ais. h \<notin> B \<and> resolver w h pt = Inr (ai # ais)))"

lemma avoids_simps [simp]: "avoids B w (Sent fd bs)" "avoids B w (Shut fd)" "avoids B w (Closed fd)"
    "avoids B w (Opened fd)" "avoids B w (Spawned n fds)" "avoids B w (FreedAddr as)"
  by (simp_all add: avoids_def)

lemma refuse_avoids: "leaves (avoids B w) (refuse c) w'"
  unfolding refuse_def by (intro leaves_bind) simp_all

lemma tunnel_avoids: "leaves (avoids B w) (tunnel c d) w'"
  unfolding tunnel_def by (intro leaves_bind) simp_all

lemma connect_avoids:
  assumes h: "h \<notin> B" and r: "resolver w' = resolver w"
  shows "leaves (avoids B w) (connect_to_server h pt) w'"
  unfolding connect_to_server_def
proof (rule leaves_bind)
  fix res w1 assume res: "sys_resolve h pt w' = (Inr res, w1)" and r1: "resolver w1 = resolver w'"
  have "leaves (avoids B w) (case res of Inl s \<Rightarrow> halt UninitRead | Inr [] \<Rightarrow> halt NullDeref
      | Inr (ai # ais) \<Rightarrow> iob (sys_connect fd ai) (\<lambda>c. if c = - 1
          then iob (emit (FreedAddr (ai # ais))) (\<lambda>_. ret (- 1))
          else iob (emit (FreedAddr (ai # ais))) (\<lambda>_. ret fd))) w2" for fd w2
  proof (cases res)
    case (Inr xs)
    show ?thesis
    proof (cases xs)
      case (Cons ai ais)
      then have "avoids B w (Connected fd ai rc)" for rc using res Inr h r by (auto simp: avoids_def)
      then have "leaves (avoids B w) (sys_connect fd ai) w2"
        unfolding sys_connect_def by (intro leaves_answer) simp
      with Inr Cons show ?thesis by (auto intro!: leaves_bind split: if_split)
    qed (use Inr in simp)
  qed simp
  moreover have "leaves (avoids B w) sys_socket w1" unfolding sys_socket_def by (intro leaves_answer) simp
  ultimately show "leaves (avoids B w) (iob sys_socket (\<lambda>serverSocket. case res of Inl s \<Rightarrow> halt UninitRead
     | Inr [] \<Rightarrow> halt NullDeref | Inr (ai # ais) \<Rightarrow> iob (sys_connect serverSocket ai) (\<lambda>c.
         if c = - 1 then iob (emit (FreedAddr (ai # ais))) (\<lambda>_. ret (- 1))
         else iob (emit (FreedAddr (ai # ais))) (\<lambda>_. ret serverSocket)))) w1"
    by (intro leaves_bind) simp_all
qed simp

lemma connect_tunnel_avoids:
  assumes "h \<notin> B" "resolver w' = resolver w"
  shows "leaves (avoids B w) (iob (connect_to_server h pt) (\<lambda>d. if d < 0 then halt AssertFail else tunnel c d)) w'"
  by (rule leaves_bind, rule connect_avoids [OF assms]) (use tunnel_avoids in auto)

lemma serve_avoids:
  assumes "blocks s B" "resolver w' = resolver w"
  shows "leaves (avoids B w) (serve s c info) w'"
  unfolding serve_def
proof (rule leaves_bind)
  fix h and w1 :: world assume r1: "resolver w1 = resolver w'"
  show "leaves (avoids B w) (iob (lift (arr_str (port info))) (\<lambda>pt. iob (lift (checkBlocklist s h)) (\<lambda>b.
     if b \<noteq> 0 then refuse c else iob (connect_to_server h pt) (\<lambda>d.
       if d < 0 then halt AssertFail else tunnel c d)))) w1"
  proof (rule leaves_bind)
    fix pt and w2 :: world assume r2: "resolver w2 = resolver w1"
    show "leaves (avoids B w) (iob (lift (checkBlocklist s h)) (\<lambda>b. if b \<noteq> 0 then refuse c
       else iob (connect_to_server h pt) (\<lambda>d. if d < 0 then halt AssertFail else tunnel c d))) w2"
    proof (rule leaves_bind)
      fix b and w3 :: world assume "lift (checkBlocklist s h) w2 = (Inr b, w3)" and r3: "resolver w3 = resolver w2"
      then have "b = (if h \<in> B then 1 else 0)" using checkBlocklist_blocks [OF assms(1), of h] by auto
      then show "leaves (avoids B w) (if b \<noteq> 0 then refuse c else iob (connect_to_server h pt)
          (\<lambda>d. if d < 0 then halt AssertFail else tunnel c d)) w3"
        using refuse_avoids connect_tunnel_avoids [of h B w3 w] assms(2) r1 r2 r3 by simp
    qed simp
  qed simp
qed simp

lemma HandleConnection_avoids:
  assumes "blocks s B"
  shows "leaves (avoids B w) (HandleConnection s c) w"
  unfolding HandleConnection_def
proof (rule leaves_bind)
  fix r and w1 :: world assume "resolver w1 = resolver w"
  then show "leaves (avoids B w) (case r of Failed e \<Rightarrow> refuse c | Got bs \<Rightarrow> if bs = [] then refuse c
       else iob (lift (parseHost (buf_str bs))) (serve s c)) w1"
    using refuse_avoids serve_avoids [OF assms] by (auto split: rres.split intro!: leaves_bind)
qed simp

text \<open>
  C3.  No connection to a blocked host: in every world, whatever arrives and however the
  handling ends, an address the program connects to is one that a host name outside the block
  list resolves to.
\<close>

theorem never_connects_to_blocked:
  assumes "blocks s B"
  shows "\<exists>es. trace (snd (HandleConnection s c w)) = trace w @ es
     \<and> (\<forall>d ai rc. Connected d ai rc \<in> set es \<longrightarrow>
          (\<exists>h pt ais. h \<notin> B \<and> resolver w h pt = Inr (ai # ais)))"
  using HandleConnection_avoids [OF assms, of w c] by (auto simp: leaves_def avoids_def)

theorem never_connects_to_blocked_witness:
  "\<exists>es. trace (snd (HandleConnection sample1 3 sample_world)) = trace sample_world @ es
     \<and> (\<forall>d ai rc. Connected d ai rc \<in> set es \<longrightarrow>
          (\<exists>h pt ais. h \<notin> {cs ''a.com''} \<and> resolver sample_world h pt = Inr (ai # ais)))"
  by (rule never_connects_to_blocked [OF sample_blocks])

text \<open>
  C22.  No descriptor leaks: when \<open>HandleConnection\<close> returns it has closed the client's
  descriptor and every descriptor it opened, each exactly once.
\<close>

theorem connection_closes_what_it_opened:
  assumes "HandleConnection s c w = (Inr (), w')"
  shows "\<exists>es. trace w' = trace w @ es \<and> closed_fds es = c # opened_fds es"
proof -
  obtain es where es: "trace w' = trace w @ es" "refused_trace c es \<or> tunnelled_trace c es"
    using HandleConnection_trace [OF assms] by blast
  have "closed_fds es = c # opened_fds es"
    using es(2) by (auto simp: refused_trace_def tunnelled_trace_def tunnel_events_def)
  with es(1) show ?thesis by blast
qed

lemma eof_refused: "\<exists>w'. HandleConnection s 3 (world0\<lparr>inputs := (\<lambda>_. [Eof])\<rparr>) = (Inr (), w')"
proof -
  let ?w = "world0\<lparr>inputs := (\<lambda>_. [Eof])\<rparr>"
  have "sys_read 3 BUFSIZE ?w = (Inr (Got []), ?w)" by (simp add: sys_read_def fun_upd_def)
  then have "HandleConnection s 3 ?w = refuse 3 ?w" by (simp add: HandleConnection_def)
  then show ?thesis using refuse_effect [of 3 ?w] by auto
qed

theorem connection_closes_what_it_opened_witness:
  "\<exists>w' es. HandleConnection sample1 3 (world0\<lparr>inputs := (\<lambda>_. [Eof])\<rparr>) = (Inr (), w')
     \<and> trace w' = es \<and> closed_fds es = 3 # opened_fds es"
proof -
  obtain w' where h: "HandleConnection sample1 3 (world0\<lparr>inputs := (\<lambda>_. [Eof])\<rparr>) = (Inr (), w')"
    using eof_refused by blast
  then show ?thesis using connection_closes_what_it_opened [OF h] by (simp add: world0_def)
qed

text \<open>
  C32.  Any client can stop the whole proxy: a request without a host header, for a name that
  does not resolve, or for a host that refuses the connection ends the process, by a null
  pointer, by reading the result \<open>getaddrinfo\<close> did not set, and by an assertion.
\<close>

theorem request_ends_the_process:
  assumes "blocks s B" "h \<notin> B"
  shows "(requests w c h pt is \<longrightarrow> resolver w h pt = Inl e \<longrightarrow> answers w = d # ds \<longrightarrow>
      fst (HandleConnection s c w) = Inl UninitRead)
    \<and> (requests w c h pt is \<longrightarrow> resolver w h pt = Inr (ai # ais) \<longrightarrow> answers w = d # - 1 # ds \<longrightarrow>
      fst (HandleConnection s c w) = Inl AssertFail)
    \<and> (inputs w c = Chunk r # is \<longrightarrow> r \<noteq> [] \<longrightarrow> length r \<le> BUFSIZE \<longrightarrow>
      \<not> sublist (cs ''Host: '') (buf_str r) \<longrightarrow> fst (HandleConnection s c w) = Inl NullDeref)"
proof (intro conjI impI)
  have b: "checkBlocklist s h = Inr 0" using checkBlocklist_blocks [OF assms(1), of h] assms(2) by simp
  note defs = connect_to_server_def sys_socket_def sys_connect_def sys_answer_def iob_def
  show "fst (HandleConnection s c w) = Inl UninitRead"
    if "requests w c h pt is" "resolver w h pt = Inl e" "answers w = d # ds"
    using HandleConnection_request [OF that(1), of s] that(2,3) b by (simp add: defs)
  show "fst (HandleConnection s c w) = Inl AssertFail"
    if "requests w c h pt is" "resolver w h pt = Inr (ai # ais)" "answers w = d # - 1 # ds"
    using HandleConnection_request [OF that(1), of s] that(2,3) b by (simp add: defs)
  show "fst (HandleConnection s c w) = Inl NullDeref"
    if "inputs w c = Chunk r # is" "r \<noteq> []" "length r \<le> BUFSIZE" "\<not> sublist (cs ''Host: '') (buf_str r)"
    using that by (simp add: HandleConnection_def sys_read_def iob_def parseHost_def c_strstr_None [symmetric])
qed

theorem request_ends_the_process_witness:
  "fst (HandleConnection sample1 3 (sample_world\<lparr>resolver := (\<lambda>_ _. Inl 2)\<rparr>)) = Inl UninitRead"
proof -
  have r: "requests (sample_world\<lparr>resolver := (\<lambda>_ _. Inl 2)\<rparr>) 3 google (cs ''443'') [Chunk [1, 2], Eof]"
    using sample_requests by (simp add: requests_def)
  have "google \<notin> {cs ''a.com''}" by (simp add: google_def cs_def)
  from request_ends_the_process [OF sample_blocks this] r show ?thesis
    by (simp add: sample_world_def world0_def)
qed

section \<open>The accept loop\<close>

text \<open>The main thread starts one handler per accepted connection, in order, and then waits.\<close>

lemma accept_loop_spawns_all:
  assumes "answers w = fds" "\<forall>fd \<in> set fds. 0 < fd"
  shows "\<exists>w'. accept_loop w = (Inl Blocked, w')
    \<and> trace w' = trace w @ concat (map (\<lambda>fd. [Accepted fd, Spawned ''HandleConnection'' [fd]]) fds)"
  using assms
proof (induction fds arbitrary: w)
  case Nil
  then show ?case by (simp add: accept_loop.simps [of w] sys_accept_def sys_answer_def)
next
  case (Cons fd fds)
  let ?w = "w\<lparr>answers := fds, trace := (trace w @ [Accepted fd]) @ [Spawned ''HandleConnection'' [fd]]\<rparr>"
  have "accept_loop w = accept_loop ?w"
    using Cons.prems by (simp add: accept_loop.simps [of w] sys_accept_def sys_answer_def iob_def)
  with Cons.IH [of ?w] Cons.prems show ?case by simp
qed

text \<open>
  C33.  The whole of \<open>main\<close>: with a readable block list file and a port that can be opened it
  opens one listening socket, starts one handler per connection, in order, and then waits for
  the next one; without the file it aborts before it opens anything.
\<close>

theorem server_main_spawns_all:
  assumes "\<forall>l \<in> set ls. plain l" "plain rest" "9 * (length ls + 1) < 2 ^ 60" "mem_ok m"
    and "answers w = [0, sock, reuse, 0, 0] @ fds" "sock \<noteq> - 1" "\<forall>fd \<in> set fds. 0 < fd"
  shows "\<exists>w'. server_main (Some (file_of ls rest)) m w = (Inl Blocked, w')
     \<and> trace w' = trace w @ Opened sock
         # concat (map (\<lambda>fd. [Accepted fd, Spawned ''HandleConnection'' [fd]]) fds)
     \<and> server_main None m w = (Inl AssertFail, w)"
proof -
  let ?w = "w\<lparr>answers := fds, trace := trace w @ [Opened sock]\<rparr>"
  obtain s m' where l: "load_blocklist (Some (file_of ls rest)) m = Inr (s, m')"
    by (rule load_blocklist_file [OF assms(1-4)])
  have "open_listener w = (Inr sock, ?w)"
    using assms(5,6) by (simp add: open_listener_def sys_status_def sys_socket_def sys_answer_def)
  moreover obtain w' where "accept_loop ?w = (Inl Blocked, w')" "trace w' = trace ?w
      @ concat (map (\<lambda>fd. [Accepted fd, Spawned ''HandleConnection'' [fd]]) fds)"
    using accept_loop_spawns_all [of ?w fds] assms(7) by auto
  ultimately show ?thesis using l by (simp add: server_main_def load_blocklist_def [of None])
qed

theorem server_main_spawns_all_witness:
  "\<exists>w'. server_main (Some (google @ [10])) mem0 (world0\<lparr>answers := [0, 3, 0, 0, 0, 5, 6]\<rparr>) = (Inl Blocked, w')
     \<and> trace w' = [Opened 3, Accepted 5, Spawned ''HandleConnection'' [5], Accepted 6, Spawned ''HandleConnection'' [6]]"
  using server_main_spawns_all [of "[google]" "[]" mem0 "world0\<lparr>answers := [0, 3, 0, 0, 0, 5, 6]\<rparr>" 3 0 "[5, 6]"]
  by (simp add: world0_def file_of_def plain_def google_def cs_def) blast

end
