(* ===== verification/Tunnel.thy ===== *)
theory Tunnel
  imports Server
begin

text \<open>
  A tunnel of \<open>server.c\<close> with its two threads at once: \<open>HandleConnection\<close> after it has
  created \<open>HostToCli\<close>, and that thread.  They share the descriptors of the process and the array
  \<open>fds\<close> on the stack of \<open>HandleConnection\<close>.  The kernel maps descriptors to sockets, so that
  a closed descriptor can become the number of another connection.  The steps of the two threads
  and of the other threads of the process interleave freely; each step is one statement.
\<close>

section \<open>The kernel\<close>

type_synonym sock = nat

text \<open>
  Per socket: what is still to be read, what the peer was given, whether it was shut down.
  \<open>known\<close> are the sockets that exist or existed.
\<close>

record kernel =
  table :: "int \<Rightarrow> sock option"
  queue :: "sock \<Rightarrow> inp list"
  given :: "sock \<Rightarrow> byte list"
  ended :: "sock set"
  known :: "sock set"

definition shut_fd :: "int \<Rightarrow> kernel \<Rightarrow> kernel" where
  "shut_fd fd k = k\<lparr>ended := set_option (table k fd) \<union> ended k\<rparr>"

definition close_fd :: "int \<Rightarrow> kernel \<Rightarrow> kernel" where
  "close_fd fd k = k\<lparr>table := (table k)(fd := None)\<rparr>"

section \<open>Steps\<close>

text \<open>
  The loop both threads run, between \<open>read\<close> and \<open>write\<close>; \<open>None\<close> is the \<open>break\<close>.  A read from
  a socket that was shut down may return 0, one from a closed descriptor fails; the kernel takes
  any prefix of what is written, and a write can fail.
\<close>

datatype pump = Reading | Writing "byte list"

inductive pump_step :: "int \<Rightarrow> int \<Rightarrow> pump \<Rightarrow> kernel \<Rightarrow> pump option \<Rightarrow> kernel \<Rightarrow> bool" for src dst where
  read_some: "table k src = Some x \<Longrightarrow> take_input BUFSIZE (queue k x) = Some (Got bs, q) \<Longrightarrow> bs \<noteq> [] \<Longrightarrow>
    pump_step src dst Reading k (Some (Writing bs)) (k\<lparr>queue := (queue k)(x := q)\<rparr>)"
| read_end: "table k src = Some x \<Longrightarrow> take_input BUFSIZE (queue k x) = Some (Got [], q) \<Longrightarrow>
    pump_step src dst Reading k None (k\<lparr>queue := (queue k)(x := q)\<rparr>)"
| read_failed: "table k src = Some x \<Longrightarrow> take_input BUFSIZE (queue k x) = Some (Failed e, q) \<Longrightarrow>
    pump_step src dst Reading k (if e = EINTR then Some Reading else None) (k\<lparr>queue := (queue k)(x := q)\<rparr>)"
| read_shut: "table k src = Some x \<Longrightarrow> x \<in> ended k \<Longrightarrow> pump_step src dst Reading k None k"
| read_closed: "table k src = None \<Longrightarrow> pump_step src dst Reading k None k"
| write_some: "table k dst = Some y \<Longrightarrow> y \<notin> ended k \<Longrightarrow>
    pump_step src dst (Writing bs) k (Some Reading) (k\<lparr>given := (given k)(y := given k y @ take n bs)\<rparr>)"
| write_failed: "pump_step src dst (Writing bs) k (Some Reading) k"

text \<open>
  Where the threads are.  \<open>HostToCli\<close> reads \<open>fds[0]\<close> and \<open>fds[1]\<close> before its loop; the
  array is gone when \<open>HandleConnection\<close> has returned.
\<close>

datatype handler_pc = Handling pump | ShutClient | CloseClient | ShutDest | CloseDest | Returning | Returned

datatype copier_pc = Arg0 | Arg1 int | Copying int int pump | Copied | Dangling

record tunnel_state =
  kern :: kernel
  hpc :: handler_pc
  cpc :: copier_pc

inductive tunnel_step :: "int \<Rightarrow> int \<Rightarrow> tunnel_state \<Rightarrow> tunnel_state \<Rightarrow> bool" for c d where
  handler_copies: "hpc s = Handling p \<Longrightarrow> pump_step c d p (kern s) (Some p') k \<Longrightarrow>
    tunnel_step c d s (s\<lparr>hpc := Handling p', kern := k\<rparr>)"
| handler_breaks: "hpc s = Handling p \<Longrightarrow> pump_step c d p (kern s) None k \<Longrightarrow>
    tunnel_step c d s (s\<lparr>hpc := ShutClient, kern := k\<rparr>)"
| shut_client: "hpc s = ShutClient \<Longrightarrow> tunnel_step c d s (s\<lparr>hpc := CloseClient, kern := shut_fd c (kern s)\<rparr>)"
| close_client: "hpc s = CloseClient \<Longrightarrow> tunnel_step c d s (s\<lparr>hpc := ShutDest, kern := close_fd c (kern s)\<rparr>)"
| shut_dest: "hpc s = ShutDest \<Longrightarrow> tunnel_step c d s (s\<lparr>hpc := CloseDest, kern := shut_fd d (kern s)\<rparr>)"
| close_dest: "hpc s = CloseDest \<Longrightarrow> tunnel_step c d s (s\<lparr>hpc := Returning, kern := close_fd d (kern s)\<rparr>)"
| handler_returns: "hpc s = Returning \<Longrightarrow> tunnel_step c d s (s\<lparr>hpc := Returned\<rparr>)"
| read_fds0: "cpc s = Arg0 \<Longrightarrow> hpc s \<noteq> Returned \<Longrightarrow> tunnel_step c d s (s\<lparr>cpc := Arg1 c\<rparr>)"
| read_fds1: "cpc s = Arg1 a \<Longrightarrow> hpc s \<noteq> Returned \<Longrightarrow> tunnel_step c d s (s\<lparr>cpc := Copying a d Reading\<rparr>)"
| read_dead: "cpc s = Arg0 \<or> cpc s = Arg1 a \<Longrightarrow> hpc s = Returned \<Longrightarrow> tunnel_step c d s (s\<lparr>cpc := Dangling\<rparr>)"
| copier_copies: "cpc s = Copying a b p \<Longrightarrow> pump_step b a p (kern s) (Some p') k \<Longrightarrow>
    tunnel_step c d s (s\<lparr>cpc := Copying a b p', kern := k\<rparr>)"
| copier_breaks: "cpc s = Copying a b p \<Longrightarrow> pump_step b a p (kern s) None k \<Longrightarrow>
    tunnel_step c d s (s\<lparr>cpc := Copied, kern := k\<rparr>)"

text \<open>
  What a tunnel relies on: the other threads open connections under free descriptors, and read,
  write and close their own, never the sockets \<open>x\<close> and \<open>y\<close> of this tunnel.  The code does not
  ensure this: a handler that took its descriptor late (\<open>AcceptRace\<close>), or the second thread of a
  tunnel whose client is closed (\<open>tunnel_crosstalk\<close>), works on the socket of another connection.
  \<open>Process\<close> and \<open>Handover\<close> prove it for every step of the other threads in the schedules
  without these two races (\<open>timely_server_isolated\<close>).
\<close>

inductive other_step :: "sock \<Rightarrow> sock \<Rightarrow> kernel \<Rightarrow> kernel \<Rightarrow> bool" for x y where
  other_opens: "table k fd = None \<Longrightarrow> z \<notin> known k \<Longrightarrow>
    other_step x y k (k\<lparr>table := (table k)(fd := Some z), known := insert z (known k)\<rparr>)"
| other_closes: "table k fd = Some z \<Longrightarrow> z \<noteq> x \<Longrightarrow> z \<noteq> y \<Longrightarrow> other_step x y k (close_fd fd k)"
| other_shuts: "table k fd = Some z \<Longrightarrow> z \<noteq> x \<Longrightarrow> z \<noteq> y \<Longrightarrow> other_step x y k (shut_fd fd k)"
| other_io: "z \<noteq> x \<Longrightarrow> z \<noteq> y \<Longrightarrow>
    other_step x y k (k\<lparr>queue := (queue k)(z := q), given := (given k)(z := given k z @ bs)\<rparr>)"

inductive process_step :: "int \<Rightarrow> int \<Rightarrow> sock \<Rightarrow> sock \<Rightarrow> tunnel_state \<Rightarrow> tunnel_state \<Rightarrow> bool" for c d x y where
  own: "tunnel_step c d s t \<Longrightarrow> process_step c d x y s t"
| other: "other_step x y (kern s) k \<Longrightarrow> process_step c d x y s (s\<lparr>kern := k\<rparr>)"

abbreviation runs :: "int \<Rightarrow> int \<Rightarrow> sock \<Rightarrow> sock \<Rightarrow> tunnel_state \<Rightarrow> tunnel_state \<Rightarrow> bool" where
  "runs c d x y \<equiv> (process_step c d x y)\<^sup>*\<^sup>*"

definition tunnel_start :: "kernel \<Rightarrow> tunnel_state" where
  "tunnel_start k = \<lparr>kern = k, hpc = Handling Reading, cpc = Arg0\<rparr>"

text \<open>The descriptors \<open>c\<close> and \<open>d\<close> are those of the sockets \<open>x\<close> and \<open>y\<close>.\<close>

definition connected :: "int \<Rightarrow> int \<Rightarrow> sock \<Rightarrow> sock \<Rightarrow> kernel \<Rightarrow> bool" where
  "connected c d x y k \<longleftrightarrow> c \<noteq> d \<and> x \<noteq> y \<and> (\<forall>fd. table k fd = Some x \<longleftrightarrow> fd = c)
     \<and> (\<forall>fd. table k fd = Some y \<longleftrightarrow> fd = d) \<and> {x, y} \<inter> ended k = {} \<and> {x, y} \<subseteq> known k
     \<and> ended k \<subseteq> known k"

inductive_cases pump_stepE: "pump_step src dst p k r k'"
inductive_cases tunnel_stepE: "tunnel_step c d s t"
inductive_cases other_stepE: "other_step x y k k'"
inductive_cases process_stepE: "process_step c d x y s t"

section \<open>One pass of a loop\<close>

text \<open>What a thread at \<open>p\<close> has still to write when it goes on reading from \<open>q\<close>.\<close>

fun owed :: "pump option \<Rightarrow> inp list \<Rightarrow> byte list" where
  "owed None q = []"
| "owed (Some Reading) q = fst (stream q)"
| "owed (Some (Writing bs)) q = bs @ fst (stream q)"

lemma BUFSIZE_pos [simp]: "0 < BUFSIZE"
  by (simp add: BUFSIZE_def)

lemmas take_stream = stream_got [OF _ BUFSIZE_pos] stream_failed

lemma pump_step_frame:
  assumes "pump_step src dst p k r k'"
  shows "table k' = table k" "ended k' = ended k" "known k' = known k"
    "table k src \<noteq> Some z \<Longrightarrow> queue k' z = queue k z" "table k dst \<noteq> Some z \<Longrightarrow> given k' z = given k z"
  using assms by (auto elim!: pump_stepE)

lemma pump_step_flow:
  assumes "pump_step src dst p k r k'" "table k src = Some x" "table k dst = Some y"
  shows "\<exists>m. given k' y = given k y @ m \<and> subseq (m @ owed r (queue k' x)) (owed (Some p) (queue k x))"
  using assms
proof cases
  case (write_some z bs n)
  have "subseq (take n bs @ fst (stream (queue k x))) (bs @ fst (stream (queue k x)))"
    by (intro list_emb_append_mono prefix_imp_subseq take_is_prefix subseq_order.refl)
  then show ?thesis using write_some assms(2,3) by (intro exI [of _ "take n bs"]) simp
next
  case (write_failed bs)
  then show ?thesis using assms(2) by (intro exI [of _ "[]"]) (simp add: subseq_drop_many)
qed (use assms take_stream in \<open>auto intro!: exI [of _ "[]"] split: if_splits\<close>)

lemma pump_step_end:
  assumes "pump_step src dst p k r k'" "table k src = Some x" "x \<notin> ended k"
  shows "if r = None then snd (stream (queue k x)) \<noteq> Pending
    else snd (stream (queue k' x)) = snd (stream (queue k x))"
  using assms by cases (use assms take_stream in \<open>auto split: if_splits\<close>)

section \<open>Invariant\<close>

definition client_closed :: "handler_pc \<Rightarrow> bool" where
  "client_closed pc \<longleftrightarrow> pc \<in> {ShutDest, CloseDest, Returning, Returned}"

definition dest_closed :: "handler_pc \<Rightarrow> bool" where
  "dest_closed pc \<longleftrightarrow> pc \<in> {Returning, Returned}"

fun handler_owes :: "handler_pc \<Rightarrow> inp list \<Rightarrow> byte list" where
  "handler_owes (Handling p) q = owed (Some p) q"
| "handler_owes pc q = []"

fun copier_owes :: "copier_pc \<Rightarrow> inp list \<Rightarrow> byte list" where
  "copier_owes (Copying a b p) q = owed (Some p) q"
| "copier_owes Copied q = []"
| "copier_owes Dangling q = []"
| "copier_owes pc q = fst (stream q)"

text \<open>\<open>b\<close> was written of the stream of \<open>q\<close> since \<open>g\<close>, and \<open>r\<close> is to be written.\<close>

definition flow :: "inp list \<Rightarrow> byte list \<Rightarrow> byte list \<Rightarrow> byte list \<Rightarrow> bool" where
  "flow q g b r \<longleftrightarrow> (\<exists>m. b = g @ m \<and> subseq (m @ r) (fst (stream q)))"

definition at_args :: "int \<Rightarrow> int \<Rightarrow> copier_pc \<Rightarrow> bool" where
  "at_args c d pc \<longleftrightarrow> (\<forall>a. pc = Arg1 a \<longrightarrow> a = c) \<and> (\<forall>a b p. pc = Copying a b p \<longrightarrow> a = c \<and> b = d)"

definition tunnel_inv :: "int \<Rightarrow> int \<Rightarrow> sock \<Rightarrow> sock \<Rightarrow> kernel \<Rightarrow> tunnel_state \<Rightarrow> bool" where
  "tunnel_inv c d x y k0 s \<longleftrightarrow> at_args c d (cpc s) \<and> {x, y} \<subseteq> known (kern s)
     \<and> (\<forall>fd. table (kern s) fd = Some x \<longleftrightarrow> fd = c \<and> \<not> client_closed (hpc s))
     \<and> (\<forall>fd. table (kern s) fd = Some y \<longleftrightarrow> fd = d \<and> \<not> dest_closed (hpc s))
     \<and> flow (queue k0 x) (given k0 y) (given (kern s) y) (handler_owes (hpc s) (queue (kern s) x))
     \<and> flow (queue k0 y) (given k0 x) (given (kern s) x)
         (if client_closed (hpc s) then [] else copier_owes (cpc s) (queue (kern s) y))
     \<and> (case hpc s of Handling p \<Rightarrow> x \<notin> ended (kern s) \<and> y \<notin> ended (kern s)
            \<and> snd (stream (queue (kern s) x)) = snd (stream (queue k0 x))
          | _ \<Rightarrow> snd (stream (queue k0 x)) \<noteq> Pending)"

lemma flow_less: "flow q g b (m @ r) \<Longrightarrow> flow q g b m"
  unfolding flow_def by (metis append_assoc list_emb_append_mono prefixI prefix_imp_subseq subseq_order.order_trans)

lemma flow_nil: "flow q g b r \<Longrightarrow> flow q g b []"
  using flow_less [of q g b "[]" r] by simp

lemma flow_step: "flow q g b r \<Longrightarrow> subseq (m @ r') r \<Longrightarrow> flow q g (b @ m) r'"
  unfolding flow_def
  by (elim exE conjE, rule exI, rule conjI, simp, simp)
    (metis list_emb_append_mono subseq_order.order_refl subseq_order.order_trans)

lemma tunnel_inv_start: "connected c d x y k \<Longrightarrow> tunnel_inv c d x y k (tunnel_start k)"
  by (auto simp: connected_def tunnel_inv_def tunnel_start_def at_args_def client_closed_def dest_closed_def flow_def)

lemma other_step_table:
  assumes "other_step x y k k'" "z \<in> {x, y}" "z \<in> known k"
  shows "table k' fd = Some z \<longleftrightarrow> table k fd = Some z"
  using assms by cases (auto simp: close_fd_def shut_fd_def)

lemma tunnel_inv_other:
  assumes "tunnel_inv c d x y k0 s" "other_step x y (kern s) k"
  shows "tunnel_inv c d x y k0 (s\<lparr>kern := k\<rparr>)"
proof -
  have same: "queue k x = queue (kern s) x" "queue k y = queue (kern s) y" "given k x = given (kern s) x"
    "given k y = given (kern s) y" "x \<in> ended k \<longleftrightarrow> x \<in> ended (kern s)"
    "y \<in> ended k \<longleftrightarrow> y \<in> ended (kern s)" "known (kern s) \<subseteq> known k"
    using assms(2) by (auto elim!: other_stepE simp: close_fd_def shut_fd_def)
  have "table k fd = Some z \<longleftrightarrow> table (kern s) fd = Some z" if "z \<in> {x, y}" for fd z
    using other_step_table [OF assms(2) that] assms(1) that by (auto simp: tunnel_inv_def)
  with assms(1) same show ?thesis by (auto simp: tunnel_inv_def split: handler_pc.splits)
qed

text \<open>A pass of the loop of \<open>HandleConnection\<close>, whose descriptors are its own.\<close>

lemma tunnel_inv_handler:
  assumes inv: "tunnel_inv c d x y k0 s" and h: "hpc s = Handling p" and st: "pump_step c d p (kern s) r k"
    and ne: "x \<noteq> y"
  shows "tunnel_inv c d x y k0 (s\<lparr>hpc := (case r of Some p' \<Rightarrow> Handling p' | None \<Rightarrow> ShutClient), kern := k\<rparr>)"
proof -
  have t: "table (kern s) c = Some x" "table (kern s) d = Some y" "x \<notin> ended (kern s)"
    using inv h by (auto simp: tunnel_inv_def client_closed_def dest_closed_def)
  have "given k x = given (kern s) x" "queue k y = queue (kern s) y"
    using pump_step_frame [OF st] t ne by auto
  moreover obtain m where m: "given k y = given (kern s) y @ m"
    "subseq (m @ owed r (queue k x)) (owed (Some p) (queue (kern s) x))"
    using pump_step_flow [OF st t(1,2)] by blast
  have "flow (queue k0 x) (given k0 y) (given (kern s) y) (owed (Some p) (queue (kern s) x))"
    using inv h by (simp add: tunnel_inv_def)
  from flow_step [OF this m(2)] have "flow (queue k0 x) (given k0 y) (given k y) (owed r (queue k x))"
    by (simp add: m(1))
  moreover note pump_step_frame(1-3) [OF st] pump_step_end [OF st t(1,3)]
  ultimately show ?thesis using inv h
    by (cases r) (auto simp: tunnel_inv_def client_closed_def dest_closed_def split: if_splits)
qed

text \<open>A pass of the loop of \<open>HostToCli\<close>, whose descriptors may be closed or those of others.\<close>

lemma tunnel_inv_copier:
  assumes inv: "tunnel_inv c d x y k0 s" and h: "cpc s = Copying a b p" and st: "pump_step b a p (kern s) r k"
    and ne: "x \<noteq> y" "c \<noteq> d"
  shows "tunnel_inv c d x y k0 (s\<lparr>cpc := (case r of Some p' \<Rightarrow> Copying a b p' | None \<Rightarrow> Copied), kern := k\<rparr>)"
proof -
  have ab: "a = c" "b = d" using inv h by (auto simp: tunnel_inv_def at_args_def)
  have tx: "table (kern s) d \<noteq> Some x" "table (kern s) c \<noteq> Some y" using inv ne by (auto simp: tunnel_inv_def)
  have keep: "given k y = given (kern s) y" "queue k x = queue (kern s) x"
    using pump_step_frame [OF st] tx ab by auto
  have down: "flow (queue k0 y) (given k0 x) (given k x)
      (if client_closed (hpc s) then [] else owed r (queue k y))"
  proof (cases "client_closed (hpc s)")
    case True
    then have "given k x = given (kern s) x"
      using pump_step_frame(5) [OF st, of x] inv ab by (auto simp: tunnel_inv_def)
    then show ?thesis using inv True by (simp add: tunnel_inv_def)
  next
    case False
    then have "table (kern s) c = Some x" "table (kern s) d = Some y"
      using inv by (auto simp: tunnel_inv_def client_closed_def dest_closed_def)
    then obtain m where m: "given k x = given (kern s) x @ m"
      "subseq (m @ owed r (queue k y)) (owed (Some p) (queue (kern s) y))"
      using pump_step_flow [OF st] ab by blast
    have "flow (queue k0 y) (given k0 x) (given (kern s) x) (owed (Some p) (queue (kern s) y))"
      using inv h False by (simp add: tunnel_inv_def)
    from flow_step [OF this m(2)] show ?thesis by (simp add: m(1) False)
  qed
  show ?thesis using inv keep down pump_step_frame(1-3) [OF st] ab
    by (cases r) (auto simp: tunnel_inv_def at_args_def split: handler_pc.splits)
qed

lemma tunnel_inv_own:
  assumes inv: "tunnel_inv c d x y k0 s" and st: "tunnel_step c d s t" and ne: "x \<noteq> y" "c \<noteq> d"
  shows "tunnel_inv c d x y k0 t"
  using st
proof cases
  case (handler_copies p p' k)
  then show ?thesis using tunnel_inv_handler [OF inv handler_copies(2,3) ne(1)] by simp
next
  case (handler_breaks p k)
  then show ?thesis using tunnel_inv_handler [OF inv handler_breaks(2,3) ne(1)] by simp
next
  case (copier_copies a b p p' k)
  then show ?thesis using tunnel_inv_copier [OF inv copier_copies(2,3) ne] by simp
next
  case (copier_breaks a b p k)
  then show ?thesis using tunnel_inv_copier [OF inv copier_breaks(2,3) ne] by simp
next
  case close_client
  then show ?thesis using inv ne
    by (auto simp: tunnel_inv_def close_fd_def client_closed_def dest_closed_def dest: flow_nil)
next
  case (read_dead a)
  then show ?thesis using inv
    by (auto simp: tunnel_inv_def at_args_def client_closed_def)
qed (use inv ne in \<open>auto simp: tunnel_inv_def at_args_def close_fd_def shut_fd_def client_closed_def dest_closed_def
  dest: flow_nil split: handler_pc.splits\<close>)

lemma tunnel_inv_runs:
  assumes "runs c d x y s t" "tunnel_inv c d x y k0 s" "x \<noteq> y" "c \<noteq> d"
  shows "tunnel_inv c d x y k0 t"
  using assms
proof (induction rule: rtranclp_induct)
  case (step t u)
  then show ?case by (auto elim!: process_stepE intro: tunnel_inv_own tunnel_inv_other)
qed

lemma tunnel_inv_reached:
  "connected c d x y k \<Longrightarrow> runs c d x y (tunnel_start k) s \<Longrightarrow> tunnel_inv c d x y k s"
  using tunnel_inv_runs [OF _ tunnel_inv_start] by (simp add: connected_def)

lemma tunnel_inv_flows:
  assumes "tunnel_inv c d x y k s"
  shows "\<exists>up down. given (kern s) y = given k y @ up \<and> subseq up (fst (stream (queue k x)))
     \<and> given (kern s) x = given k x @ down \<and> subseq down (fst (stream (queue k y)))"
proof -
  have "flow (queue k x) (given k y) (given (kern s) y) []" "flow (queue k y) (given k x) (given (kern s) x) []"
    using assms by (auto simp: tunnel_inv_def intro: flow_nil)
  then show ?thesis by (auto simp: flow_def)
qed

section \<open>The relay of one thread is a run of its loop\<close>

inductive pump_ends :: "int \<Rightarrow> int \<Rightarrow> pump \<Rightarrow> kernel \<Rightarrow> kernel \<Rightarrow> bool" for src dst where
  ends_break: "pump_step src dst p k None k' \<Longrightarrow> pump_ends src dst p k k'"
| ends_go: "pump_step src dst p k (Some p') k1 \<Longrightarrow> pump_ends src dst p' k1 k2 \<Longrightarrow> pump_ends src dst p k k2"

lemma sys_write_pump:
  assumes "sys_write dst bs w = (Inr n, w')" "table k dst = Some y" "y \<notin> ended k"
  shows "\<exists>ps. trace w' = trace w @ map (Sent dst) ps
    \<and> pump_step src dst (Writing bs) k (Some Reading) (k\<lparr>given := (given k)(y := given k y @ concat ps)\<rparr>)"
proof -
  obtain os ps where w': "w' = w\<lparr>outs := (outs w)(dst := os), trace := trace w @ map (Sent dst) ps\<rparr>"
    "prefix (concat ps) bs" by (rule sys_write_effect [OF assms(1)])
  have "concat ps = take (length (concat ps)) bs" using w'(2) by (auto simp: prefix_def)
  then have "pump_step src dst (Writing bs) k (Some Reading) (k\<lparr>given := (given k)(y := given k y @ concat ps)\<rparr>)"
    using write_some [OF assms(2,3), of src bs "length (concat ps)"] by simp
  then show ?thesis using w'(1) by (intro exI [of _ ps]) simp
qed

lemma sys_read_pump:
  assumes "sys_read src BUFSIZE w = (Inr r, w1)" "inputs w src = queue k x" "table k src = Some x"
  shows "pump_step src dst Reading k
      (case r of Got bs \<Rightarrow> if bs = [] then None else Some (Writing bs)
       | Failed e \<Rightarrow> if e = EINTR then Some Reading else None)
      (k\<lparr>queue := (queue k)(x := inputs w1 src)\<rparr>)" "trace w1 = trace w"
proof -
  obtain q where "take_input BUFSIZE (queue k x) = Some (r, q)" "w1 = w\<lparr>inputs := (inputs w)(src := q)\<rparr>"
    using assms by (auto simp: sys_read_def split: option.splits)
  then show "pump_step src dst Reading k (case r of Got bs \<Rightarrow> if bs = [] then None else Some (Writing bs)
       | Failed e \<Rightarrow> if e = EINTR then Some Reading else None) (k\<lparr>queue := (queue k)(x := inputs w1 src)\<rparr>)"
    "trace w1 = trace w"
    using read_some [OF assms(3)] read_end [OF assms(3)] read_failed [OF assms(3)]
    by (auto split: rres.split)
qed

lemma relay_pump_ends:
  assumes "relay BUFSIZE src dst w = (Inr (), w')" "inputs w src = queue k x"
    "table k src = Some x" "table k dst = Some y" "y \<notin> ended k"
  shows "\<exists>ps. trace w' = trace w @ map (Sent dst) ps \<and> pump_ends src dst Reading k
    (k\<lparr>queue := (queue k)(x := inputs w' src), given := (given k)(y := given k y @ concat ps)\<rparr>)"
  using assms
proof (induction BUFSIZE src dst w arbitrary: k rule: relay.induct)
  case (1 src dst w)
  note step = relay.simps [of BUFSIZE src dst w]
  obtain r w1 where rd: "sys_read src BUFSIZE w = (Inr r, w1)"
    using 1(3) by (auto simp: step iob_def split: prod.splits sum.splits)
  define k1 where "k1 = k\<lparr>queue := (queue k)(x := inputs w1 src)\<rparr>"
  note rs = sys_read_pump(1) [OF rd 1(4,5), of dst, folded k1_def] sys_read_pump(2) [OF rd 1(4,5)]
  have k1: "inputs w1 src = queue k1 x" "table k1 src = Some x" "table k1 dst = Some y" "y \<notin> ended k1"
    using 1(5-7) by (simp_all add: k1_def)
  consider (stop) "relay BUFSIZE src dst w = (Inr (), w1)" "pump_step src dst Reading k None k1"
    | (again) "r = Failed EINTR" | (pass) bs where "r = Got bs" "bs \<noteq> []"
    using rs(1) rd by (cases r) (auto simp: step split: if_splits)
  then show ?case
  proof cases
    case stop
    then show ?thesis using 1(3) rs(2)
      by (intro exI [of _ "[]"]) (auto simp: k1_def ends_break fun_upd_idem)
  next
    case again
    have "relay BUFSIZE src dst w1 = (Inr (), w')" using 1(3) rd again by (simp add: step)
    from 1(2) [OF rd again refl this k1] obtain ps where ps: "trace w' = trace w1 @ map (Sent dst) ps"
      "pump_ends src dst Reading k1
        (k1\<lparr>queue := (queue k1)(x := inputs w' src), given := (given k1)(y := given k1 y @ concat ps)\<rparr>)"
      by blast
    have "pump_step src dst Reading k (Some Reading) k1" using rs(1) again by simp
    from ends_go [OF this ps(2)] show ?thesis using ps(1) rs(2)
      by (intro exI [of _ ps]) (simp add: k1_def)
  next
    case (pass bs)
    obtain n w2 where wr: "sys_write dst bs w1 = (Inr n, w2)" using sys_write_wrote [of dst bs w1] by blast
    obtain ps where ps: "trace w2 = trace w1 @ map (Sent dst) ps"
      "pump_step src dst (Writing bs) k1 (Some Reading) (k1\<lparr>given := (given k1)(y := given k1 y @ concat ps)\<rparr>)"
      using sys_write_pump [OF wr k1(3,4)] by blast
    let ?k2 = "k1\<lparr>given := (given k1)(y := given k1 y @ concat ps)\<rparr>"
    have "relay BUFSIZE src dst w2 = (Inr (), w')" using 1(3) rd pass wr by (simp add: step)
    moreover have "inputs w2 src = queue ?k2 x" using sys_write_inputs [OF wr] k1(1) by simp
    ultimately obtain qs where qs: "trace w' = trace w2 @ map (Sent dst) qs"
      "pump_ends src dst Reading ?k2 (?k2\<lparr>queue := (queue ?k2)(x := inputs w' src),
          given := (given ?k2)(y := given ?k2 y @ concat qs)\<rparr>)"
      using 1(1) [OF rd pass wr, of ?k2] k1(2-4) by auto
    have "pump_step src dst Reading k (Some (Writing bs)) k1" using rs(1) pass by simp
    from ends_go [OF this ends_go [OF ps(2) qs(2)]] show ?thesis using ps(1) qs(1) rs(2)
      by (intro exI [of _ "ps @ qs"]) (simp add: k1_def)
  qed
qed

section \<open>Schedules\<close>

lemma own_runs: "tunnel_step c d s t \<Longrightarrow> runs c d x y t u \<Longrightarrow> runs c d x y s u"
  by (rule converse_rtranclp_into_rtranclp) (rule own)

lemma handler_runs:
  assumes "pump_ends c d p k k'" "kern s = k" "hpc s = Handling p"
  shows "runs c d x y s (s\<lparr>hpc := ShutClient, kern := k'\<rparr>)"
  using assms
proof (induction arbitrary: s rule: pump_ends.induct)
  case (ends_break p k k')
  then show ?case by (intro r_into_rtranclp own handler_breaks) simp_all
next
  case (ends_go p k p' k1 k2)
  then have "tunnel_step c d s (s\<lparr>hpc := Handling p', kern := k1\<rparr>)" by (intro handler_copies) simp_all
  moreover have "runs c d x y (s\<lparr>hpc := Handling p', kern := k1\<rparr>) (s\<lparr>hpc := ShutClient, kern := k2\<rparr>)"
    using ends_go.IH [of "s\<lparr>hpc := Handling p', kern := k1\<rparr>"] by simp
  ultimately show ?case by (rule own_runs)
qed

text \<open>The thread of the connection on its own: when the client's stream ends it reaches the clean-up.\<close>

lemma handler_leaves:
  assumes "hpc s = Handling Reading" "table (kern s) c = Some x" "table (kern s) d = Some y"
    "y \<notin> ended (kern s)" "snd (stream (queue (kern s) x)) \<noteq> Pending"
  obtains q b where "runs c d x y s (s\<lparr>hpc := ShutClient, kern := (kern s)
    \<lparr>queue := (queue (kern s))(x := q), given := (given (kern s))(y := b)\<rparr>\<rparr>)"
proof -
  define w where "w = world0\<lparr>inputs := (inputs world0)(c := queue (kern s) x)\<rparr>"
  have i: "inputs w c = queue (kern s) x" by (simp add: w_def)
  obtain w' where "relay BUFSIZE c d w = (Inr (), w')"
    using relay_effect [of BUFSIZE c d w] assms(5) i by auto
  from relay_pump_ends [OF this i assms(2-4)] obtain ps where
    "pump_ends c d Reading (kern s) ((kern s)\<lparr>queue := (queue (kern s))(x := inputs w' c),
       given := (given (kern s))(y := given (kern s) y @ concat ps)\<rparr>)" by blast
  from that [OF handler_runs [OF this refl assms(1)]] show thesis .
qed

lemma handler_leaves_client:
  assumes "hpc s = ShutClient"
  shows "runs c d x y s (s\<lparr>kern := close_fd c (shut_fd c (kern s)), hpc := ShutDest\<rparr>)"
proof -
  have 1: "tunnel_step c d s (s\<lparr>hpc := CloseClient, kern := shut_fd c (kern s)\<rparr>)" (is "tunnel_step _ _ _ ?s1")
    using assms by (rule shut_client)
  have 2: "tunnel_step c d ?s1 (?s1\<lparr>hpc := ShutDest, kern := close_fd c (kern ?s1)\<rparr>)" (is "tunnel_step _ _ _ ?s2")
    by (rule close_client) simp
  have "runs c d x y s ?s2" by (rule own_runs [OF 1 own_runs [OF 2]]) simp
  moreover have "?s2 = s\<lparr>kern := close_fd c (shut_fd c (kern s)), hpc := ShutDest\<rparr>" by simp
  ultimately show ?thesis by (simp only:)
qed

lemma handler_leaves_dest:
  assumes "hpc s = ShutDest"
  shows "runs c d x y s (s\<lparr>kern := close_fd d (shut_fd d (kern s)), hpc := Returned\<rparr>)"
proof -
  have 1: "tunnel_step c d s (s\<lparr>hpc := CloseDest, kern := shut_fd d (kern s)\<rparr>)" (is "tunnel_step _ _ _ ?s1")
    using assms by (rule shut_dest)
  have 2: "tunnel_step c d ?s1 (?s1\<lparr>hpc := Returning, kern := close_fd d (kern ?s1)\<rparr>)" (is "tunnel_step _ _ _ ?s2")
    by (rule close_dest) simp
  have 3: "tunnel_step c d ?s2 (?s2\<lparr>hpc := Returned\<rparr>)" (is "tunnel_step _ _ _ ?s3")
    by (rule handler_returns) simp
  have "runs c d x y s ?s3" by (rule own_runs [OF 1 own_runs [OF 2 own_runs [OF 3]]]) simp
  then show ?thesis by simp
qed

text \<open>When the client's stream ends, its descriptor can be closed before the other thread moves.\<close>

lemma runs_client_closed:
  assumes "hpc s = Handling Reading" "table (kern s) c = Some x" "table (kern s) d = Some y"
    "y \<notin> ended (kern s)" "snd (stream (queue (kern s) x)) \<noteq> Pending"
  obtains k' where "runs c d x y s (s\<lparr>kern := k', hpc := ShutDest\<rparr>)" "table k' = (table (kern s))(c := None)"
    "ended k' = insert x (ended (kern s))" "known k' = known (kern s)" "\<And>z. z \<noteq> y \<Longrightarrow> given k' z = given (kern s) z"
proof -
  obtain q b where r: "runs c d x y s (s\<lparr>hpc := ShutClient, kern := (kern s)
      \<lparr>queue := (queue (kern s))(x := q), given := (given (kern s))(y := b)\<rparr>\<rparr>)" (is "runs _ _ _ _ _ ?t")
    by (rule handler_leaves [OF assms])
  have "runs c d x y ?t (?t\<lparr>kern := close_fd c (shut_fd c (kern ?t)), hpc := ShutDest\<rparr>)"
    by (rule handler_leaves_client) simp
  with r have "runs c d x y s (?t\<lparr>kern := close_fd c (shut_fd c (kern ?t)), hpc := ShutDest\<rparr>)"
    by (rule rtranclp_trans)
  then have "runs c d x y s (s\<lparr>kern := close_fd c (shut_fd c (kern ?t)), hpc := ShutDest\<rparr>)" by simp
  then show thesis by (rule that) (use assms(2) in \<open>simp_all add: close_fd_def shut_fd_def\<close>)
qed

text \<open>The array \<open>fds\<close> is missed only by a thread that runs after the other one has returned.\<close>

lemma dangling_returned:
  assumes "runs c d x y (tunnel_start k) s" "cpc s = Dangling"
  shows "hpc s = Returned"
proof -
  have "cpc s = Dangling \<longrightarrow> hpc s = Returned" using assms(1)
  proof (induction rule: rtranclp_induct)
    case base
    then show ?case by (simp add: tunnel_start_def)
  next
    case (step t u)
    then show ?case by (auto elim!: process_stepE tunnel_stepE)
  qed
  with assms(2) show ?thesis by simp
qed

lemma runs_returned:
  assumes "connected c d x y k" "snd (stream (queue k x)) \<noteq> Pending"
  obtains s where "runs c d x y (tunnel_start k) s" "hpc s = Returned" "cpc s = Arg0" "x \<in> ended (kern s)"
proof -
  obtain k' where r: "runs c d x y (tunnel_start k) ((tunnel_start k)\<lparr>kern := k', hpc := ShutDest\<rparr>)"
    (is "runs _ _ _ _ _ ?t") and e: "ended k' = insert x (ended k)"
    by (rule runs_client_closed [of "tunnel_start k" c x d y])
      (use assms in \<open>simp_all add: tunnel_start_def connected_def\<close>)
  have "runs c d x y ?t (?t\<lparr>kern := close_fd d (shut_fd d (kern ?t)), hpc := Returned\<rparr>)"
    by (rule handler_leaves_dest) simp
  with r have "runs c d x y (tunnel_start k) (?t\<lparr>kern := close_fd d (shut_fd d (kern ?t)), hpc := Returned\<rparr>)"
    by (rule rtranclp_trans)
  then show thesis by (rule that) (simp_all add: e tunnel_start_def close_fd_def shut_fd_def)
qed

lemma foreign_write:
  assumes "tunnel_inv c d x y k s" "tunnel_step c d s t" "z \<notin> {x, y}" "given (kern t) z \<noteq> given (kern s) z"
  shows "table (kern s) c = Some z"
  using assms(2)
proof cases
  case (handler_copies p p' k')
  then have "table (kern s) d = Some y" using assms(1) by (auto simp: tunnel_inv_def dest_closed_def)
  then show ?thesis using pump_step_frame(5) [OF handler_copies(3), of z] handler_copies(1) assms(3,4) by auto
next
  case (handler_breaks p k')
  then have "table (kern s) d = Some y" using assms(1) by (auto simp: tunnel_inv_def dest_closed_def)
  then show ?thesis using pump_step_frame(5) [OF handler_breaks(3), of z] handler_breaks(1) assms(3,4) by auto
next
  case (copier_copies a b p p' k')
  then show ?thesis using pump_step_frame(5) [OF copier_copies(3), of z] assms(1,4)
    by (auto simp: tunnel_inv_def at_args_def)
next
  case (copier_breaks a b p k')
  then show ?thesis using pump_step_frame(5) [OF copier_breaks(3), of z] assms(1,4)
    by (auto simp: tunnel_inv_def at_args_def)
qed (use assms(4) in \<open>simp_all add: shut_fd_def close_fd_def\<close>)

text \<open>The second thread has read a piece of the host's stream and not yet written it.\<close>

lemma copier_has_read:
  assumes "connected c d x y k" "queue k y = Chunk bs # q" "bs \<noteq> []" "length bs \<le> BUFSIZE"
  obtains s where "runs c d x y (tunnel_start k) s" "hpc s = Handling Reading"
    "cpc s = Copying c d (Writing bs)" "kern s = k\<lparr>queue := (queue k)(y := q)\<rparr>"
proof -
  let ?s = "tunnel_start k"
  have 1: "tunnel_step c d ?s (?s\<lparr>cpc := Arg1 c\<rparr>)" by (rule read_fds0) (simp_all add: tunnel_start_def)
  have 2: "tunnel_step c d (?s\<lparr>cpc := Arg1 c\<rparr>) (?s\<lparr>cpc := Arg1 c\<rparr>\<lparr>cpc := Copying c d Reading\<rparr>)"
    by (rule read_fds1) (simp_all add: tunnel_start_def)
  have p: "pump_step d c Reading k (Some (Writing bs)) (k\<lparr>queue := (queue k)(y := q)\<rparr>)"
    by (rule read_some) (use assms in \<open>simp_all add: connected_def\<close>)
  have 3: "tunnel_step c d (?s\<lparr>cpc := Arg1 c\<rparr>\<lparr>cpc := Copying c d Reading\<rparr>)
      (?s\<lparr>cpc := Arg1 c\<rparr>\<lparr>cpc := Copying c d Reading\<rparr>\<lparr>cpc := Copying c d (Writing bs),
        kern := k\<lparr>queue := (queue k)(y := q)\<rparr>\<rparr>)"
    by (rule copier_copies) (simp_all add: tunnel_start_def, rule p)
  show thesis
    by (rule that [OF own_runs [OF 1 own_runs [OF 2 own_runs [OF 3 rtranclp.rtrancl_refl]]]])
      (simp_all add: tunnel_start_def)
qed

text \<open>A new connection under the closed descriptor is given what the second thread has read.\<close>

lemma reused_descriptor:
  assumes "cpc s = Copying c d (Writing bs)" "table (kern s) c = None" "z \<notin> known (kern s)" "z \<notin> ended (kern s)"
  obtains t where "runs c d x y s t" "given (kern t) z = given (kern s) z @ bs"
proof -
  let ?k = "(kern s)\<lparr>table := (table (kern s))(c := Some z), known := insert z (known (kern s))\<rparr>"
  let ?t = "s\<lparr>kern := ?k\<rparr>"
  have 1: "process_step c d x y s ?t" by (rule other [OF other_opens [OF assms(2,3)]])
  have "pump_step d c (Writing bs) ?k (Some Reading) (?k\<lparr>given := (given ?k)(z := given ?k z @ take (length bs) bs)\<rparr>)"
    by (rule write_some) (use assms(4) in simp_all)
  then have 2: "tunnel_step c d ?t (?t\<lparr>cpc := Copying c d Reading,
      kern := ?k\<lparr>given := (given ?k)(z := given ?k z @ take (length bs) bs)\<rparr>\<rparr>)"
    by (intro copier_copies) (simp_all add: assms(1))
  show thesis
    by (rule that [OF converse_rtranclp_into_rtranclp [OF 1 own_runs [OF 2 rtranclp.rtrancl_refl]]]) simp
qed

text \<open>A client under descriptor 5, a host under 6.\<close>

definition sample_kernel :: "inp list \<Rightarrow> inp list \<Rightarrow> kernel" where
  "sample_kernel up down = \<lparr>table = Map.empty(5 := Some 1, 6 := Some 2),
     queue = (\<lambda>_. [])(1 := up, 2 := down), given = (\<lambda>_. []), ended = {}, known = {1, 2}\<rparr>"

lemma sample_connected: "connected 5 6 1 2 (sample_kernel up down)"
  by (simp add: connected_def sample_kernel_def)

section \<open>Properties\<close>

text \<open>
  Two threads, one tunnel, and other threads that keep off its two sockets: in every interleaving
  each peer is given a subsequence of what the other one sent, in order, and the two threads do not
  mix the directions.  (Whether the other threads keep off is not decided here.)
\<close>

lemma tunnel_isolated:
  assumes "connected c d x y k" "runs c d x y (tunnel_start k) s"
  shows "\<exists>up down. given (kern s) y = given k y @ up \<and> subseq up (fst (stream (queue k x)))
     \<and> given (kern s) x = given k x @ down \<and> subseq down (fst (stream (queue k y)))"
  by (rule tunnel_inv_flows [OF tunnel_inv_reached [OF assms]])

lemma tunnel_isolated_witness:
  "{given (kern s) 1 | s. runs 5 6 1 2 (tunnel_start (sample_kernel [Chunk [8], Eof] [Chunk [7]])) s} \<subseteq> {[], [7]}"
proof
  fix b assume "b \<in> {given (kern s) 1 | s. runs 5 6 1 2 (tunnel_start (sample_kernel [Chunk [8], Eof] [Chunk [7]])) s}"
  then obtain s where s: "runs 5 6 1 2 (tunnel_start (sample_kernel [Chunk [8], Eof] [Chunk [7]])) s" "b = given (kern s) 1"
    by blast
  from tunnel_isolated [OF sample_connected s(1)] have "subseq b [7]"
    by (auto simp: s(2) sample_kernel_def)
  then show "b \<in> {[], [7]}" by (cases b) (auto elim: list_emb.cases split: if_splits)
qed

text \<open>
  C18.  A tunnel whose sockets the other threads keep off (\<open>other_step\<close>) ends exactly when the
  client ends it.  The host may close its side: as long as the
  client's stream goes on, neither socket is ever shut down or closed, so that a client which
  waits for the end of the response waits for ever; when the client's stream ends, or fails, the
  clean-up can be reached.
\<close>

theorem tunnel_ended_by_client:
  assumes "connected c d x y k"
  shows "(\<exists>s. runs c d x y (tunnel_start k) s \<and> ({x, y} \<inter> ended (kern s) \<noteq> {}
       \<or> table (kern s) c \<noteq> Some x \<or> table (kern s) d \<noteq> Some y))
     \<longleftrightarrow> snd (stream (queue k x)) \<noteq> Pending"
proof
  assume "\<exists>s. runs c d x y (tunnel_start k) s \<and> ({x, y} \<inter> ended (kern s) \<noteq> {}
       \<or> table (kern s) c \<noteq> Some x \<or> table (kern s) d \<noteq> Some y)"
  then obtain s where s: "runs c d x y (tunnel_start k) s"
    "{x, y} \<inter> ended (kern s) \<noteq> {} \<or> table (kern s) c \<noteq> Some x \<or> table (kern s) d \<noteq> Some y" by blast
  have "tunnel_inv c d x y k s" by (rule tunnel_inv_reached [OF assms s(1)])
  with s(2) show "snd (stream (queue k x)) \<noteq> Pending"
    by (cases "hpc s") (auto simp: tunnel_inv_def client_closed_def dest_closed_def)
next
  assume "snd (stream (queue k x)) \<noteq> Pending"
  then obtain s where "runs c d x y (tunnel_start k) s" "x \<in> ended (kern s)"
    using runs_returned [OF assms] by metis
  then show "\<exists>s. runs c d x y (tunnel_start k) s \<and> ({x, y} \<inter> ended (kern s) \<noteq> {}
       \<or> table (kern s) c \<noteq> Some x \<or> table (kern s) d \<noteq> Some y)" by (intro exI [of _ s]) simp
qed

theorem tunnel_ended_by_client_witness:
  "(\<exists>s. runs 5 6 1 2 (tunnel_start (sample_kernel [Chunk [8], Eof] [])) s \<and> ({1, 2} \<inter> ended (kern s) \<noteq> {}
       \<or> table (kern s) 5 \<noteq> Some 1 \<or> table (kern s) 6 \<noteq> Some 2))
   \<and> \<not> (\<exists>s. runs 5 6 1 2 (tunnel_start (sample_kernel [Chunk [8]] [Chunk [7], Eof])) s
       \<and> ({1, 2} \<inter> ended (kern s) \<noteq> {} \<or> table (kern s) 5 \<noteq> Some 1 \<or> table (kern s) 6 \<noteq> Some 2))"
  unfolding tunnel_ended_by_client [OF sample_connected] by (simp add: sample_kernel_def)

text \<open>
  C19.  The second thread takes its descriptors from an array on the stack of the first one, which
  does not wait for it.  While the other threads keep off the two sockets: whenever the client's stream ends there is a schedule in which the array
  is read after \<open>HandleConnection\<close> has returned; while the stream goes on there is none.
\<close>

theorem tunnel_args_dangle:
  assumes "connected c d x y k"
  shows "(\<exists>s. runs c d x y (tunnel_start k) s \<and> cpc s = Dangling) \<longleftrightarrow> snd (stream (queue k x)) \<noteq> Pending"
proof
  assume "\<exists>s. runs c d x y (tunnel_start k) s \<and> cpc s = Dangling"
  then obtain s where s: "runs c d x y (tunnel_start k) s" "cpc s = Dangling" by blast
  show "snd (stream (queue k x)) \<noteq> Pending"
    using tunnel_inv_reached [OF assms s(1)] dangling_returned [OF s] by (simp add: tunnel_inv_def)
next
  assume "snd (stream (queue k x)) \<noteq> Pending"
  then obtain s where s: "runs c d x y (tunnel_start k) s"
    "hpc s = Returned" "cpc s = Arg0" using runs_returned [OF assms] by metis
  have "tunnel_step c d s (s\<lparr>cpc := Dangling\<rparr>)" using s by (intro read_dead) simp_all
  then have "runs c d x y (tunnel_start k) (s\<lparr>cpc := Dangling\<rparr>)"
    by (intro rtranclp.rtrancl_into_rtrancl [OF s(1)] own)
  then show "\<exists>s. runs c d x y (tunnel_start k) s \<and> cpc s = Dangling" by fastforce
qed

theorem tunnel_args_dangle_witness:
  "(\<exists>s. runs 5 6 1 2 (tunnel_start (sample_kernel [Eof] [])) s \<and> cpc s = Dangling)
   \<and> \<not> (\<exists>s. runs 5 6 1 2 (tunnel_start (sample_kernel [Chunk [8]] [Eof])) s \<and> cpc s = Dangling)"
  unfolding tunnel_args_dangle [OF sample_connected] by (simp add: sample_kernel_def)

text \<open>
  C13.  Bytes of one connection can reach another one.  The second thread goes on with its
  descriptors after the first one has closed them: the number of the client's descriptor can
  then be that of a new connection, which is given what the host sent to the old client.  As long
  as the client's descriptor is open (and the other threads keep off the two sockets) no step of the
  two threads writes to a socket of others.
\<close>

theorem tunnel_crosstalk:
  assumes "connected c d x y k"
  shows "(\<forall>s t z. runs c d x y (tunnel_start k) s \<longrightarrow> tunnel_step c d s t \<longrightarrow> z \<notin> {x, y} \<longrightarrow>
       given (kern t) z \<noteq> given (kern s) z \<longrightarrow> table (kern s) c = Some z)
     \<and> (\<forall>bs q z. queue k y = Chunk bs # q \<longrightarrow> bs \<noteq> [] \<longrightarrow> length bs \<le> BUFSIZE \<longrightarrow>
       snd (stream (queue k x)) \<noteq> Pending \<longrightarrow> z \<notin> known k \<longrightarrow>
       (\<exists>s. runs c d x y (tunnel_start k) s \<and> given (kern s) z = given k z @ bs))"
proof (intro conjI allI impI)
  fix s t z
  assume s: "runs c d x y (tunnel_start k) s" and st: "tunnel_step c d s t"
    and z: "z \<notin> {x, y}" "given (kern t) z \<noteq> given (kern s) z"
  show "table (kern s) c = Some z" by (rule foreign_write [OF tunnel_inv_reached [OF assms s] st z])
next
  fix bs q z
  assume a: "queue k y = Chunk bs # q" "bs \<noteq> []" "length bs \<le> BUFSIZE"
    "snd (stream (queue k x)) \<noteq> Pending" "z \<notin> known k"
  obtain s where s: "runs c d x y (tunnel_start k) s" "hpc s = Handling Reading"
    "cpc s = Copying c d (Writing bs)" "kern s = k\<lparr>queue := (queue k)(y := q)\<rparr>"
    by (rule copier_has_read [OF assms a(1-3)])
  obtain k' where k': "runs c d x y s (s\<lparr>kern := k', hpc := ShutDest\<rparr>)" "table k' = (table k)(c := None)"
    "ended k' = insert x (ended k)" "known k' = known k" "\<And>z. z \<noteq> y \<Longrightarrow> given k' z = given k z"
    by (rule runs_client_closed [of s c x d y]) (use s a(4) assms in \<open>simp_all add: connected_def\<close>)
  have ne: "z \<noteq> x" "z \<noteq> y" "z \<notin> ended k'" using a(5) assms k'(3) by (auto simp: connected_def)
  obtain t where "runs c d x y (s\<lparr>kern := k', hpc := ShutDest\<rparr>) t" "given (kern t) z = given k' z @ bs"
    by (rule reused_descriptor [of "s\<lparr>kern := k', hpc := ShutDest\<rparr>" c d bs z])
      (use s(3) k'(2,4) a(5) ne in simp_all)
  then show "\<exists>s. runs c d x y (tunnel_start k) s \<and> given (kern s) z = given k z @ bs"
    using rtranclp_trans [OF rtranclp_trans [OF s(1) k'(1)]] k'(5) [OF ne(2)] by metis
qed

theorem tunnel_crosstalk_witness:
  "\<exists>s. runs 5 6 1 2 (tunnel_start (sample_kernel [Eof] [Chunk [7]])) s \<and> given (kern s) 3 = [7]"
  using conjunct2 [OF tunnel_crosstalk [OF sample_connected [of "[Eof]" "[Chunk [7]]"]], rule_format, of "[7]" "[]" 3]
  by (simp add: sample_kernel_def BUFSIZE_def)

end
