(* ===== verification/Process.thy ===== *)
theory Process
  imports Tunnel
begin

text \<open>
  The whole process of \<open>server.c\<close> with any number of connections.  Each tunnel has its two
  threads; \<open>main\<close> and the handlers that have no tunnel yet open sockets, refuse and close them.
  The steps of \<open>Tunnel\<close> are used for each tunnel on the one kernel of the process, and here the
  behaviour of the other threads is not assumed: it is the steps of the other tunnels.
\<close>

section \<open>Steps\<close>

record conn =
  client_fd :: int
  dest_fd :: int
  client_sock :: sock
  dest_sock :: sock
  start :: kernel
  hthread :: handler_pc
  cthread :: copier_pc

record process =
  pkern :: kernel
  conns :: "conn list"

abbreviation view :: "kernel \<Rightarrow> conn \<Rightarrow> tunnel_state" where
  "view k C \<equiv> \<lparr>kern = k, hpc = hthread C, cpc = cthread C\<rparr>"

definition socks :: "conn \<Rightarrow> sock set" where
  "socks C = {client_sock C, dest_sock C}"

text \<open>
  \<open>joined\<close>: the copying thread has ended before the client's descriptor is closed.  The code does
  not see to it; the steps of the process below are the schedules in which it happens.
\<close>

definition joined :: "tunnel_state \<Rightarrow> bool" where
  "joined s \<longleftrightarrow> (client_closed (hpc s) \<longrightarrow> cpc s = Copied)"

inductive joined_step :: "process \<Rightarrow> process \<Rightarrow> bool" where
  open_socket: "table (pkern P) fd = None \<Longrightarrow> z \<notin> known (pkern P) \<Longrightarrow>
    joined_step P (P\<lparr>pkern := (pkern P)\<lparr>table := (table (pkern P))(fd := Some z), known := insert z (known (pkern P))\<rparr>\<rparr>)"
| shut_socket: "table (pkern P) fd = Some z \<Longrightarrow> \<forall>C \<in> set (conns P). z \<notin> socks C \<Longrightarrow>
    joined_step P (P\<lparr>pkern := shut_fd fd (pkern P)\<rparr>)"
| close_socket: "table (pkern P) fd = Some z \<Longrightarrow> \<forall>C \<in> set (conns P). z \<notin> socks C \<Longrightarrow>
    joined_step P (P\<lparr>pkern := close_fd fd (pkern P)\<rparr>)"
| use_socket: "table (pkern P) fd = Some z \<Longrightarrow> \<forall>C \<in> set (conns P). z \<notin> socks C \<Longrightarrow>
    joined_step P (P\<lparr>pkern := (pkern P)\<lparr>queue := (queue (pkern P))(z := q),
      given := (given (pkern P))(z := given (pkern P) z @ bs)\<rparr>\<rparr>)"
| start_tunnel: "table (pkern P) c = Some x \<Longrightarrow> table (pkern P) d = Some y \<Longrightarrow> x \<noteq> y \<Longrightarrow>
    {x, y} \<inter> ended (pkern P) = {} \<Longrightarrow> \<forall>C \<in> set (conns P). {x, y} \<inter> socks C = {} \<Longrightarrow>
    joined_step P (P\<lparr>conns := conns P @ [\<lparr>client_fd = c, dest_fd = d, client_sock = x, dest_sock = y,
      start = pkern P, hthread = Handling Reading, cthread = Arg0\<rparr>]\<rparr>)"
| tunnel_moves: "i < length (conns P) \<Longrightarrow> conns P ! i = C \<Longrightarrow>
    tunnel_step (client_fd C) (dest_fd C) (view (pkern P) C) s \<Longrightarrow> joined s \<Longrightarrow>
    joined_step P (P\<lparr>pkern := kern s, conns := (conns P)[i := C\<lparr>hthread := hpc s, cthread := cpc s\<rparr>]\<rparr>)"

inductive_cases joined_stepE: "joined_step P Q"

definition fresh_process :: "kernel \<Rightarrow> process" where
  "fresh_process k = \<lparr>pkern = k, conns = []\<rparr>"

section \<open>A step of one tunnel seen from another one\<close>

definition kernel_ok :: "kernel \<Rightarrow> bool" where
  "kernel_ok k \<longleftrightarrow> inj_on (table k) (dom (table k)) \<and> ran (table k) \<subseteq> known k \<and> ended k \<subseteq> known k"

abbreviation conn_inv :: "kernel \<Rightarrow> conn \<Rightarrow> bool" where
  "conn_inv k C \<equiv> tunnel_inv (client_fd C) (dest_fd C) (client_sock C) (dest_sock C) (start C) (view k C)"

lemma pump_step_other:
  assumes "pump_step src dst p k r k'" "table k src = Some u" "table k dst = Some v" "{u, v} \<inter> {x, y} = {}"
  shows "(other_step x y)\<^sup>=\<^sup>= k k'"
proof -
  have io: "(other_step x y)\<^sup>=\<^sup>= k (k\<lparr>queue := (queue k)(z := q), given := (given k)(z := given k z @ bs)\<rparr>)"
    if "z \<in> {u, v}" for z q bs
    using other_io [where k = k and q = q and bs = bs] that assms(4) by auto
  have rd: "(other_step x y)\<^sup>=\<^sup>= k (k\<lparr>queue := (queue k)(u := q)\<rparr>)" for q
  proof -
    have "k\<lparr>queue := (queue k)(u := q), given := (given k)(u := given k u @ [])\<rparr> = k\<lparr>queue := (queue k)(u := q)\<rparr>"
      by (cases k) simp
    with io [where z = u and q = q and bs = "[]"] show ?thesis by simp
  qed
  from assms(1) show ?thesis
  proof cases
    case (write_some z bs n)
    have "k\<lparr>queue := (queue k)(v := queue k v), given := (given k)(v := given k v @ take n bs)\<rparr> = k'"
      using write_some assms(3) by (cases k) simp
    with io [where z = v and q = "queue k v" and bs = "take n bs"] show ?thesis by simp
  qed (use rd assms(2) in \<open>auto split: if_splits\<close>)
qed

lemma tunnel_step_other:
  assumes inv: "tunnel_inv c d u v k0 s" and st: "tunnel_step c d s t" and j: "joined s" "joined t"
    and dis: "{u, v} \<inter> {x, y} = {}"
  shows "(other_step x y)\<^sup>=\<^sup>= (kern s) (kern t)"
proof -
  have tc: "table (kern s) c = Some u" if "\<not> client_closed (hpc s)"
    using inv that by (simp add: tunnel_inv_def)
  have td: "table (kern s) d = Some v" if "\<not> dest_closed (hpc s)"
    using inv that by (simp add: tunnel_inv_def)
  have cop: "\<not> client_closed (hpc s)" "\<not> dest_closed (hpc s)" "a = c" "b = d" if "cpc s = Copying a b p" for a b p
    using that j(1) inv by (auto simp: joined_def client_closed_def dest_closed_def tunnel_inv_def at_args_def)
  have uv: "u \<noteq> x" "u \<noteq> y" "v \<noteq> x" "v \<noteq> y" "{v, u} \<inter> {x, y} = {}" using dis by auto
  from st show ?thesis
  proof cases
    case (handler_copies p p' k)
    then show ?thesis using pump_step_other [OF handler_copies(3) tc td dis]
      by (simp add: client_closed_def dest_closed_def)
  next
    case (handler_breaks p k)
    then show ?thesis using pump_step_other [OF handler_breaks(3) tc td dis]
      by (simp add: client_closed_def dest_closed_def)
  next
    case (copier_copies a b p p' k)
    then show ?thesis using pump_step_other [OF copier_copies(3)] tc td cop [OF copier_copies(2)] uv(5) by auto
  next
    case (copier_breaks a b p k)
    then show ?thesis using pump_step_other [OF copier_breaks(3)] tc td cop [OF copier_breaks(2)] uv(5) by auto
  next
    case shut_client
    then show ?thesis using other_shuts [OF tc uv(1,2)] by (simp add: client_closed_def)
  next
    case close_client
    then show ?thesis using other_closes [OF tc uv(1,2)] by (simp add: client_closed_def)
  next
    case shut_dest
    then show ?thesis using other_shuts [OF td uv(3,4)] by (simp add: dest_closed_def)
  next
    case close_dest
    then show ?thesis using other_closes [OF td uv(3,4)] by (simp add: dest_closed_def)
  qed simp_all
qed

lemma other_step_kernel_ok:
  assumes "other_step x y k k'" "kernel_ok k"
  shows "kernel_ok k'"
  using assms(1)
proof cases
  case (other_opens fd z)
  have "inj_on (table k') (dom (table k'))"
  proof (rule inj_onI)
    fix a b assume "a \<in> dom (table k')" "b \<in> dom (table k')" "table k' a = table k' b"
    moreover have "table k fd' \<noteq> Some z" for fd' using other_opens(3) assms(2) by (auto simp: kernel_ok_def intro: ranI)
    ultimately show "a = b" using assms(2) other_opens(1)
      by (auto simp: kernel_ok_def inj_on_def split: if_splits)
  qed
  then show ?thesis using other_opens assms(2) by (auto simp: kernel_ok_def ran_def)
next
  case (other_closes fd z)
  then show ?thesis using assms(2)
    by (auto simp: kernel_ok_def close_fd_def ran_def inj_on_def split: if_splits)
next
  case (other_shuts fd z)
  then show ?thesis using assms(2) by (auto simp: kernel_ok_def shut_fd_def intro: ranI)
qed (use assms(2) in \<open>simp add: kernel_ok_def\<close>)

section \<open>Invariant of the process\<close>

definition conn_ok :: "kernel \<Rightarrow> conn \<Rightarrow> bool" where
  "conn_ok k C \<longleftrightarrow> conn_inv k C \<and> joined (view k C) \<and> client_fd C \<noteq> dest_fd C \<and> client_sock C \<noteq> dest_sock C"

definition process_inv :: "process \<Rightarrow> bool" where
  "process_inv P \<longleftrightarrow> kernel_ok (pkern P) \<and> (\<forall>C \<in> set (conns P). conn_ok (pkern P) C)
     \<and> (\<forall>i < length (conns P). \<forall>j < length (conns P). i \<noteq> j \<longrightarrow> socks (conns P ! i) \<inter> socks (conns P ! j) = {})"

lemma conn_ok_other:
  assumes "conn_ok k C" "(other_step (client_sock C) (dest_sock C))\<^sup>=\<^sup>= k k'"
  shows "conn_ok k' C"
proof -
  have "conn_inv k' C"
    using assms tunnel_inv_other [of "client_fd C" "dest_fd C" "client_sock C" "dest_sock C" "start C" "view k C" k']
    by (auto simp: conn_ok_def)
  then show ?thesis using assms(1) by (simp add: conn_ok_def joined_def)
qed

lemma process_inv_kernel:
  assumes "process_inv P" "other_step x y (pkern P) k'"
    and "\<And>C. C \<in> set (conns P) \<Longrightarrow> other_step (client_sock C) (dest_sock C) (pkern P) k'"
  shows "process_inv (P\<lparr>pkern := k'\<rparr>)"
  using assms conn_ok_other other_step_kernel_ok [OF assms(2)] by (auto simp: process_inv_def)

lemma foreign_other:
  assumes "\<forall>C \<in> set (conns P). z \<notin> socks C" "C \<in> set (conns P)"
  shows "z \<noteq> client_sock C" "z \<noteq> dest_sock C"
  using assms by (auto simp: socks_def)

lemma process_inv_tunnel:
  assumes inv: "process_inv P" and i: "i < length (conns P)" "conns P ! i = C"
    and st: "tunnel_step (client_fd C) (dest_fd C) (view (pkern P) C) s" and j: "joined s"
  shows "process_inv (P\<lparr>pkern := kern s, conns := (conns P)[i := C\<lparr>hthread := hpc s, cthread := cpc s\<rparr>]\<rparr>)"
proof -
  let ?C = "C\<lparr>hthread := hpc s, cthread := cpc s\<rparr>"
  have C: "conn_inv (pkern P) C" "joined (view (pkern P) C)" "client_fd C \<noteq> dest_fd C" "client_sock C \<noteq> dest_sock C"
    using inv i by (auto simp: process_inv_def conn_ok_def)
  note other = tunnel_step_other [OF C(1) st C(2) j]
  have "conn_inv (kern s) ?C" using tunnel_inv_own [OF C(1) st C(4,3)] by (cases s) simp
  then have own: "conn_ok (kern s) ?C" using C j by (cases s) (simp add: conn_ok_def)
  have dis: "socks (conns P ! a) \<inter> socks (conns P ! b) = {}" if "a \<noteq> b" "a < length (conns P)" "b < length (conns P)" for a b
    using inv that by (simp add: process_inv_def)
  have "conn_ok (kern s) D" if "a < length (conns P)" "a \<noteq> i" "conns P ! a = D" for a D
  proof -
    have "{client_sock C, dest_sock C} \<inter> {client_sock D, dest_sock D} = {}"
      using dis [of i a] that i by (simp add: socks_def)
    from other [OF this] have "(other_step (client_sock D) (dest_sock D))\<^sup>=\<^sup>= (pkern P) (kern s)" by simp
    moreover have "conn_ok (pkern P) D" using inv that by (auto simp: process_inv_def)
    ultimately show ?thesis using conn_ok_other by blast
  qed
  then have "\<forall>D \<in> set ((conns P)[i := ?C]). conn_ok (kern s) D"
    using own i(1) by (auto simp: in_set_conv_nth nth_list_update)
  moreover have "kernel_ok (kern s)"
  proof -
    let ?z = "Suc (client_sock C + dest_sock C)"
    have "(other_step ?z ?z)\<^sup>=\<^sup>= (pkern P) (kern s)" using other [of ?z ?z] by simp
    then show ?thesis using other_step_kernel_ok [of ?z ?z "pkern P" "kern s"] inv by (auto simp: process_inv_def)
  qed
  moreover have "socks ((conns P)[i := ?C] ! a) = socks (conns P ! a)" for a
    using i by (cases "a = i") (simp_all add: socks_def)
  ultimately show ?thesis using inv by (simp add: process_inv_def)
qed

lemma process_inv_start:
  assumes inv: "process_inv P" and t: "table (pkern P) c = Some x" "table (pkern P) d = Some y" and ne: "x \<noteq> y"
    and e: "{x, y} \<inter> ended (pkern P) = {}" and f: "\<forall>C \<in> set (conns P). {x, y} \<inter> socks C = {}"
  shows "process_inv (P\<lparr>conns := conns P @ [\<lparr>client_fd = c, dest_fd = d, client_sock = x, dest_sock = y,
      start = pkern P, hthread = Handling Reading, cthread = Arg0\<rparr>]\<rparr>)"
proof -
  have k: "kernel_ok (pkern P)" using inv by (simp add: process_inv_def)
  have own: "table (pkern P) fd = Some z \<longleftrightarrow> fd = b" if "table (pkern P) b = Some z" for fd z b
    using k that by (auto simp: kernel_ok_def inj_on_def dom_def)
  have cd: "c \<noteq> d" using t ne by auto
  have "{x, y} \<subseteq> known (pkern P)" using k t by (auto simp: kernel_ok_def intro: ranI)
  then have "connected c d x y (pkern P)"
    using k cd ne e own [OF t(1)] own [OF t(2)] by (simp add: connected_def kernel_ok_def)
  from tunnel_inv_start [OF this] cd ne
  have "conn_ok (pkern P) \<lparr>client_fd = c, dest_fd = d, client_sock = x, dest_sock = y,
      start = pkern P, hthread = Handling Reading, cthread = Arg0\<rparr>"
    by (simp add: conn_ok_def tunnel_start_def joined_def client_closed_def)
  then show ?thesis using inv f by (auto simp: process_inv_def nth_append socks_def)
qed

lemma process_inv_step:
  assumes inv: "process_inv P" and st: "joined_step P Q"
  shows "process_inv Q"
  using st
proof cases
  case (open_socket fd z)
  show ?thesis unfolding open_socket(1)
    by (rule process_inv_kernel [OF inv other_opens [OF open_socket(2,3)] other_opens [OF open_socket(2,3)]])
next
  case (shut_socket fd z)
  show ?thesis unfolding shut_socket(1)
    by (rule process_inv_kernel [OF inv other_shuts [OF shut_socket(2), of "Suc z" "Suc z"]])
      (simp_all add: other_shuts [OF shut_socket(2) foreign_other [OF shut_socket(3)]])
next
  case (close_socket fd z)
  show ?thesis unfolding close_socket(1)
    by (rule process_inv_kernel [OF inv other_closes [OF close_socket(2), of "Suc z" "Suc z"]])
      (simp_all add: other_closes [OF close_socket(2) foreign_other [OF close_socket(3)]])
next
  case (use_socket fd z q bs)
  show ?thesis unfolding use_socket(1)
    by (rule process_inv_kernel [OF inv other_io [of z "Suc z" "Suc z"]])
      (simp_all add: other_io [OF foreign_other [OF use_socket(3)]])
next
  case (start_tunnel c x d y)
  then show ?thesis using process_inv_start [OF inv] by simp
next
  case (tunnel_moves i C s)
  then show ?thesis using process_inv_tunnel [OF inv] by simp
qed

lemma process_inv_reached:
  assumes "joined_step\<^sup>*\<^sup>* (fresh_process k) P" "kernel_ok k"
  shows "process_inv P"
  using assms(1)
proof (induction rule: rtranclp_induct)
  case base
  then show ?case using assms(2) by (simp add: process_inv_def fresh_process_def)
qed (rule process_inv_step)

section \<open>A run\<close>

text \<open>A kernel without open sockets, and a connection in it later.\<close>

definition sample_empty :: kernel where
  "sample_empty = (sample_kernel [Chunk [8], Eof] [Chunk [7]])\<lparr>table := Map.empty, known := {}\<rparr>"

definition sample_conn :: conn where
  "sample_conn = \<lparr>client_fd = 5, dest_fd = 6, client_sock = 1, dest_sock = 2,
     start = sample_kernel [Chunk [8], Eof] [Chunk [7]], hthread = Handling Reading, cthread = Arg0\<rparr>"

text \<open>The handler's first two steps: it reads the byte and writes it.\<close>

lemma sample_moves:
  defines "k1 \<equiv> (sample_kernel [Chunk [8], Eof] [Chunk [7]])\<lparr>queue := (queue (sample_kernel [Chunk [8], Eof] [Chunk [7]]))(1 := [Eof])\<rparr>"
  shows "tunnel_step 5 6 (view (start sample_conn) sample_conn) \<lparr>kern = k1, hpc = Handling (Writing [8]), cpc = Arg0\<rparr>"
    "tunnel_step 5 6 \<lparr>kern = k1, hpc = Handling (Writing [8]), cpc = Arg0\<rparr>
       \<lparr>kern = k1\<lparr>given := (given k1)(2 := [8])\<rparr>, hpc = Handling Reading, cpc = Arg0\<rparr>"
proof -
  let ?k = "sample_kernel [Chunk [8], Eof] [Chunk [7]]"
  have "pump_step 5 6 Reading ?k (Some (Writing [8])) k1"
    unfolding k1_def by (rule read_some) (simp_all add: sample_kernel_def BUFSIZE_def)
  then have "tunnel_step 5 6 (view ?k sample_conn) (view ?k sample_conn\<lparr>hpc := Handling (Writing [8]), kern := k1\<rparr>)"
    by (intro handler_copies) (simp_all add: sample_conn_def)
  then show "tunnel_step 5 6 (view (start sample_conn) sample_conn) \<lparr>kern = k1, hpc = Handling (Writing [8]), cpc = Arg0\<rparr>"
    by (simp add: sample_conn_def)
  let ?s = "\<lparr>kern = k1, hpc = Handling (Writing [8]), cpc = Arg0\<rparr>"
  have g: "given k1 2 @ take 1 [8] = [8]" by (simp add: k1_def sample_kernel_def)
  have "pump_step 5 6 (Writing [8]) k1 (Some Reading) (k1\<lparr>given := (given k1)(2 := given k1 2 @ take 1 [8])\<rparr>)"
    by (rule write_some) (simp_all add: k1_def sample_kernel_def)
  then have "tunnel_step 5 6 ?s (?s\<lparr>hpc := Handling Reading, kern := k1\<lparr>given := (given k1)(2 := [8])\<rparr>\<rparr>)"
    unfolding g by (intro handler_copies) simp_all
  then show "tunnel_step 5 6 ?s \<lparr>kern = k1\<lparr>given := (given k1)(2 := [8])\<rparr>, hpc = Handling Reading, cpc = Arg0\<rparr>" by simp
qed

section \<open>Isolation\<close>

text \<open>
  What the two peers of a connection were given since its tunnel started is a subsequence of what
  the other one sent.
\<close>

definition isolated :: "kernel \<Rightarrow> conn \<Rightarrow> bool" where
  "isolated k C \<longleftrightarrow> (\<exists>up down. given k (dest_sock C) = given (start C) (dest_sock C) @ up
     \<and> subseq up (fst (stream (queue (start C) (client_sock C))))
     \<and> given k (client_sock C) = given (start C) (client_sock C) @ down
     \<and> subseq down (fst (stream (queue (start C) (dest_sock C)))))"

text \<open>
  Connections do not mix.  In the whole process, with any number of connections in any
  interleaving in which each copying thread ends before its client's descriptor is closed, every
  connection is isolated: the assumption on the other threads under which one tunnel is isolated
  is met by the other tunnels.
\<close>

lemma connections_isolated:
  assumes "kernel_ok k" "joined_step\<^sup>*\<^sup>* (fresh_process k) P" "C \<in> set (conns P)"
  shows "isolated (pkern P) C"
proof -
  have "conn_inv (pkern P) C"
    using process_inv_reached [OF assms(2,1)] assms(3) by (auto simp: process_inv_def conn_ok_def)
  then show ?thesis unfolding isolated_def using tunnel_inv_flows by fastforce
qed

end
