(* ===== verification/Handover.thy ===== *)
theory Handover
  imports Process
begin

text \<open>
  All of \<open>server.c\<close> behind its listening socket: \<open>main\<close> accepts connections into the variable
  \<open>client_fd\<close>, each thread reads its descriptor from there, answers or refuses the request, connects
  and becomes a tunnel.  The steps are those of the schedules in which a thread has read the
  variable before \<open>main\<close> accepts the next connection; \<open>AcceptRace\<close> shows what can happen in the
  others.  In these, every run is a run of \<open>Process\<close>: the handlers keep to their own sockets.
\<close>

section \<open>States and steps\<close>

text \<open>
  Where a handler is: not yet started, before its answer, between \<open>shutdown\<close> and \<open>close\<close> of a refused
  connection, connected to the host (with the socket of it, for the proofs), with a tunnel, at its end.
\<close>

datatype thread =
    Unread | Serving int | Refusing int | Dialled int int sock | Tunnelled nat | Over

record server =
  proc :: process
  var :: int
  taken :: "sock list"
  threads :: "thread list"

abbreviation kernel_of :: "server \<Rightarrow> kernel" where
  "kernel_of S \<equiv> pkern (proc S)"

abbreviation with_kernel :: "kernel \<Rightarrow> server \<Rightarrow> server" where
  "with_kernel k S \<equiv> S\<lparr>proc := (proc S)\<lparr>pkern := k\<rparr>\<rparr>"

definition open_fd :: "int \<Rightarrow> sock \<Rightarrow> kernel \<Rightarrow> kernel" where
  "open_fd fd z k = k\<lparr>table := (table k)(fd := Some z), known := insert z (known k)\<rparr>"

definition talk :: "sock \<Rightarrow> inp list \<Rightarrow> byte list \<Rightarrow> kernel \<Rightarrow> kernel" where
  "talk z q bs k = k\<lparr>queue := (queue k)(z := q), given := (given k)(z := given k z @ bs)\<rparr>"

definition new_conn :: "int \<Rightarrow> int \<Rightarrow> sock \<Rightarrow> sock \<Rightarrow> kernel \<Rightarrow> conn" where
  "new_conn c d x y k = \<lparr>client_fd = c, dest_fd = d, client_sock = x, dest_sock = y,
     start = k, hthread = Handling Reading, cthread = Arg0\<rparr>"

inductive timely_step :: "server \<Rightarrow> server \<Rightarrow> bool" where
  main_accepts: "table (kernel_of S) fd = None \<Longrightarrow> z \<notin> known (kernel_of S) \<Longrightarrow> 0 < fd \<Longrightarrow> Unread \<notin> set (threads S) \<Longrightarrow>
    timely_step S ((with_kernel (open_fd fd z (kernel_of S)) S)
      \<lparr>var := fd, taken := taken S @ [z], threads := threads S @ [Unread]\<rparr>)"
| reads_var: "i < length (threads S) \<Longrightarrow> threads S ! i = Unread \<Longrightarrow>
    timely_step S (S\<lparr>threads := (threads S)[i := Serving (var S)]\<rparr>)"
| talks: "i < length (threads S) \<Longrightarrow> threads S ! i = Serving fd \<Longrightarrow> table (kernel_of S) fd = Some z \<Longrightarrow>
    timely_step S (with_kernel (talk z q bs (kernel_of S)) S)"
| refuses: "i < length (threads S) \<Longrightarrow> threads S ! i = Serving fd \<Longrightarrow> table (kernel_of S) fd = Some z \<Longrightarrow>
    timely_step S ((with_kernel (shut_fd fd (kernel_of S)) S)\<lparr>threads := (threads S)[i := Refusing fd]\<rparr>)"
| hangs_up: "i < length (threads S) \<Longrightarrow> threads S ! i = Refusing fd \<Longrightarrow> table (kernel_of S) fd = Some z \<Longrightarrow>
    timely_step S ((with_kernel (close_fd fd (kernel_of S)) S)\<lparr>threads := (threads S)[i := Over]\<rparr>)"
| dials: "i < length (threads S) \<Longrightarrow> threads S ! i = Serving fd \<Longrightarrow> table (kernel_of S) d = None \<Longrightarrow>
    z \<notin> known (kernel_of S) \<Longrightarrow> timely_step S ((with_kernel (open_fd d z (kernel_of S)) S)
      \<lparr>threads := (threads S)[i := Dialled fd d z]\<rparr>)"
| confirms: "i < length (threads S) \<Longrightarrow> threads S ! i = Dialled fd d y \<Longrightarrow> table (kernel_of S) fd = Some z \<Longrightarrow>
    timely_step S (with_kernel (talk z (queue (kernel_of S) z) bs (kernel_of S)) S)"
| starts_tunnel: "i < length (threads S) \<Longrightarrow> threads S ! i = Dialled fd d y \<Longrightarrow>
    table (kernel_of S) fd = Some x \<Longrightarrow> table (kernel_of S) d = Some y \<Longrightarrow>
    timely_step S (S\<lparr>proc := (proc S)\<lparr>conns := conns (proc S) @ [new_conn fd d x y (kernel_of S)]\<rparr>,
      threads := (threads S)[i := Tunnelled (length (conns (proc S)))]\<rparr>)"
| tunnel_goes_on: "j < length (conns (proc S)) \<Longrightarrow> conns (proc S) ! j = C \<Longrightarrow>
    tunnel_step (client_fd C) (dest_fd C) (view (kernel_of S) C) s \<Longrightarrow> joined s \<Longrightarrow>
    timely_step S (S\<lparr>proc := \<lparr>pkern = kern s,
      conns = (conns (proc S))[j := C\<lparr>hthread := hpc s, cthread := cpc s\<rparr>]\<rparr>\<rparr>)"

definition fresh_server :: "kernel \<Rightarrow> server" where
  "fresh_server k = \<lparr>proc = fresh_process k, var = 0, taken = [], threads = []\<rparr>"

section \<open>Invariant\<close>

text \<open>The handler of the connection \<open>a\<close> has descriptors that are open, and what it may touch.\<close>

fun thread_ok :: "kernel \<Rightarrow> int \<Rightarrow> sock \<Rightarrow> thread \<Rightarrow> bool" where
  "thread_ok k v a Unread \<longleftrightarrow> table k v = Some a \<and> a \<notin> ended k"
| "thread_ok k v a (Serving fd) \<longleftrightarrow> table k fd = Some a \<and> a \<notin> ended k"
| "thread_ok k v a (Refusing fd) \<longleftrightarrow> table k fd = Some a"
| "thread_ok k v a (Dialled fd d y) \<longleftrightarrow> table k fd = Some a \<and> table k d = Some y \<and> a \<noteq> y \<and> {a, y} \<inter> ended k = {}"
| "thread_ok k v a t \<longleftrightarrow> True"

fun owns :: "sock \<Rightarrow> thread \<Rightarrow> sock set" where
  "owns a (Dialled fd d y) = {a, y}"
| "owns a (Tunnelled j) = {}"
| "owns a Over = {}"
| "owns a t = {a}"

text \<open>The tunnel of a handler is one with its own client.\<close>

fun tunnel_of :: "conn list \<Rightarrow> sock \<Rightarrow> thread \<Rightarrow> bool" where
  "tunnel_of Cs a (Tunnelled j) \<longleftrightarrow> j < length Cs \<and> client_sock (Cs ! j) = a"
| "tunnel_of Cs a t \<longleftrightarrow> True"

definition own :: "server \<Rightarrow> nat \<Rightarrow> sock set" where
  "own S i = owns (taken S ! i) (threads S ! i)"

definition server_inv :: "server \<Rightarrow> bool" where
  "server_inv S \<longleftrightarrow> process_inv (proc S) \<and> length (taken S) = length (threads S)
     \<and> distinct (taken S) \<and> set (taken S) \<subseteq> known (kernel_of S)
     \<and> (\<forall>i < length (threads S). thread_ok (kernel_of S) (var S) (taken S ! i) (threads S ! i)
          \<and> tunnel_of (conns (proc S)) (taken S ! i) (threads S ! i)
          \<and> (\<forall>C \<in> set (conns (proc S)). own S i \<inter> socks C = {}))
     \<and> (\<forall>i < length (threads S). \<forall>j < length (threads S). i \<noteq> j \<longrightarrow> own S i \<inter> own S j = {})"

lemma server_inv_fresh: "kernel_ok k \<Longrightarrow> server_inv (fresh_server k)"
  by (simp add: server_inv_def fresh_server_def process_inv_def fresh_process_def)

lemma thread_ok_other:
  assumes "thread_ok k v a t" "\<And>x y. {x, y} \<subseteq> owns a t \<Longrightarrow> (other_step x y)\<^sup>=\<^sup>= k k'"
  shows "thread_ok k' v a t"
proof -
  have keep: "table k' fd = Some x" "x \<notin> ended k \<Longrightarrow> x \<notin> ended k'"
    if "table k fd = Some x" "x \<in> owns a t" for fd x
    using assms(2) [of x x] that by (auto simp: close_fd_def shut_fd_def elim!: other_stepE)
  show ?thesis using assms(1) keep by (cases t) auto
qed

lemma server_inv_thread:
  assumes "server_inv S" "i < length (threads S)"
  shows "thread_ok (kernel_of S) (var S) (taken S ! i) (threads S ! i)"
    "tunnel_of (conns (proc S)) (taken S ! i) (threads S ! i)"
    "C \<in> set (conns (proc S)) \<Longrightarrow> own S i \<inter> socks C = {}"
    "j < length (threads S) \<Longrightarrow> i \<noteq> j \<Longrightarrow> own S i \<inter> own S j = {}"
    "own S i \<subseteq> known (kernel_of S)"
proof -
  show ok: "thread_ok (kernel_of S) (var S) (taken S ! i) (threads S ! i)"
    using assms by (simp add: server_inv_def)
  show "tunnel_of (conns (proc S)) (taken S ! i) (threads S ! i)"
    "C \<in> set (conns (proc S)) \<Longrightarrow> own S i \<inter> socks C = {}"
    "j < length (threads S) \<Longrightarrow> i \<noteq> j \<Longrightarrow> own S i \<inter> own S j = {}"
    using assms by (simp_all add: server_inv_def)
  have "z \<in> known (kernel_of S)" if "table (kernel_of S) fd = Some z" for fd z
    using assms(1) that by (auto simp: server_inv_def process_inv_def kernel_ok_def intro: ranI)
  then show "own S i \<subseteq> known (kernel_of S)" using ok by (cases "threads S ! i") (auto simp: own_def)
qed

lemma socks_known:
  assumes "server_inv S" "C \<in> set (conns (proc S))"
  shows "socks C \<subseteq> known (kernel_of S)"
  using assms by (auto simp: server_inv_def process_inv_def conn_ok_def tunnel_inv_def socks_def)

text \<open>
  A thread goes on with sockets of its own: \<open>T\<close> are those it touches, \<open>F\<close> those it opens.
\<close>

lemma server_inv_move:
  assumes inv: "server_inv S" and i: "i < length (threads S)"
    and P: "process_inv ((proc S)\<lparr>pkern := k'\<rparr>)" "known (kernel_of S) \<subseteq> known k'"
    and touch: "\<And>x y. {x, y} \<inter> T = {} \<Longrightarrow> (other_step x y)\<^sup>=\<^sup>= (kernel_of S) k'"
    and T: "T \<subseteq> own S i \<union> F" "F \<inter> known (kernel_of S) = {}"
    and t: "thread_ok k' (var S) (taken S ! i) t'" "owns (taken S ! i) t' \<subseteq> own S i \<union> F" "\<And>a. t' \<noteq> Tunnelled a"
  shows "server_inv ((with_kernel k' S)\<lparr>threads := (threads S)[i := t']\<rparr>)"
proof -
  let ?S = "(with_kernel k' S)\<lparr>threads := (threads S)[i := t']\<rparr>"
  note th = server_inv_thread [OF inv]
  have own: "own ?S j = (if j = i then owns (taken S ! i) t' else own S j)" if "j < length (threads S)" for j
    using that i by (simp add: own_def)
  have far: "own S j \<inter> (own S i \<union> F) = {}" if "j < length (threads S)" "j \<noteq> i" for j
    using th(4,5) [of j] that i T(2) by blast
  have "thread_ok k' (var S) (taken S ! j) (threads S ! j)" if "j < length (threads S)" "j \<noteq> i" for j
  proof (rule thread_ok_other [OF th(1) [OF that(1)]])
    fix x y assume "{x, y} \<subseteq> owns (taken S ! j) (threads S ! j)"
    then have "{x, y} \<inter> T = {}" using far [OF that] T(1) by (auto simp: own_def)
    then show "(other_step x y)\<^sup>=\<^sup>= (kernel_of S) k'" by (rule touch)
  qed
  moreover have "own ?S j \<inter> socks C = {}" if "j < length (threads S)" "C \<in> set (conns (proc S))" for j C
  proof -
    have "(own S i \<union> F) \<inter> socks C = {}" using th(3) [OF i that(2)] socks_known [OF inv that(2)] T(2) by blast
    then show ?thesis using own [OF that(1)] th(3) [OF that] t(2) by (cases "j = i") auto
  qed
  moreover have "own ?S a \<inter> own ?S b = {}" if "a < length (threads S)" "b < length (threads S)" "a \<noteq> b" for a b
    using that own far t(2) th(4) by (auto split: if_splits; blast)
  moreover have "tunnel_of (conns (proc S)) (taken S ! i) t'" using t(3) by (cases t') (simp_all, blast)
  ultimately show ?thesis
    using inv P t(1) i th(2) by (auto simp: server_inv_def nth_list_update)
qed

section \<open>The steps are those of the process\<close>

text \<open>What a server step is for the process: nothing or one of its steps.\<close>

lemma own_foreign:
  assumes "server_inv S" "i < length (threads S)" "z \<in> own S i"
  shows "\<forall>C \<in> set (conns (proc S)). z \<notin> socks C"
  using server_inv_thread(3) [OF assms(1,2)] assms(3) by blast

lemma timely_step_joined:
  assumes "server_inv S" "timely_step S T"
  shows "joined_step\<^sup>=\<^sup>= (proc S) (proc T)"
  using assms(2)
proof cases
  case (main_accepts fd z)
  then show ?thesis using open_socket [of "proc S" fd z] by (simp add: open_fd_def)
next
  case (talks i fd z q bs)
  then have "z \<in> own S i" using server_inv_thread(1) [OF assms(1) talks(2)] by (simp add: own_def)
  then show ?thesis using use_socket [where P = "proc S" and fd = fd and z = z and q = q and bs = bs] own_foreign [OF assms(1) talks(2)] talks
    by (simp add: talk_def)
next
  case (refuses i fd z)
  then have "z \<in> own S i" using server_inv_thread(1) [OF assms(1) refuses(2)] by (simp add: own_def)
  then show ?thesis using shut_socket [of "proc S" fd z] own_foreign [OF assms(1) refuses(2)] refuses by simp
next
  case (hangs_up i fd z)
  then have "z \<in> own S i" using server_inv_thread(1) [OF assms(1) hangs_up(2)] by (simp add: own_def)
  then show ?thesis using close_socket [of "proc S" fd z] own_foreign [OF assms(1) hangs_up(2)] hangs_up by simp
next
  case (dials i fd d z)
  then show ?thesis using open_socket [of "proc S" d z] by (simp add: open_fd_def)
next
  case (confirms i fd d y z bs)
  then have "z \<in> own S i" using server_inv_thread(1) [OF assms(1) confirms(2)] by (simp add: own_def)
  then show ?thesis using use_socket [where P = "proc S" and fd = fd and z = z and q = "queue (kernel_of S) z" and bs = bs] own_foreign [OF assms(1) confirms(2)] confirms
    by (simp add: talk_def)
next
  case (starts_tunnel i fd d y x)
  have t: "x \<noteq> y" "{x, y} \<inter> ended (kernel_of S) = {}" "own S i = {x, y}"
    using server_inv_thread(1) [OF assms(1) starts_tunnel(2)] starts_tunnel by (auto simp: own_def)
  then show ?thesis
    using start_tunnel [OF starts_tunnel(4,5) t(1,2)] server_inv_thread(3) [OF assms(1) starts_tunnel(2)] starts_tunnel(1)
    by (simp add: new_conn_def)
next
  case (tunnel_goes_on j C s)
  then show ?thesis using tunnel_moves [of j "proc S" C s] by (cases "proc S") simp
qed simp

section \<open>The invariant holds\<close>

lemmas touch_rules = other_io [folded talk_def] other_shuts other_closes other_opens [folded open_fd_def]

lemma fd_calls [simp]:
  "table (talk z q bs k) = table k" "ended (talk z q bs k) = ended k" "known (talk z q bs k) = known k"
  "table (open_fd fd z k) = (table k)(fd := Some z)" "ended (open_fd fd z k) = ended k"
  "known (open_fd fd z k) = insert z (known k)"
  "table (shut_fd fd k) = table k" "known (shut_fd fd k) = known k" "known (close_fd fd k) = known k"
  by (simp_all add: talk_def open_fd_def shut_fd_def close_fd_def)

lemma server_inv_own_fd:
  assumes "server_inv S" "i < length (threads S)" "table (kernel_of S) fd = Some z"
    and "threads S ! i = Serving fd \<or> threads S ! i = Refusing fd \<or> threads S ! i = Dialled fd d y"
  shows "z = taken S ! i" "z \<in> own S i"
  using server_inv_thread(1) [OF assms(1,2)] assms(3,4) by (auto simp: own_def)

lemma server_inv_accept:
  assumes inv: "server_inv S" and P: "process_inv ((proc S)\<lparr>pkern := open_fd fd z (kernel_of S)\<rparr>)"
    and z: "table (kernel_of S) fd = None" "z \<notin> known (kernel_of S)" and u: "Unread \<notin> set (threads S)"
  shows "server_inv ((with_kernel (open_fd fd z (kernel_of S)) S)
      \<lparr>var := fd, taken := taken S @ [z], threads := threads S @ [Unread]\<rparr>)"
    (is "server_inv ?S")
proof -
  note th = server_inv_thread [OF inv]
  have len: "length (taken S) = length (threads S)" using inv by (simp add: server_inv_def)
  have free: "z \<notin> own S j" if "j < length (threads S)" for j using th(5) [OF that] z(2) by blast
  have own: "own ?S j = (if j < length (threads S) then own S j else {z})" if "j \<le> length (threads S)" for j
    using that len by (auto simp: own_def nth_append)
  have ok: "thread_ok (open_fd fd z (kernel_of S)) fd (taken S ! j) (threads S ! j)" if "j < length (threads S)" for j
  proof -
    have "threads S ! j \<noteq> Unread" using u that by (metis nth_mem)
    then have "thread_ok (kernel_of S) fd (taken S ! j) (threads S ! j)" using th(1) [OF that] by (cases "threads S ! j") auto
    then show ?thesis by (rule thread_ok_other) (simp add: touch_rules(4) [OF z])
  qed
  have new: "thread_ok (open_fd fd z (kernel_of S)) fd z Unread"
    using inv z(2) by (auto simp: server_inv_def process_inv_def kernel_ok_def)
  have "own ?S j \<inter> socks C = {}" if "j \<le> length (threads S)" "C \<in> set (conns (proc S))" for j C
    using own [OF that(1)] th(3) that socks_known [OF inv that(2)] z(2) by auto
  moreover have "own ?S a \<inter> own ?S b = {}" if "a \<le> length (threads S)" "b \<le> length (threads S)" "a \<noteq> b" for a b
    using own th(4) free that by auto
  moreover have "distinct (taken S @ [z])" "set (taken S @ [z]) \<subseteq> insert z (known (kernel_of S))"
    using inv z(2) by (auto simp: server_inv_def)
  ultimately show ?thesis
    using P ok new th(2) len by (auto simp: server_inv_def nth_append less_Suc_eq_le)
qed

lemma server_inv_tunnel:
  assumes inv: "server_inv S" and i: "i < length (threads S)" "threads S ! i = Dialled fd d y"
    and t: "table (kernel_of S) fd = Some x" "table (kernel_of S) d = Some y"
    and P: "process_inv ((proc S)\<lparr>conns := conns (proc S) @ [new_conn fd d x y (kernel_of S)]\<rparr>)"
  shows "server_inv (S\<lparr>proc := (proc S)\<lparr>conns := conns (proc S) @ [new_conn fd d x y (kernel_of S)]\<rparr>,
      threads := (threads S)[i := Tunnelled (length (conns (proc S)))]\<rparr>)"
    (is "server_inv ?S")
proof -
  note th = server_inv_thread [OF inv]
  have x: "x = taken S ! i" "own S i = {x, y}" using th(1) [OF i(1)] i(2) t by (auto simp: own_def)
  have own: "own ?S j = (if j = i then {} else own S j)" if "j < length (threads S)" for j
    using that i by (simp add: own_def)
  have new: "socks (new_conn fd d x y (kernel_of S)) = own S i" using x by (simp add: socks_def new_conn_def)
  have "own ?S j \<inter> socks C = {}"
    if "j < length (threads S)" "C \<in> set (conns (proc S) @ [new_conn fd d x y (kernel_of S)])" for j C
    using own [OF that(1)] th(3) [OF that(1)] th(4) [OF that(1) i(1)] that(2) new by (cases "j = i") auto
  moreover have "own ?S a \<inter> own ?S b = {}" if "a < length (threads S)" "b < length (threads S)" "a \<noteq> b" for a b
    using own th(4) that by (auto split: if_splits)
  moreover have "tunnel_of (conns (proc S) @ [new_conn fd d x y (kernel_of S)]) (taken S ! j) (threads ?S ! j)"
    if "j < length (threads S)" for j
    using th(2) [OF that] i x(1) that by (cases "j = i"; cases "threads S ! j") (auto simp: nth_append new_conn_def)
  moreover have "thread_ok (kernel_of S) (var S) (taken S ! j) (threads ?S ! j)" if "j < length (threads S)" for j
    using th(1) [OF that] i that by (cases "j = i") simp_all
  ultimately show ?thesis using inv P by (auto simp: server_inv_def)
qed

lemma server_inv_goes_on:
  assumes inv: "server_inv S" and j: "j < length (conns (proc S))" "conns (proc S) ! j = C"
    and st: "tunnel_step (client_fd C) (dest_fd C) (view (kernel_of S) C) s" "joined s"
    and P: "process_inv \<lparr>pkern = kern s, conns = (conns (proc S))[j := C\<lparr>hthread := hpc s, cthread := cpc s\<rparr>]\<rparr>"
  shows "server_inv (S\<lparr>proc := \<lparr>pkern = kern s, conns = (conns (proc S))[j := C\<lparr>hthread := hpc s, cthread := cpc s\<rparr>]\<rparr>\<rparr>)"
    (is "server_inv ?S")
proof -
  note th = server_inv_thread [OF inv]
  have C: "C \<in> set (conns (proc S))" using j by auto
  then have ok: "conn_inv (kernel_of S) C" "joined (view (kernel_of S) C)"
    using inv by (auto simp: server_inv_def process_inv_def conn_ok_def)
  have own: "own ?S i = own S i" for i by (simp add: own_def)
  have same: "socks (C\<lparr>hthread := hpc s, cthread := cpc s\<rparr>) = socks C" by (simp add: socks_def)
  note other = tunnel_step_other [OF ok(1) st(1) ok(2) st(2), simplified]
  have "thread_ok (kern s) (var S) (taken S ! i) (threads S ! i)" if "i < length (threads S)" for i
  proof (rule thread_ok_other [OF th(1) [OF that]])
    fix x y assume "{x, y} \<subseteq> owns (taken S ! i) (threads S ! i)"
    then have "{client_sock C, dest_sock C} \<inter> {x, y} = {}" using th(3) [OF that C] by (auto simp: own_def socks_def)
    then show "(other_step x y)\<^sup>=\<^sup>= (kernel_of S) (kern s)" using other by simp
  qed
  moreover have "own ?S i \<inter> socks D = {}"
    if "i < length (threads S)" "D \<in> set ((conns (proc S))[j := C\<lparr>hthread := hpc s, cthread := cpc s\<rparr>])" for i D
    using th(3) [OF that(1)] C same own that(2) by (auto dest!: set_update_subset_insert [THEN subsetD])
  moreover have "tunnel_of (conns (proc ?S)) (taken S ! i) (threads S ! i)" if "i < length (threads S)" for i
    using th(2) [OF that] j by (cases "threads S ! i") (auto simp: nth_list_update)
  moreover have "known (kernel_of S) \<subseteq> known (kern s)"
    using other [of "Suc (client_sock C + dest_sock C)" "Suc (client_sock C + dest_sock C)"]
    by (auto elim!: other_stepE simp: close_fd_def shut_fd_def)
  ultimately show ?thesis using inv P own by (auto simp: server_inv_def)
qed

lemma timely_step_inv:
  assumes inv: "server_inv S" and st: "timely_step S T"
  shows "server_inv T"
proof -
  have P: "process_inv (proc T)"
    using timely_step_joined [OF inv st] process_inv_step inv by (auto simp: server_inv_def)
  note ok = server_inv_thread(1) [OF inv]
  from st show ?thesis
  proof cases
    case (main_accepts fd z)
    then show ?thesis using server_inv_accept [OF inv _ main_accepts(2,3,5)] P by simp
  next
    case (reads_var i)
    then show ?thesis using server_inv_move [OF inv reads_var(2), of "kernel_of S" "{}" "{}" "Serving (var S)"] P ok [OF reads_var(2)]
      by (simp add: own_def)
  next
    case (talks i fd z q bs)
    note o = server_inv_own_fd [OF inv talks(2,4), of 0]
    have "server_inv ((with_kernel (talk z q bs (kernel_of S)) S)\<lparr>threads := (threads S)[i := threads S ! i]\<rparr>)"
      using P talks o ok [OF talks(2)]
      by (intro server_inv_move [OF inv talks(2), of _ "{z}" "{}"]) (auto simp: own_def intro!: touch_rules)
    then show ?thesis using talks(1) by simp
  next
    case (refuses i fd z)
    note o = server_inv_own_fd [OF inv refuses(2,4), of 0]
    show ?thesis unfolding refuses(1)
      using P refuses o ok [OF refuses(2)]
      by (intro server_inv_move [OF inv refuses(2), of _ "{z}" "{}"]) (auto simp: own_def intro!: touch_rules)
  next
    case (hangs_up i fd z)
    note o = server_inv_own_fd [OF inv hangs_up(2,4), of 0]
    show ?thesis unfolding hangs_up(1)
      using P hangs_up o ok [OF hangs_up(2)]
      by (intro server_inv_move [OF inv hangs_up(2), of _ "{z}" "{}"]) (auto simp: own_def intro!: touch_rules)
  next
    case (dials i fd d z)
    have a: "own S i = {taken S ! i}" "table (kernel_of S) fd = Some (taken S ! i)" "taken S ! i \<notin> ended (kernel_of S)"
      using ok [OF dials(2)] dials(3) by (simp_all add: own_def)
    have "taken S ! i \<noteq> z" "fd \<noteq> d" "z \<notin> ended (kernel_of S)"
      using server_inv_thread(5) [OF inv dials(2)] a(1,2) dials(4,5) inv
      by (auto simp: server_inv_def process_inv_def kernel_ok_def)
    then show ?thesis unfolding dials(1)
      using P dials(1,4,5) a
      by (intro server_inv_move [OF inv dials(2), of _ "{z}" "{z}"]) (auto intro!: touch_rules)
  next
    case (confirms i fd d y z bs)
    note o = server_inv_own_fd [OF inv confirms(2,4), of y]
    have "server_inv ((with_kernel (talk z (queue (kernel_of S) z) bs (kernel_of S)) S)\<lparr>threads := (threads S)[i := threads S ! i]\<rparr>)"
      using P confirms o ok [OF confirms(2)]
      by (intro server_inv_move [OF inv confirms(2), of _ "{z}" "{}"]) (auto simp: own_def intro!: touch_rules)
    then show ?thesis using confirms(1) by simp
  next
    case (starts_tunnel i fd d y x)
    then show ?thesis using server_inv_tunnel [OF inv starts_tunnel(2-5)] P by simp
  next
    case (tunnel_goes_on j C s)
    then show ?thesis using server_inv_goes_on [OF inv tunnel_goes_on(2-5)] P by simp
  qed
qed

section \<open>Properties\<close>

lemma timely_run:
  assumes "timely_step\<^sup>*\<^sup>* (fresh_server k) S" "kernel_ok k"
  shows "server_inv S \<and> joined_step\<^sup>*\<^sup>* (fresh_process k) (proc S)"
  using assms(1)
proof (induction rule: rtranclp_induct)
  case base
  then show ?case using server_inv_fresh [OF assms(2)] by (simp add: fresh_server_def)
next
  case (step S T)
  then show ?case using timely_step_inv [OF _ step(2)] timely_step_joined [OF _ step(2)]
    by (auto intro: rtranclp.rtrancl_into_rtrancl)
qed

text \<open>The descriptor of the client a handler works on.\<close>

fun serves :: "thread \<Rightarrow> int option" where
  "serves (Serving fd) = Some fd"
| "serves (Refusing fd) = Some fd"
| "serves (Dialled fd d y) = Some fd"
| "serves t = None"

text \<open>
  C11.  With a timely hand-over the proxy keeps its clients apart.  If every thread reads the
  variable before the next connection is accepted and every copying thread ends before its client
  is closed, then in each reachable state, whatever the schedule, the thread of the n-th
  connection works on the n-th connection, before its tunnel and in it; the whole run is one of the
  process of tunnels; and each peer of a tunnel was given a subsequence of what the other one
  sent.
\<close>

theorem timely_server_isolated:
  assumes "kernel_ok k" "timely_step\<^sup>*\<^sup>* (fresh_server k) S"
  shows "distinct (taken S) \<and> length (threads S) = length (taken S)
     \<and> (\<forall>i < length (threads S).
          (\<forall>fd. serves (threads S ! i) = Some fd \<longrightarrow> table (kernel_of S) fd = Some (taken S ! i))
        \<and> (\<forall>j. threads S ! i = Tunnelled j \<longrightarrow>
             j < length (conns (proc S)) \<and> client_sock (conns (proc S) ! j) = taken S ! i))
     \<and> joined_step\<^sup>*\<^sup>* (fresh_process k) (proc S)
     \<and> (\<forall>C \<in> set (conns (proc S)). isolated (kernel_of S) C)"
proof -
  have S: "server_inv S" "joined_step\<^sup>*\<^sup>* (fresh_process k) (proc S)" using timely_run [OF assms(2,1)] by blast+
  have "table (kernel_of S) fd = Some (taken S ! i)" if "i < length (threads S)" "serves (threads S ! i) = Some fd" for i fd
    using server_inv_thread(1) [OF S(1) that(1)] that(2) by (cases "threads S ! i") simp_all
  moreover have "j < length (conns (proc S)) \<and> client_sock (conns (proc S) ! j) = taken S ! i"
    if "i < length (threads S)" "threads S ! i = Tunnelled j" for i j
    using server_inv_thread(2) [OF S(1) that(1)] that(2) by simp
  ultimately show ?thesis
    using S connections_isolated [OF assms(1) S(2)] by (simp add: server_inv_def)
qed

text \<open>A connection is accepted and read, the host is dialled, and the first byte is copied.\<close>

definition sample_server :: server where
  "sample_server = \<lparr>proc = \<lparr>pkern = start sample_conn, conns = [sample_conn]\<rparr>, var = 5, taken = [1],
     threads = [Tunnelled 0]\<rparr>"

lemma sample_served: "timely_step\<^sup>*\<^sup>* (fresh_server sample_empty) sample_server"
proof -
  let ?k1 = "open_fd 5 1 sample_empty"
  let ?k2 = "open_fd 6 2 ?k1"
  have k: "?k2 = start sample_conn"
    by (simp add: open_fd_def sample_empty_def sample_conn_def sample_kernel_def insert_commute)
  have f: "table sample_empty = Map.empty" "known sample_empty = {}" by (simp_all add: sample_empty_def)
  let ?S1 = "\<lparr>proc = \<lparr>pkern = ?k1, conns = []\<rparr>, var = 5, taken = [1], threads = [Unread]\<rparr>"
  let ?S2 = "?S1\<lparr>threads := [Serving 5]\<rparr>"
  let ?S3 = "\<lparr>proc = \<lparr>pkern = ?k2, conns = []\<rparr>, var = 5, taken = [1], threads = [Dialled 5 6 2]\<rparr>"
  have "timely_step (fresh_server sample_empty) ?S1"
    using main_accepts [of "fresh_server sample_empty" 5 1] f by (simp add: fresh_server_def fresh_process_def)
  moreover have "timely_step ?S1 ?S2" using reads_var [of 0 ?S1] by simp
  moreover have "timely_step ?S2 ?S3" using dials [of 0 ?S2 5 6 2] f by simp
  moreover have "timely_step ?S3 sample_server"
    using starts_tunnel [of 0 ?S3 5 6 2 1] k
    by (simp add: sample_server_def new_conn_def sample_conn_def)
  ultimately show ?thesis by (meson rtranclp.rtrancl_into_rtrancl rtranclp.rtrancl_refl)
qed

lemma sample_server_copies:
  "\<exists>S. timely_step\<^sup>*\<^sup>* (fresh_server sample_empty) S \<and> given (kernel_of S) 2 = [8]
     \<and> taken S = [1] \<and> threads S = [Tunnelled 0] \<and> conns (proc S) = [sample_conn]"
proof -
  note m = sample_moves
  let ?k1 = "(sample_kernel [Chunk [8], Eof] [Chunk [7]])\<lparr>queue := (queue (sample_kernel [Chunk [8], Eof] [Chunk [7]]))(1 := [Eof])\<rparr>"
  let ?k2 = "?k1\<lparr>given := (given ?k1)(2 := [8])\<rparr>" and ?C1 = "sample_conn\<lparr>hthread := Handling (Writing [8])\<rparr>"
  let ?S1 = "sample_server\<lparr>proc := \<lparr>pkern = ?k1, conns = [?C1]\<rparr>\<rparr>"
  let ?S2 = "sample_server\<lparr>proc := \<lparr>pkern = ?k2, conns = [sample_conn]\<rparr>\<rparr>"
  have "timely_step sample_server ?S1"
    using tunnel_goes_on [of 0 sample_server sample_conn "\<lparr>kern = ?k1, hpc = Handling (Writing [8]), cpc = Arg0\<rparr>"] m(1)
    by (simp add: sample_server_def sample_conn_def joined_def client_closed_def)
  moreover have "timely_step ?S1 ?S2"
    using tunnel_goes_on [of 0 ?S1 ?C1 "\<lparr>kern = ?k2, hpc = Handling Reading, cpc = Arg0\<rparr>"] m(2)
    by (simp add: sample_server_def sample_conn_def joined_def client_closed_def)
  ultimately have "timely_step\<^sup>*\<^sup>* (fresh_server sample_empty) ?S2"
    using sample_served by (meson rtranclp.rtrancl_into_rtrancl)
  then show ?thesis by (intro exI [of _ ?S2]) (simp add: sample_server_def)
qed

theorem timely_server_isolated_witness:
  "\<exists>S. timely_step\<^sup>*\<^sup>* (fresh_server sample_empty) S \<and> threads S = [Tunnelled 0] \<and> given (kernel_of S) 2 = [8]
     \<and> client_sock (conns (proc S) ! 0) = taken S ! 0
     \<and> (\<exists>up. given (kernel_of S) 2 = up \<and> subseq up [8]) \<and> (\<exists>down. given (kernel_of S) 1 = down \<and> subseq down [7])"
proof -
  have "kernel_ok sample_empty" by (simp add: kernel_ok_def sample_empty_def sample_kernel_def)
  moreover obtain S where S: "timely_step\<^sup>*\<^sup>* (fresh_server sample_empty) S" "given (kernel_of S) 2 = [8]"
    "taken S = [1]" "threads S = [Tunnelled 0]" "conns (proc S) = [sample_conn]"
    using sample_server_copies by blast
  ultimately have "client_sock (conns (proc S) ! 0) = taken S ! 0" "isolated (kernel_of S) sample_conn"
    using timely_server_isolated [of sample_empty S] by auto
  then show ?thesis using S
    by (intro exI [of _ S]) (auto simp: isolated_def sample_conn_def sample_kernel_def)
qed

end
