(* ===== verification/SslRedirect.thy ===== *)
theory SslRedirect
  imports Server
begin

text \<open>
  \<open>ssl-redirect.c\<close>: the proxy for one connection.  It shares the block list, the request
  parser and the listening socket with \<open>server.c\<close>; its copying loops run for ever, so they
  get a number of iterations to run.
\<close>

section \<open>Definitions\<close>

definition SSL_BUFSIZE :: nat where "SSL_BUFSIZE = 1024 * 128"

text \<open>
  \<open>while (true)\<close> around a read and a write.  The count given to \<open>write\<close> is what \<open>read\<close>
  returned: for -1 it is the largest \<open>size_t\<close>, far beyond the buffer.
\<close>

fun ssl_relay :: "nat \<Rightarrow> int \<Rightarrow> int \<Rightarrow> unit io" where
  "ssl_relay 0 src dst w = (Inl NoFuel, w)"
| "ssl_relay (Suc fuel) src dst w = iob (sys_read src SSL_BUFSIZE) (\<lambda>r w1. case r of
       Failed e \<Rightarrow> halt OutOfBounds w1
     | Got bs \<Rightarrow> iob (sys_write dst bs) (\<lambda>n w2. ssl_relay fuel src dst w2) w1) w"

definition ssl_HostToCli :: "nat \<Rightarrow> int list \<Rightarrow> unit io" where
  "ssl_HostToCli fuel fds = ssl_relay fuel (fds ! 1) (fds ! 0)"

definition ssl_tunnel :: "nat \<Rightarrow> simple_set \<Rightarrow> mem \<Rightarrow> int \<Rightarrow> int \<Rightarrow> int io" where
  "ssl_tunnel fuel blocked_set m client_fd dest_fd =
     iob (write_all_to_socket client_fd msg_ok 0) (\<lambda>_.
     iob (emit (Spawned ''HostToCli'' [client_fd, dest_fd])) (\<lambda>_.
     iob (ssl_relay fuel client_fd dest_fd) (\<lambda>_.
     iob (emit (Shut client_fd)) (\<lambda>_. iob (emit (Closed client_fd)) (\<lambda>_.
     iob (lift (set_destroy blocked_set m)) (\<lambda>_. ret 0))))))"

definition ssl_serve :: "nat \<Rightarrow> simple_set \<Rightarrow> mem \<Rightarrow> int \<Rightarrow> hostinfo \<Rightarrow> int io" where
  "ssl_serve fuel blocked_set m client_fd info = iob (lift (arr_str (hostname info))) (\<lambda>h.
     iob (lift (arr_str (port info))) (\<lambda>pt.
     iob (lift (checkBlocklist blocked_set h)) (\<lambda>is_blocked.
       if is_blocked \<noteq> 0 then iob (refuse client_fd) (\<lambda>_. ret 0)
       else iob (connect_to_server h pt) (\<lambda>dest_fd.
         if dest_fd < 0 then halt AssertFail
         else ssl_tunnel fuel blocked_set m client_fd dest_fd))))"

text \<open>\<open>buffer[amountRead] = 0\<close> is inside the buffer for 0 to \<open>BUFSIZE - 1\<close> bytes only.\<close>

definition ssl_client :: "nat \<Rightarrow> simple_set \<Rightarrow> mem \<Rightarrow> int \<Rightarrow> int io" where
  "ssl_client fuel blocked_set m client_fd = iob (sys_read client_fd SSL_BUFSIZE) (\<lambda>r. case r of
       Failed e \<Rightarrow> halt OutOfBounds
     | Got bs \<Rightarrow> if length bs < SSL_BUFSIZE
         then iob (lift (parseHost (buf_str bs))) (ssl_serve fuel blocked_set m client_fd)
         else halt OutOfBounds)"

definition ssl_main :: "nat \<Rightarrow> byte list option \<Rightarrow> mem \<Rightarrow> int io" where
  "ssl_main fuel file m = iob (lift (load_blocklist file m)) (\<lambda>(blocked_set, m').
     iob open_listener (\<lambda>sock_fd. iob sys_accept (ssl_client fuel blocked_set m')))"

section \<open>The loop without an end\<close>

lemma ssl_relay_no_result: "fst (ssl_relay fuel src dst w) \<noteq> Inr x"
proof (induction fuel arbitrary: w)
  case (Suc fuel)
  obtain r w1 where rd: "sys_read src SSL_BUFSIZE w = (r, w1)" by (cases "sys_read src SSL_BUFSIZE w")
  show ?case
  proof (cases r)
    case (Inr a)
    show ?thesis
    proof (cases a)
      case (Got bs)
      obtain n w2 where "sys_write dst bs w1 = (Inr n, w2)" using sys_write_wrote [of dst bs w1] by blast
      then show ?thesis using Suc.IH [of w2] rd Inr Got by simp
    qed (use rd Inr in simp)
  qed (use rd in simp)
qed simp

lemma ssl_relay_sends:
  "\<exists>ps. trace (snd (ssl_relay fuel src dst w)) = trace w @ map (Sent dst) ps"
proof (induction fuel arbitrary: w)
  case 0
  have "trace (snd (ssl_relay 0 src dst w)) = trace w @ map (Sent dst) []" by simp
  then show ?case by blast
next
  case (Suc fuel)
  obtain r w1 where rd: "sys_read src SSL_BUFSIZE w = (r, w1)" by (cases "sys_read src SSL_BUFSIZE w")
  have t: "trace w1 = trace w" using rd by (auto simp: sys_read_def split: option.splits)
  show ?case
  proof (cases r)
    case (Inl e)
    then have "trace (snd (ssl_relay (Suc fuel) src dst w)) = trace w @ map (Sent dst) []"
      using rd t by simp
    then show ?thesis by blast
  next
    case (Inr a)
    show ?thesis
    proof (cases a)
      case (Got bs)
      obtain n w2 bytes where sw: "sys_write dst bs w1 = (Inr n, w2)" "wrote dst bytes w1 w2"
        by (rule sys_write_some)
      obtain ps where "trace w2 = trace w1 @ map (Sent dst) ps" using sw(2) by (auto simp: wrote_def)
      moreover obtain qs where "trace (snd (ssl_relay fuel src dst w2)) = trace w2 @ map (Sent dst) qs"
        using Suc.IH [of w2] by blast
      ultimately have "trace (snd (ssl_relay (Suc fuel) src dst w)) = trace w @ map (Sent dst) (ps @ qs)"
        using rd Inr Got sw t by simp
      then show ?thesis by blast
    next
      case (Failed e)
      then have "trace (snd (ssl_relay (Suc fuel) src dst w)) = trace w @ map (Sent dst) []"
        using rd Inr t by simp
      then show ?thesis by blast
    qed
  qed
qed

section \<open>Properties\<close>

text \<open>
  C34.  The session of \<open>ssl-redirect.c\<close> never comes to its clean-up: however long it runs and
  whatever the peers do, a tunnel does not return and closes nothing.  At the end of the
  client's stream it spins, writing nothing again and again, and after a read error it asks
  \<open>write\<close> for more bytes than the buffer has.
\<close>

theorem ssl_tunnel_never_ends:
  "(\<forall>x. fst (ssl_tunnel fuel s m c d w) \<noteq> Inr x)
   \<and> (\<exists>es. trace (snd (ssl_tunnel fuel s m c d w)) = trace w @ es \<and> closed_fds es = [])
   \<and> fst (ssl_relay fuel src dst (world0\<lparr>inputs := (\<lambda>_. [Eof])\<rparr>)) = Inl NoFuel
   \<and> fst (ssl_relay (Suc fuel) src dst (world0\<lparr>inputs := (\<lambda>_. [Err e])\<rparr>)) = Inl OutOfBounds"
proof (intro conjI allI)
  obtain rc n w1 where 1: "write_all_to_socket c msg_ok 0 w = (Inr rc, w1)"
    "wrote c (take n msg_ok) w w1" using write_all_effect [of 0 msg_ok c w] by auto
  obtain ps where ps: "trace w1 = trace w @ map (Sent c) ps" using 1(2) by (auto simp: wrote_def)
  define w2 where "w2 = w1\<lparr>trace := trace w1 @ [Spawned ''HostToCli'' [c, d]]\<rparr>"
  obtain e w3 where 2: "ssl_relay fuel c d w2 = (Inl e, w3)"
    using ssl_relay_no_result [of fuel c d w2] by (metis prod.collapse sum.exhaust)
  obtain qs where qs: "trace w3 = trace w2 @ map (Sent d) qs"
    using ssl_relay_sends [of fuel c d w2] 2 by auto
  have t: "ssl_tunnel fuel s m c d w = (Inl e, w3)"
    using 1(1) 2 by (simp add: ssl_tunnel_def w2_def)
  then show "fst (ssl_tunnel fuel s m c d w) \<noteq> Inr x" for x by simp
  have "trace w3 = trace w @ (map (Sent c) ps @ [Spawned ''HostToCli'' [c, d]] @ map (Sent d) qs)"
    using qs ps by (simp add: w2_def)
  with t show "\<exists>es. trace (snd (ssl_tunnel fuel s m c d w)) = trace w @ es \<and> closed_fds es = []"
    by (intro exI [of _ "map (Sent c) ps @ [Spawned ''HostToCli'' [c, d]] @ map (Sent d) qs"]) simp
next
  have "fst (ssl_relay fuel src dst w') = Inl NoFuel" if "inputs w' src = [Eof]" for w'
    using that
  proof (induction fuel arbitrary: w')
    case (Suc fuel)
    have "sys_read src SSL_BUFSIZE w' = (Inr (Got []), w')"
      using Suc.prems by (auto simp: sys_read_def fun_upd_idem)
    moreover obtain n w2 where "sys_write dst [] w' = (Inr n, w2)"
      using sys_write_wrote [of dst "[]" w'] by blast
    ultimately show ?case using Suc sys_write_inputs by simp
  qed simp
  then show "fst (ssl_relay fuel src dst (world0\<lparr>inputs := (\<lambda>_. [Eof])\<rparr>)) = Inl NoFuel" by simp
  show "fst (ssl_relay (Suc fuel) src dst (world0\<lparr>inputs := (\<lambda>_. [Err e])\<rparr>)) = Inl OutOfBounds"
    by (simp add: sys_read_def iob_def)
qed

text \<open>
  A first read that fills the whole buffer, or fails, makes \<open>main\<close> of
  \<open>ssl-redirect.c\<close> store its terminator outside the buffer; \<open>server.c\<close> keeps a byte for it
  and treats a failed read as a refusal.
\<close>

lemma ssl_terminator_out_of_bounds:
  assumes "(\<exists>bs. inputs w c = Chunk bs # is \<and> SSL_BUFSIZE \<le> length bs) \<or> (\<exists>e. inputs w c = Err e # is)"
  shows "fst (ssl_client fuel s m c w) = Inl OutOfBounds
    \<and> (inputs w c = Err e # is \<longrightarrow> (\<exists>w'. HandleConnection s c w = (Inr (), w')))"
proof
  show "fst (ssl_client fuel s m c w) = Inl OutOfBounds"
    using assms by (auto simp: ssl_client_def sys_read_def iob_def SSL_BUFSIZE_def)
  show "inputs w c = Err e # is \<longrightarrow> (\<exists>w'. HandleConnection s c w = (Inr (), w'))"
  proof
    assume i: "inputs w c = Err e # is"
    let ?w = "w\<lparr>inputs := (inputs w)(c := is)\<rparr>"
    have "HandleConnection s c w = refuse c ?w"
      using i by (simp add: HandleConnection_def sys_read_def)
    then show "\<exists>w'. HandleConnection s c w = (Inr (), w')" using refuse_effect [of c ?w] by auto
  qed
qed

end
