(* ===== verification/Redirect.thy ===== *)
theory Redirect
  imports Server
begin

text \<open>
  \<open>redirect.c\<close>: the HTTP redirector.  Its block list is an array of 100 strings that are
  matched as prefixes; its request buffer is an array of 2048 cells of which only the bytes
  read and their terminator are initialised.
\<close>

section \<open>The block list array\<close>

definition MAX_BLOCKED :: nat where "MAX_BLOCKED = 100"

text \<open>The loading loop of \<open>main\<close>; \<open>arr\<close> is \<open>block_arr\<close> up to \<open>block_list_size\<close>.\<close>

fun load_array :: "byte list list \<Rightarrow> cstr list \<Rightarrow> mem \<Rightarrow> (cstr list \<times> mem) res" where
  "load_array [] arr m = Inr (arr, m)"
| "load_array (l # ls) arr m = rbind (strip_line l) (\<lambda>k. case alloc m of
       (False, m1) \<Rightarrow> Inl NullDeref
     | (True, m1) \<Rightarrow> if length arr < MAX_BLOCKED then load_array ls (arr @ [k]) m1
         else Inl OutOfBounds)"

text \<open>A file that cannot be opened is skipped, but still given to \<open>fclose\<close>.\<close>

definition load_block_arr :: "byte list option \<Rightarrow> mem \<Rightarrow> (cstr list \<times> mem) res" where
  "load_block_arr file m = (case file of None \<Rightarrow> Inl NullDeref
     | Some content \<Rightarrow> load_array (getlines [] content) [] m)"

fun host_blocked :: "cstr list \<Rightarrow> cstr \<Rightarrow> bool" where
  "host_blocked [] h = False"
| "host_blocked (b # bs) h = (if c_strncmp (c_strlen b) b h = 0 then True else host_blocked bs h)"

section \<open>Parsing a request\<close>

text \<open>The string that starts at a cell.\<close>

fun cell_str :: "byte cell list \<Rightarrow> cstr res" where
  "cell_str [] = Inl OutOfBounds"
| "cell_str (Junk # r) = Inl UninitRead"
| "cell_str (Val b # r) = (if b = 0 then Inr [] else rbind (cell_str r) (\<lambda>s. Inr (b # s)))"

text \<open>
  The loop that computes \<open>hostlen\<close>: it stops at a colon or white space only, so that a
  terminator does not stop it.
\<close>

fun host_len :: "byte cell list \<Rightarrow> nat res" where
  "host_len [] = Inl OutOfBounds"
| "host_len (Junk # r) = Inl UninitRead"
| "host_len (Val b # r) = (if b = 58 then Inr 0 else if c_isspace b then Inr 0
     else rbind (host_len r) (\<lambda>n. Inr (Suc n)))"

definition req_hostname :: "byte cell list \<Rightarrow> cstr res" where
  "req_hostname req = rbind (cell_str req) (\<lambda>s. case c_strstr s (cs ''Host: '') of
       None \<Rightarrow> Inl NullDeref
     | Some p \<Rightarrow> rbind (host_len (drop (p + 6) req)) (\<lambda>hostlen.
         if hostlen < 1024 then Inr (take hostlen (drop (p + 6) s)) else Inl OutOfBounds))"

text \<open>
  \<open>parseReq\<close>: -1 for a blocked host, otherwise the socket, whether or not the connection
  succeeded; for a name that does not resolve the null \<open>server\<close> is dereferenced.
\<close>

definition parseReq :: "cstr list \<Rightarrow> byte cell list \<Rightarrow> int io" where
  "parseReq arr req = iob (lift (req_hostname req)) (\<lambda>h.
     if host_blocked arr h then ret (- 1)
     else iob sys_socket (\<lambda>sockfd. iob (sys_resolve h []) (\<lambda>server. case server of
         Inl e \<Rightarrow> halt NullDeref
       | Inr [] \<Rightarrow> halt NullDeref
       | Inr (ai # ais) \<Rightarrow> iob (sys_connect sockfd ai) (\<lambda>c. ret sockfd))))"

section \<open>Sending a request\<close>

text \<open>
  The first loop of \<open>sendReq\<close>.  After an error \<open>sent\<close> goes down by one; below zero the
  next write would start before the request.
\<close>

function send_loop :: "int \<Rightarrow> byte list \<Rightarrow> nat \<Rightarrow> unit io" where
  "send_loop fd req sent_bytes w = iob (sys_write fd (drop sent_bytes req)) (\<lambda>r w1. case r of
       Wrote n \<Rightarrow> if n = 0 then ret () w1
         else if sent_bytes + n < length req then send_loop fd req (sent_bytes + n) w1 else ret () w1
     | WFailed e \<Rightarrow> if sent_bytes = 0 then halt OutOfBounds w1
         else if sent_bytes - 1 < length req then send_loop fd req (sent_bytes - 1) w1
         else ret () w1) w"
  by pat_completeness auto
termination
  by (relation "measure (\<lambda>(fd, req, sent_bytes, w). length (outs w fd))")
    (auto simp: sys_write_def split: list.splits outp.splits)

definition RESPONSE_MAX :: nat where "RESPONSE_MAX = 1024 * 1024 - 1"

text \<open>The second loop; \<open>got\<close> is the response up to \<open>received\<close>.\<close>

function recv_loop :: "int \<Rightarrow> byte list \<Rightarrow> byte list io" where
  "recv_loop fd got w = iob (sys_read fd (RESPONSE_MAX - length got)) (\<lambda>r w1. case r of
       Got bs \<Rightarrow> if bs = [] then ret got w1
         else if length (got @ bs) < RESPONSE_MAX then recv_loop fd (got @ bs) w1
         else ret (got @ bs) w1
     | Failed e \<Rightarrow> if got = [] then halt OutOfBounds w1 else recv_loop fd (butlast got) w1) w"
  by pat_completeness auto
termination
  by (relation "measure (\<lambda>(fd, got, w). weight (inputs w fd))") (auto dest: sys_read_weight)

declare send_loop.simps [simp del] recv_loop.simps [simp del]

text \<open>The response is copied to memory of its own; neither allocation is checked.\<close>

definition sendReq :: "int \<Rightarrow> byte list \<Rightarrow> mem \<Rightarrow> (byte list \<times> mem) io" where
  "sendReq sockfd req m = iob (send_loop sockfd req 0) (\<lambda>_. iob (recv_loop sockfd []) (\<lambda>data.
     case alloc m of (ok1, m1) \<Rightarrow> (case alloc m1 of (ok2, m2) \<Rightarrow>
       if ok1 \<and> ok2 then ret (data, m2) else halt NullDeref)))"

section \<open>The server loop\<close>

definition page :: cstr where "page = cs ''http://cs241.cs.illinois.edu/''"

text \<open>The text \<open>snprintf\<close> builds for the page a blocked request is redirected to.\<close>

definition page_request :: cstr where
  "page_request = take 255 (cs ''GET '' @ page @ cs '' HTTP/1.0'' @ crlf
     @ cs ''Host: cs241.cs.illinois.edu'' @ crlf
     @ cs ''Content-type: application/x-www-form-urlencoded'' @ crlf
     @ cs ''Content-length: 0'' @ crlf @ crlf @ crlf)"

definition google_request :: cstr where
  "google_request = cs ''GET google.com '' @ crlf @ cs ''Host: google.com'' @ crlf @ crlf"

definition moved :: cstr where
  "moved = cs ''HTTP/1.0 301 Moved Permanently'' @ crlf @ cs ''Location: '' @ page @ crlf"

definition established :: cstr where "established = cs ''HTTP/1.0 200 Connection established''"

text \<open>
  The buffer after \<open>bs\<close> was stored in it with a terminator.  Behind a request that
  \<open>main\<close> builds itself there are old bytes instead; parsing it does not get that far.
\<close>

definition request_cells :: "byte list \<Rightarrow> byte cell list" where
  "request_cells bs = map Val bs @ [Val 0] @ replicate (2047 - length bs) Junk"

text \<open>
  The branch for a blocked host.  The response is sent on to the client; the socket to the page
  is not closed and the response is not freed.
\<close>

definition redirect_blocked :: "cstr list \<Rightarrow> int \<Rightarrow> mem \<Rightarrow> mem io" where
  "redirect_blocked arr client_fd m = iob (sys_write client_fd []) (\<lambda>_.
     iob (parseReq arr (request_cells page_request)) (\<lambda>target_fd.
     iob (sendReq target_fd page_request m) (\<lambda>(data, m').
     iob (sys_write client_fd moved) (\<lambda>_. iob (sys_write client_fd data) (\<lambda>_.
     iob (emit (Closed client_fd)) (\<lambda>_. ret m'))))))"

text \<open>The other branch ends the program; \<open>puts\<close> needs a NUL in the response.\<close>

definition redirect_allowed :: "int \<Rightarrow> int \<Rightarrow> mem \<Rightarrow> int io" where
  "redirect_allowed client_fd target_fd m = iob (sendReq target_fd google_request m) (\<lambda>(data, m').
     iob (lift (arr_str data)) (\<lambda>_. iob (sys_write client_fd established) (\<lambda>_. ret 0)))"

text \<open>One connection: \<open>Inl\<close> is the memory to go on with, \<open>Inr\<close> what \<open>main\<close> returns.\<close>

definition redirect_one :: "cstr list \<Rightarrow> int \<Rightarrow> mem \<Rightarrow> (mem + int) io" where
  "redirect_one arr client_fd m = iob (sys_read client_fd 2047) (\<lambda>r. case r of
       Failed e \<Rightarrow> halt OutOfBounds
     | Got bs \<Rightarrow> iob (parseReq arr (request_cells bs)) (\<lambda>target_fd.
         if target_fd = - 1 then iob (redirect_blocked arr client_fd m) (\<lambda>m'. ret (Inl m'))
         else iob (redirect_allowed client_fd target_fd m) (\<lambda>rc. ret (Inr rc))))"

text \<open>The accept loop, for at most \<open>n\<close> connections; what \<open>accept\<close> returns is not checked.\<close>

fun redirect_loop :: "nat \<Rightarrow> cstr list \<Rightarrow> mem \<Rightarrow> int io" where
  "redirect_loop 0 arr m w = (Inl NoFuel, w)"
| "redirect_loop (Suc n) arr m w = iob sys_accept (\<lambda>client_fd. iob (redirect_one arr client_fd m)
     (\<lambda>r w1. case r of Inl m' \<Rightarrow> redirect_loop n arr m' w1 | Inr rc \<Rightarrow> (Inr rc, w1))) w"

definition redirect_main :: "nat \<Rightarrow> byte list option \<Rightarrow> mem \<Rightarrow> int io" where
  "redirect_main n file m = iob (lift (load_block_arr file m)) (\<lambda>(arr, m').
     iob open_listener (\<lambda>sock_fd. redirect_loop n arr m'))"

section \<open>Host names\<close>

lemma host_blocked_iff:
  assumes "\<forall>b \<in> set arr. cstr_ok b"
  shows "host_blocked arr h \<longleftrightarrow> (\<exists>b \<in> set arr. prefix b h)"
  using assms by (induction arr) (auto simp: c_strlen_def c_strncmp_prefix)

lemma cell_str_cells: "cstr_ok s \<Longrightarrow> cell_str (map Val s @ Val 0 # r) = Inr s"
  by (induction s) (auto simp: cstr_ok_def)

lemma host_len_cells:
  assumes "\<forall>b \<in> set h. b \<noteq> 58 \<and> \<not> c_isspace b" "d = 58 \<or> c_isspace d"
  shows "host_len (map Val h @ Val d # r) = Inr (length h)"
  using assms(1) by (induction h) (use assms(2) in auto)

lemma host_len_past_end:
  assumes "\<forall>b \<in> set h. b \<noteq> 58 \<and> \<not> c_isspace b"
  shows "host_len (map Val h @ Val 0 # replicate (Suc k) Junk) = Inl UninitRead"
  using assms by (induction h) (simp_all add: c_isspace_def)

text \<open>A request with a host, closed by a colon or white space, that fits the buffer.\<close>

definition header_of :: "cstr \<Rightarrow> cstr \<Rightarrow> byte \<Rightarrow> cstr \<Rightarrow> cstr" where
  "header_of pre h d post = pre @ cs ''Host: '' @ h @ d # post"

definition host_word :: "cstr \<Rightarrow> cstr \<Rightarrow> bool" where
  "host_word pre h \<longleftrightarrow> \<not> sublist (cs ''Host: '') pre \<and> (\<forall>b \<in> set h. b \<noteq> 58 \<and> \<not> c_isspace b)"

lemma find_host:
  assumes "\<not> sublist (cs ''Host: '') pre"
  shows "c_strstr (pre @ cs ''Host: '' @ t) (cs ''Host: '') = Some (length pre)"
  using c_strstr_first [OF host_needle(2), of pre t] assms by (simp add: host_needle)

lemma req_hostname_header:
  assumes "host_word pre h" "d = 58 \<or> c_isspace d" "cstr_ok (header_of pre h d post)" "length h < 1024"
  shows "req_hostname (request_cells (header_of pre h d post)) = Inr h"
proof -
  let ?r = "header_of pre h d post"
  have 1: "cell_str (request_cells ?r) = Inr ?r"
    using cell_str_cells [OF assms(3)] by (simp add: request_cells_def)
  have 2: "c_strstr ?r (cs ''Host: '') = Some (length pre)"
    using find_host assms(1) by (simp add: header_of_def host_word_def)
  have 3: "drop (length pre + 6) (request_cells ?r) =
      map Val h @ Val d # map Val post @ [Val 0] @ replicate (2047 - length ?r) Junk"
    by (simp add: request_cells_def header_of_def cs_def)
  have 4: "drop (length pre + 6) ?r = h @ d # post" by (simp add: header_of_def cs_def)
  show ?thesis
    using assms(1,2,4) by (simp add: req_hostname_def 1 2 3 4 host_len_cells host_word_def)
qed

section \<open>Sending and receiving\<close>

definition no_errors :: "outp list \<Rightarrow> bool" where
  "no_errors os \<longleftrightarrow> (\<forall>x \<in> set os. \<exists>k. x = Took (Suc k))"

lemma send_loop_clean:
  assumes "no_errors (outs w fd)" "n < length req"
  shows "\<exists>w'. send_loop fd req n w = (Inr (), w') \<and> wrote fd (drop n req) w w'"
  using assms
proof (induction fd req n w rule: send_loop.induct)
  case (1 fd req n w)
  obtain r w1 where sw: "sys_write fd (drop n req) w = (Inr r, w1)"
    and r: "case r of Wrote k \<Rightarrow> k \<le> length (drop n req) \<and> wrote fd (take k (drop n req)) w w1
         \<and> (k = 0 \<longrightarrow> drop n req = [] \<or> Took 0 \<in> set (outs w fd))
       | WFailed e \<Rightarrow> wrote fd [] w w1 \<and> WErr e \<in> set (outs w fd)"
    using sys_write_wrote [of fd "drop n req" w] by auto
  obtain k where k: "r = Wrote k"
  proof (cases r)
    case (WFailed e)
    then show thesis using r 1(3) by (auto simp: no_errors_def)
  qed (use that in blast)
  have w1: "wrote fd (take k (drop n req)) w w1" "k \<le> length req - n" "0 < k"
    using r k 1(3,4) by (auto simp: no_errors_def intro: ccontr)
  show ?case
  proof (cases "n + k < length req")
    case True
    have "no_errors (outs w1 fd)" using w1(1) 1(3) by (auto simp: wrote_def no_errors_def)
    then obtain w' where w': "send_loop fd req (n + k) w1 = (Inr (), w')" "wrote fd (drop (n + k) req) w1 w'"
      using 1(1) [OF sw k _ True] w1(3) True by auto
    have "take k (drop n req) @ drop (n + k) req = drop n req"
      by (metis append_take_drop_id drop_drop add.commute)
    then have "wrote fd (drop n req) w w'" using wrote_trans [OF w1(1) w'(2)] by simp
    then show ?thesis using w'(1) sw k w1(3) True by (simp add: send_loop.simps [of fd req n])
  next
    case False
    then have "take k (drop n req) = drop n req" by simp
    then show ?thesis using sw k w1 False by (simp add: send_loop.simps [of fd req n])
  qed
qed

definition clean_input :: "inp list \<Rightarrow> bool" where
  "clean_input is \<longleftrightarrow> (\<forall>x \<in> set is. \<forall>e. x \<noteq> Err e)"

lemma clean_take:
  assumes "clean_input is" "take_input n is = Some (r, is')"
  shows "clean_input is'" "r \<noteq> Failed e"
  using assms by (cases "(n, is)" rule: take_input.cases; auto simp: clean_input_def split: if_splits)+

lemma recv_loop_clean:
  assumes "clean_input (inputs w fd)" "length got < RESPONSE_MAX" "snd (stream (inputs w fd)) = AtEof"
  shows "\<exists>is. recv_loop fd got w = (Inr (take RESPONSE_MAX (got @ fst (stream (inputs w fd)))), w\<lparr>inputs := is\<rparr>)"
  using assms
proof (induction fd got w rule: recv_loop.induct)
  case (1 fd got w)
  have n: "0 < RESPONSE_MAX - length got" using 1(4) by simp
  obtain r is' where t: "take_input (RESPONSE_MAX - length got) (inputs w fd) = Some (r, is')"
    using 1(5) by (cases "take_input (RESPONSE_MAX - length got) (inputs w fd)") (auto simp: take_input_None)
  define w1 where "w1 = w\<lparr>inputs := (inputs w)(fd := is')\<rparr>"
  have rd: "sys_read fd (RESPONSE_MAX - length got) w = (Inr r, w1)" using t by (simp add: sys_read_def w1_def)
  have w1: "inputs w1 fd = is'" "\<exists>js. w1\<lparr>inputs := is\<rparr> = w\<lparr>inputs := js\<rparr>" "\<exists>js. w1 = w\<lparr>inputs := js\<rparr>" for "is"
    by (auto simp: w1_def)
  note c = clean_take [OF 1(3) t] and step = recv_loop.simps [of fd got w]
  obtain bs where r: "r = Got bs" using c(2) by (cases r) auto
  note g = stream_got [OF t [unfolded r] n]
  show ?case
  proof (cases "bs = []")
    case True
    then show ?thesis using rd r g(1) 1(4) w1(3) by (auto simp: step)
  next
    case ne: False
    show ?thesis
    proof (cases "length (got @ bs) < RESPONSE_MAX")
      case True
      have "snd (stream is') = AtEof" using g(1) ne 1(5) by simp
      then obtain js where "recv_loop fd (got @ bs) w1
          = (Inr (take RESPONSE_MAX ((got @ bs) @ fst (stream is'))), w1\<lparr>inputs := js\<rparr>)"
        using 1(1) [OF rd r ne True] c(1) w1(1) True by auto
      then show ?thesis using True rd r ne g(1) w1(2) [of js] by (simp add: step)
    next
      case False
      then have "length (got @ bs) = RESPONSE_MAX" using g(2) 1(4) by simp
      then show ?thesis using rd r ne g(1) w1(3) by (auto simp: step)
    qed
  qed
qed

text \<open>A connection on which every write takes something and every read returns.\<close>

definition healthy :: "world \<Rightarrow> int \<Rightarrow> bool" where
  "healthy w fd \<longleftrightarrow> no_errors (outs w fd) \<and> clean_input (inputs w fd) \<and> snd (stream (inputs w fd)) = AtEof"

lemma sendReq_clean:
  assumes "healthy w fd" "req \<noteq> []" "mem_ok m"
  shows "\<exists>w' m' ps. sendReq fd req m w = (Inr (take RESPONSE_MAX (fst (stream (inputs w fd))), m'), w')
     \<and> trace w' = trace w @ map (Sent fd) ps \<and> concat ps = req \<and> (\<forall>d. d \<noteq> fd \<longrightarrow> outs w' d = outs w d)"
proof -
  note h = assms(1) [unfolded healthy_def]
  obtain w1 where 1: "send_loop fd req 0 w = (Inr (), w1)" "wrote fd req w w1"
    using send_loop_clean [of w fd 0 req] assms(2) h by auto
  obtain os ps where ps: "concat ps = req" "w1 = w\<lparr>outs := (outs w)(fd := os), trace := trace w @ map (Sent fd) ps\<rparr>"
    using 1(2) by (auto simp: wrote_def)
  obtain js where 2: "recv_loop fd [] w1 = (Inr (take RESPONSE_MAX (fst (stream (inputs w fd)))), w1\<lparr>inputs := js\<rparr>)"
    using recv_loop_clean [of w1 fd "[]"] h ps(2) by (auto simp: RESPONSE_MAX_def)
  obtain m1 m2 where "alloc m = (True, m1)" "alloc m1 = (True, m2)"
    using alloc_ok [OF assms(3)] alloc_ok by blast
  then show ?thesis using 1(1) 2 ps
    by (intro exI [of _ "w1\<lparr>inputs := js\<rparr>"] exI [of _ m2] exI [of _ ps]) (simp add: sendReq_def)
qed

section \<open>Properties\<close>

text \<open>
  \<open>redirect.c\<close> blocks by prefix: a request whose host begins with an entry of the
  array gets -1 and no socket; any other request for a name that resolves gets a socket that
  was asked to connect to its address, whether or not the connection succeeded.
\<close>

lemma redirect_blocks_prefixes:
  assumes "host_word pre h" "d = 58 \<or> c_isspace d" "cstr_ok (header_of pre h d post)" "length h < 1024"
    and "\<forall>b \<in> set arr. cstr_ok b"
  shows "if \<exists>b \<in> set arr. prefix b h
    then parseReq arr (request_cells (header_of pre h d post)) w = (Inr (- 1), w)
    else answers w = fd # rc # rest \<longrightarrow> resolver w h [] = Inr (ai # ais) \<longrightarrow> 0 \<le> fd \<longrightarrow>
      (\<exists>w'. parseReq arr (request_cells (header_of pre h d post)) w = (Inr fd, w')
        \<and> trace w' = trace w @ [Opened fd, Connected fd ai rc])"
  using req_hostname_header [OF assms(1-4)] host_blocked_iff [OF assms(5), of h]
  by (simp add: parseReq_def sys_socket_def sys_connect_def sys_answer_def iob_def)

lemma redirect_blocks_prefixes_witness:
  "parseReq [cs ''www''] (request_cells (header_of [] (cs ''www.a.com'') 13 [10])) world0 = (Inr (- 1), world0)"
proof -
  have "prefix (cs ''www'') (cs ''www.a.com'')" by (simp add: cs_def)
  then show ?thesis
    using redirect_blocks_prefixes [of "[]" "cs ''www.a.com''" 13 "[10]" "[cs ''www'']" world0]
    by (simp add: host_word_def header_of_def c_strstr_None [symmetric] cstr_ok_def c_isspace_def cs_def)
qed

text \<open>
  \<open>sendReq\<close> on a healthy connection sends the whole request and returns the response up
  to the end of the stream, cut off at \<open>1024 * 1024 - 1\<close> bytes.  After an interrupted write it
  steps back one byte and sends that byte again.
\<close>

lemma send_req_correct:
  assumes "healthy w fd" "req \<noteq> []" "mem_ok m"
  shows "(\<exists>w' m'. sendReq fd req m w = (Inr (take RESPONSE_MAX (fst (stream (inputs w fd))), m'), w')
       \<and> sent fd (trace w') = sent fd (trace w) @ req)
    \<and> sent 5 (trace (snd (send_loop 5 [1, 2, 3] 0 (world0\<lparr>outs := (\<lambda>_. [Took 2, WErr EINTR])\<rparr>)))) = [1, 2, 2, 3]"
proof
  show "\<exists>w' m'. sendReq fd req m w = (Inr (take RESPONSE_MAX (fst (stream (inputs w fd))), m'), w')
       \<and> sent fd (trace w') = sent fd (trace w) @ req"
    using sendReq_clean [OF assms] by fastforce
  show "sent 5 (trace (snd (send_loop 5 [1, 2, 3] 0 (world0\<lparr>outs := (\<lambda>_. [Took 2, WErr EINTR])\<rparr>)))) = [1, 2, 2, 3]"
    by (simp add: send_loop.simps sys_write_def iob_def world0_def)
qed

text \<open>The request for the page has the host of the page.\<close>

definition page_host :: cstr where "page_host = cs ''cs241.cs.illinois.edu''"

lemma page_request_header:
  "\<exists>pre post. page_request = header_of pre page_host 13 post \<and> host_word pre page_host
     \<and> cstr_ok page_request \<and> length page_host < 1024"
proof -
  let ?pre = "cs ''GET http://cs241.cs.illinois.edu/ HTTP/1.0'' @ crlf"
  let ?post = "10 # cs ''Content-type: application/x-www-form-urlencoded'' @ crlf
     @ cs ''Content-length: 0'' @ crlf @ crlf @ crlf"
  have "page_request = header_of ?pre page_host 13 ?post"
    by (simp add: page_request_def header_of_def page_host_def page_def cs_def crlf_def)
  moreover have "host_word ?pre page_host"
    by (simp add: host_word_def page_host_def c_strstr_None [symmetric] c_isspace_def cs_def crlf_def)
  moreover have "cstr_ok page_request" by (simp add: page_request_def page_def cstr_ok_def cs_def crlf_def)
  moreover have "length page_host < 1024" by (simp add: page_host_def cs_def)
  ultimately show ?thesis by blast
qed

lemma parse_page_request:
  assumes "\<forall>b \<in> set arr. cstr_ok b" "\<not> (\<exists>b \<in> set arr. prefix b page_host)"
    and "answers w = fd # rc # rest" "resolver w page_host [] = Inr (ai # ais)"
  shows "parseReq arr (request_cells page_request) w
    = (Inr fd, w\<lparr>answers := rest, trace := trace w @ (if fd = - 1 then [] else [Opened fd]) @ [Connected fd ai rc]\<rparr>)"
proof -
  obtain pre post where "page_request = header_of pre page_host 13 post" "host_word pre page_host"
    "cstr_ok page_request" "length page_host < 1024" using page_request_header by blast
  then have "req_hostname (request_cells page_request) = Inr page_host"
    using req_hostname_header [of pre page_host 13 post] by (simp add: c_isspace_def)
  then show ?thesis using assms host_blocked_iff [OF assms(1), of page_host]
    by (simp add: parseReq_def sys_socket_def sys_connect_def sys_answer_def iob_def)
qed

lemma write_all_taken: "outs w fd = [] \<Longrightarrow> sys_write fd bs w = (Inr (Wrote (length bs)), w\<lparr>trace := trace w @ [Sent fd bs]\<rparr>)"
  by (simp add: sys_write_def)

text \<open>The branch for a blocked host, when the page can be fetched.\<close>

lemma redirect_blocked_run:
  assumes "\<forall>b \<in> set arr. cstr_ok b" "\<not> (\<exists>b \<in> set arr. prefix b page_host)"
    and "answers w = fd # rc # rest" "resolver w page_host [] = Inr (ai # ais)"
    and "outs w c = []" "fd \<noteq> c" "0 \<le> fd" "healthy w fd" "mem_ok m"
  shows "\<exists>w' m' ps. redirect_blocked arr c m w = (Inr m', w') \<and> concat ps = page_request
     \<and> trace w' = trace w @ [Sent c [], Opened fd, Connected fd ai rc] @ map (Sent fd) ps
         @ [Sent c moved, Sent c (take RESPONSE_MAX (fst (stream (inputs w fd)))), Closed c]"
proof -
  let ?w1 = "w\<lparr>trace := trace w @ [Sent c []]\<rparr>"
  let ?w2 = "?w1\<lparr>answers := rest, trace := trace ?w1 @ [Opened fd, Connected fd ai rc]\<rparr>"
  have 1: "sys_write c [] w = (Inr (Wrote 0), ?w1)" using write_all_taken [OF assms(5), of "[]"] by simp
  have 2: "parseReq arr (request_cells page_request) ?w1 = (Inr fd, ?w2)"
    using parse_page_request [OF assms(1,2), of ?w1 fd rc rest ai ais] assms(3,4,7) by simp
  have ne: "page_request \<noteq> []" by (simp add: page_request_def cs_def)
  have "healthy ?w2 fd" using assms(8) by (simp add: healthy_def)
  from sendReq_clean [OF this ne assms(9)] obtain w3 m3 ps where
    3: "sendReq fd page_request m ?w2 = (Inr (take RESPONSE_MAX (fst (stream (inputs w fd))), m3), w3)"
    "trace w3 = trace ?w2 @ map (Sent fd) ps" "concat ps = page_request" "\<forall>d. d \<noteq> fd \<longrightarrow> outs w3 d = outs ?w2 d"
    by auto
  have "outs w3 c = []" using 3(4) assms(5,6) by simp
  then show ?thesis using 1 2 3(1-3)
    by (auto simp: redirect_blocked_def write_all_taken)
qed

lemma redirect_allowed_run:
  assumes "outs w c = []" "fd \<noteq> c" "healthy w fd" "mem_ok m"
  defines "data \<equiv> take RESPONSE_MAX (fst (stream (inputs w fd)))"
  shows "\<exists>w' ps. redirect_allowed c fd m w = (if 0 \<in> set data then Inr 0 else Inl OutOfBounds, w')
     \<and> concat ps = google_request
     \<and> trace w' = trace w @ map (Sent fd) ps @ (if 0 \<in> set data then [Sent c established] else [])"
proof -
  have ne: "google_request \<noteq> []" by (simp add: google_request_def cs_def)
  from sendReq_clean [OF assms(3) ne assms(4)] obtain w3 m3 ps where
    3: "sendReq fd google_request m w = (Inr (data, m3), w3)"
    "trace w3 = trace w @ map (Sent fd) ps" "concat ps = google_request" "\<forall>d. d \<noteq> fd \<longrightarrow> outs w3 d = outs w d"
    unfolding data_def by blast
  have "outs w3 c = []" using 3(4) assms(1,2) by simp
  then show ?thesis using 3(1-3)
    by (intro exI [of _ "if 0 \<in> set data then w3\<lparr>trace := trace w3 @ [Sent c established]\<rparr> else w3"] exI [of _ ps])
      (simp add: redirect_allowed_def write_all_taken arr_str_def)
qed

text \<open>
  C35.  What a client of \<open>redirect.c\<close> gets, on connections that work.  For a blocked host, when the
  host of the page is not blocked itself: a redirection to the fixed page, followed by the answer of its server, and the server goes on; the
  socket to that server stays open.  For any other host: not the client's request but a fixed one
  is sent to it, its answer is not passed on, and \<open>main\<close> returns 0 after this one client, unless
  the answer has no NUL byte, when \<open>puts\<close> reads past the end of it.
\<close>

theorem redirect_one_response:
  assumes "host_word pre h" "d = 58 \<or> c_isspace d" "length h < 1024" "\<forall>b \<in> set arr. cstr_ok b"
    and "req = header_of pre h d post" "cstr_ok req" "length req \<le> 2047"
    and "inputs w c = Chunk req # is" "outs w c = []" "answers w = fd # rc # rest"
    and "fd \<noteq> c" "0 \<le> fd" "healthy w fd" "mem_ok m"
  defines "data \<equiv> take RESPONSE_MAX (fst (stream (inputs w fd)))"
  shows "if \<exists>b \<in> set arr. prefix b h
    then resolver w page_host [] = Inr (ai # ais) \<longrightarrow> \<not> (\<exists>b \<in> set arr. prefix b page_host) \<longrightarrow>
      (\<exists>w' m' ps. redirect_one arr c m w = (Inr (Inl m'), w') \<and> concat ps = page_request
        \<and> trace w' = trace w @ [Sent c [], Opened fd, Connected fd ai rc] @ map (Sent fd) ps
            @ [Sent c moved, Sent c data, Closed c])
    else resolver w h [] = Inr (ai # ais) \<longrightarrow>
      (\<exists>w' ps. redirect_one arr c m w = (if 0 \<in> set data then Inr (Inr 0) else Inl OutOfBounds, w')
        \<and> concat ps = google_request
        \<and> trace w' = trace w @ [Opened fd, Connected fd ai rc] @ map (Sent fd) ps
            @ (if 0 \<in> set data then [Sent c established] else []))"
proof -
  let ?w1 = "w\<lparr>inputs := (inputs w)(c := is)\<rparr>"
  have rd: "sys_read c 2047 w = (Inr (Got req), ?w1)" using assms(7,8) by (simp add: sys_read_def)
  have h: "req_hostname (request_cells req) = Inr h"
    using req_hostname_header [OF assms(1,2) _ assms(3), of post] assms(5,6) by simp
  have b: "host_blocked arr h \<longleftrightarrow> (\<exists>b \<in> set arr. prefix b h)" by (rule host_blocked_iff [OF assms(4)])
  have hl: "healthy ?w1 fd" "fst (stream (inputs ?w1 fd)) = fst (stream (inputs w fd))"
    using assms(11,13) by (simp_all add: healthy_def)
  show ?thesis
  proof (cases "\<exists>b \<in> set arr. prefix b h")
    case True
    have p: "parseReq arr (request_cells req) ?w1 = (Inr (- 1), ?w1)" using h b True by (simp add: parseReq_def)
    have "redirect_one arr c m w = iob (redirect_blocked arr c m) (\<lambda>m'. ret (Inl m')) ?w1"
      using rd p by (simp add: redirect_one_def)
    then show ?thesis
      using True redirect_blocked_run [OF assms(4), of ?w1 fd rc rest ai ais c m] assms(9-12,14) hl
      by (auto simp: data_def) blast
  next
    case False
    let ?w2 = "?w1\<lparr>answers := rest, trace := trace w @ [Opened fd, Connected fd ai rc]\<rparr>"
    have "redirect_one arr c m w = iob (redirect_allowed c fd m) (\<lambda>rc. ret (Inr rc)) ?w2"
      if "resolver w h [] = Inr (ai # ais)"
    proof -
      have "parseReq arr (request_cells req) ?w1 = (Inr fd, ?w2)"
        using h b False assms(10,12) that by (simp add: parseReq_def sys_socket_def sys_connect_def sys_answer_def iob_def)
      then show ?thesis using rd assms(12) by (simp add: redirect_one_def)
    qed
    moreover have "healthy ?w2 fd" using hl(1) by (simp add: healthy_def)
    ultimately show ?thesis
      using False redirect_allowed_run [of ?w2 c fd m] assms(9,11,14) hl(2) by (auto simp: data_def)
  qed
qed

theorem redirect_one_response_witness:
  "\<exists>w' m' ps. redirect_one [cs ''www''] 3 mem0
     (world0\<lparr>inputs := (\<lambda>d. if d = 3 then [Chunk (header_of [] (cs ''www.a.com'') 13 [10])] else [Chunk [65], Eof]),
        answers := [4, 0], resolver := (\<lambda>_ _. Inr [7])\<rparr>) = (Inr (Inl m'), w') \<and> concat ps = page_request
     \<and> trace w' = [Sent 3 [], Opened 4, Connected 4 7 0] @ map (Sent 4) ps @ [Sent 3 moved, Sent 3 [65], Closed 3]"
proof -
  have "prefix (cs ''www'') (cs ''www.a.com'')" "\<not> prefix (cs ''www'') page_host"
    by (simp_all add: cs_def page_host_def)
  then show ?thesis
    using redirect_one_response [of "[]" "cs ''www.a.com''" 13 "[cs ''www'']" "header_of [] (cs ''www.a.com'') 13 [10]" "[10]"
      "world0\<lparr>inputs := (\<lambda>d. if d = 3 then [Chunk (header_of [] (cs ''www.a.com'') 13 [10])] else [Chunk [65], Eof]),
        answers := [4, 0], resolver := (\<lambda>_ _. Inr [7])\<rparr>" 3 "[]" 4 0 "[]" mem0 7 "[]"]
    by (simp add: host_word_def header_of_def c_strstr_None [symmetric] cstr_ok_def c_isspace_def cs_def healthy_def
        no_errors_def clean_input_def RESPONSE_MAX_def world0_def)
qed

text \<open>The loader appends the stripped lines as long as the array has room.\<close>

lemma load_array_lines:
  assumes "map strip_line ls = map Inr ks" "mem_ok m" "length arr \<le> MAX_BLOCKED"
  shows "if length arr + length ks \<le> MAX_BLOCKED then \<exists>m'. load_array ls arr m = Inr (arr @ ks, m')
    else load_array ls arr m = Inl OutOfBounds"
  using assms
proof (induction ls arbitrary: ks arr m)
  case (Cons l ls)
  obtain k ks' where k: "ks = k # ks'" "strip_line l = Inr k" "map strip_line ls = map Inr ks'"
    using Cons.prems(1) by (cases ks) auto
  obtain m1 where a: "alloc m = (True, m1)" "mem_ok m1" using alloc_ok [OF Cons.prems(2)] by blast
  show ?case
  proof (cases "length arr < MAX_BLOCKED")
    case True
    then show ?thesis using Cons.IH [OF k(3) a(2), of "arr @ [k]"] a k by (auto split: if_splits)
  next
    case False
    then show ?thesis using a k Cons.prems(3) by simp
  qed
qed simp

lemma load_block_arr_file:
  assumes "\<forall>l \<in> set ls. plain l" "plain rest" "mem_ok m"
  shows "if length (names_of ls rest) \<le> MAX_BLOCKED
    then \<exists>m'. load_block_arr (Some (file_of ls rest)) m = Inr (names_of ls rest, m')
    else load_block_arr (Some (file_of ls rest)) m = Inl OutOfBounds"
  using load_array_lines [OF strip_file [OF assms(1,2)] assms(3), of "[]"]
  by (auto simp: load_block_arr_def split: if_splits)

text \<open>The array as a block list: it covers every name that begins with one of its entries.\<close>

definition array_holds :: "cstr list \<Rightarrow> cstr set \<Rightarrow> bool" where
  "array_holds arr N \<longleftrightarrow> set arr = N \<and> (\<forall>b \<in> N. cstr_ok b)"

interpretation array_list: block_list "\<lambda>n. n < MAX_BLOCKED" load_block_arr array_holds
  "\<lambda>arr h. Inr (host_blocked arr h)" "\<lambda>N h. \<exists>b \<in> N. prefix b h"
proof
  show "\<exists>s m'. load_block_arr (Some (file_of ls rest)) m = Inr (s, m') \<and> array_holds s (set (names_of ls rest))"
    if "\<forall>l \<in> set ls. plain l" "plain rest" "length ls < MAX_BLOCKED" "mem_ok m" for ls rest m
    using load_block_arr_file [OF that(1,2,4)] names_of_ok [OF that(1,2)] that(3)
    by (auto simp: array_holds_def)
qed (auto simp: array_holds_def host_blocked_iff)

text \<open>
  The block list array takes the lines of a file of at most 100 lines; the 101st line is
  stored outside the array.
\<close>

lemma block_arr_capacity:
  assumes "\<forall>l \<in> set ls. plain l" "mem_ok m"
  shows "if length ls \<le> 100 then \<exists>m'. load_block_arr (Some (file_of ls [])) m = Inr (ls, m')
    else load_block_arr (Some (file_of ls [])) m = Inl OutOfBounds"
  using load_block_arr_file [OF assms(1) _ assms(2), of "[]"]
  by (auto simp: plain_def names_of_def MAX_BLOCKED_def split: if_splits)

lemma block_arr_capacity_witness:
  "load_block_arr (Some (file_of (replicate 101 google) [])) mem0 = Inl OutOfBounds"
proof -
  have "plain google" by (simp add: plain_def google_def cs_def)
  then show ?thesis using block_arr_capacity [of "replicate 101 google" mem0] by simp
qed

end
