(* ===== verification/DemoServer.thy ===== *)
theory DemoServer
  imports Utils Blocklist
begin

text \<open>
  \<open>multiproc_serv.c\<close>, \<open>multiproc_client.c\<close> and \<open>client.c\<close>: the threaded demo server
  that fetches a page for its client, and the two clients.  Output to the terminal is left out,
  what the clients print is their result.
\<close>

section \<open>Definitions shared by server and client\<close>

definition MAXDATASIZE :: nat where "MAXDATASIZE = 100"

text \<open>
  The loop over the addresses of a name: the first one a socket can be connected to.  A socket
  that could not be connected is closed.
\<close>

fun connect_first :: "addr list \<Rightarrow> int option io" where
  "connect_first [] = ret None"
| "connect_first (ai # ais) = iob sys_socket (\<lambda>fd.
     if fd = - 1 then connect_first ais
     else iob (sys_connect fd ai) (\<lambda>c.
       if c = - 1 then iob (emit (Closed fd)) (\<lambda>_. connect_first ais) else ret (Some fd)))"

text \<open>\<open>recv\<close> of up to \<open>MAXDATASIZE - 1\<close> bytes, closed with a NUL; an error ends the process.\<close>

definition recv_text :: "int \<Rightarrow> cstr io" where
  "recv_text fd = iob (sys_read fd (MAXDATASIZE - 1)) (\<lambda>r. case r of
     Failed e \<Rightarrow> halt (Exited 1) | Got bs \<Rightarrow> ret (buf_str bs))"

section \<open>The server\<close>

text \<open>The lines of the block list; \<open>strcmp\<close> compares whole strings.\<close>

fun line_listed :: "byte list list \<Rightarrow> cstr \<Rightarrow> bool res" where
  "line_listed [] buf = Inr False"
| "line_listed (l # ls) buf = rbind (strip_line l) (\<lambda>k.
     if buf = k then Inr True else line_listed ls buf)"

definition get_request :: "cstr \<Rightarrow> cstr" where
  "get_request buf = cs ''GET '' @ buf @ cs '' HTTP/1.0'' @ crlf @ cs ''Connection: close'' @ crlf
     @ cs ''Accept: */*'' @ crlf @ crlf"

text \<open>
  \<open>fopen\<close> of the block list: \<open>file\<close> is the content of the file, \<open>None\<close> when there is none;
  the call also fails when no descriptor is left.  Nothing closes the stream.
\<close>

definition open_list :: "byte list option \<Rightarrow> byte list option io" where
  "open_list file = (case file of None \<Rightarrow> ret None
     | Some content \<Rightarrow> iob (sys_answer (\<lambda>r. if r = - 1 then [] else [Opened r]))
         (\<lambda>r. ret (if r = - 1 then None else Some content)))"

text \<open>
  \<open>connection_thread\<close>.  The result of \<open>getaddrinfo\<close> is not looked at; when it fails the
  address list is uninitialised.
\<close>

definition fetch_page :: "int \<Rightarrow> cstr \<Rightarrow> unit io" where
  "fetch_page new_fd buf = iob (sys_resolve buf (cs ''443'')) (\<lambda>res. case res of
       Inl e \<Rightarrow> halt UninitRead
     | Inr ais \<Rightarrow> iob (connect_first ais) (\<lambda>p2. case p2 of
           None \<Rightarrow> ret ()
         | Some sockfd2 \<Rightarrow> iob (emit (FreedAddr ais)) (\<lambda>_.
             iob (sys_write sockfd2 (get_request buf)) (\<lambda>_.
             iob (recv_text sockfd2) (\<lambda>buf2.
             iob (sys_write new_fd buf2) (\<lambda>_. emit (Closed new_fd)))))))"

definition connection_thread :: "byte list option \<Rightarrow> int \<Rightarrow> unit io" where
  "connection_thread file new_fd = iob (sys_write new_fd (cs ''Hello, world!'')) (\<lambda>_.
     iob (recv_text new_fd) (\<lambda>buf. iob (open_list file) (\<lambda>block_file.
     iob (lift (case block_file of None \<Rightarrow> Inr False
         | Some content \<Rightarrow> line_listed (getlines [] content) buf)) (\<lambda>blocked.
       if blocked then iob (sys_write new_fd (take 13 (cs ''Website blocked'' @ [10]))) (\<lambda>_. ret ())
       else fetch_page new_fd buf))))"

definition MAX_THREADS :: nat where "MAX_THREADS = 20"

text \<open>The accept loop: it ends after \<open>MAX_THREADS\<close> threads or a failed \<open>accept\<close>.\<close>

function serve_threads :: "nat \<Rightarrow> mem \<Rightarrow> int io" where
  "serve_threads thread_num m w = (if thread_num < MAX_THREADS then
     iob sys_accept (\<lambda>new_fd w1. if new_fd = - 1 then ret 0 w1
       else (case alloc m of (False, m1) \<Rightarrow> halt NullDeref w1
         | (True, m1) \<Rightarrow> iob (emit (Spawned ''connection_thread'' [new_fd]))
             (\<lambda>_ w2. serve_threads (thread_num + 1) m1 w2) w1)) w
     else ret 0 w)"
  by pat_completeness auto
termination
  by (relation "measure (\<lambda>(n, m, w). MAX_THREADS - n)") auto

declare serve_threads.simps [simp del]

text \<open>The signal handler: collect children until \<open>waitpid\<close> has none to report; \<open>errno\<close> is restored.\<close>

function sigchld_handler :: "unit io" where
  "sigchld_handler w = iob sys_status (\<lambda>r w1. if 0 < r then sigchld_handler w1 else ret () w1) w"
  by pat_completeness auto
termination
  by (relation "measure (\<lambda>w. length (answers w))")
    (auto simp: sys_status_def sys_answer_def split: list.splits)

declare sigchld_handler.simps [simp del]

text \<open>The loop over the local addresses: the first one a socket can be bound to.\<close>

fun bind_first :: "addr list \<Rightarrow> int option io" where
  "bind_first [] = ret None"
| "bind_first (ai # ais) = iob sys_socket (\<lambda>fd.
     if fd = - 1 then bind_first ais
     else iob sys_status (\<lambda>o_rc. if o_rc = - 1 then halt (Exited 1)
       else iob sys_status (\<lambda>b. if b = - 1 then iob (emit (Closed fd)) (\<lambda>_. bind_first ais)
         else ret (Some fd))))"

definition multiproc_main :: "mem \<Rightarrow> int io" where
  "multiproc_main m = iob (sys_resolve [] (cs ''3490'')) (\<lambda>res. case res of
       Inl rv \<Rightarrow> ret 1
     | Inr servinfo \<Rightarrow> iob (bind_first servinfo) (\<lambda>p. iob (emit (FreedAddr servinfo)) (\<lambda>_. case p of
           None \<Rightarrow> halt (Exited 1)
         | Some sockfd \<Rightarrow> iob sys_status (\<lambda>l. if l = - 1 then halt (Exited 1)
             else iob sys_status (\<lambda>a. if a = - 1 then halt (Exited 1) else serve_threads 0 m)))))"

section \<open>The clients\<close>

text \<open>\<open>main\<close> of \<open>multiproc_client.c\<close>: its return code and the two messages it prints.\<close>

definition multiproc_client :: "cstr list \<Rightarrow> (int \<times> cstr list) io" where
  "multiproc_client argv = (case argv of
       [prog, host, msg] \<Rightarrow> iob (sys_resolve host (cs ''3490'')) (\<lambda>res. case res of
           Inl rv \<Rightarrow> ret (1, [])
         | Inr servinfo \<Rightarrow> iob (connect_first servinfo) (\<lambda>p. case p of
               None \<Rightarrow> ret (2, [])
             | Some sockfd \<Rightarrow> iob (emit (FreedAddr servinfo)) (\<lambda>_.
                 iob (sys_write sockfd msg) (\<lambda>_. iob (recv_text sockfd) (\<lambda>a.
                 iob (recv_text sockfd) (\<lambda>b. iob (emit (Closed sockfd)) (\<lambda>_. ret (0, [a, b]))))))))
     | _ \<Rightarrow> halt (Exited 1))"

text \<open>
  \<open>main\<close> of \<open>client.c\<close>.  The result of \<open>getaddrinfo\<close> is not looked at, and \<open>puts\<close>
  needs a NUL among the bytes received, since the buffer is not initialised.
\<close>

definition client_main :: "cstr \<Rightarrow> cstr io" where
  "client_main res = iob (sys_resolve (cs ''127.0.0.1'') (cs ''1358'')) (\<lambda>result.
     iob sys_socket (\<lambda>sock_fd. case result of
         Inl e \<Rightarrow> halt UninitRead
       | Inr [] \<Rightarrow> halt NullDeref
       | Inr (ai # ais) \<Rightarrow> iob (sys_connect sock_fd ai) (\<lambda>c. if c \<noteq> 0 then halt (Exited 1)
           else iob (sys_write sock_fd res) (\<lambda>_. iob (sys_read sock_fd (1024 * 1024 - 1)) (\<lambda>r.
             case r of Failed e \<Rightarrow> halt UninitRead
             | Got bs \<Rightarrow> if 0 \<in> set bs then iob (emit (Closed sock_fd)) (\<lambda>_. ret (buf_str bs))
                 else halt UninitRead)))))"

section \<open>Lemmas\<close>

text \<open>Nothing is sent, and every socket but the one that is returned is closed again.\<close>

lemma connect_first_fds:
  assumes "connect_first ais w = (Inr p, w')"
  shows "\<exists>es. trace w' = trace w @ es
    \<and> opened_fds es = closed_fds es @ (case p of None \<Rightarrow> [] | Some fd \<Rightarrow> [fd])
    \<and> (\<forall>d bs. Sent d bs \<notin> set es)"
  using assms
proof (induction ais arbitrary: w)
  case Nil
  then have "trace w' = trace w @ []" "p = None" by simp_all
  then show ?case by (intro exI [of _ "[]"]) simp
next
  case (Cons ai ais)
  obtain fd w1 where 1: "sys_socket w = (Inr fd, w1)"
    using Cons.prems by (auto simp: iob_def split: prod.splits sum.splits)
  have t1: "trace w1 = trace w @ (if fd = - 1 then [] else [Opened fd])"
    using 1 by (auto simp: sys_socket_def sys_answer_def split: list.splits)
  show ?case
  proof (cases "fd = - 1")
    case True
    then have "connect_first ais w1 = (Inr p, w')" "trace w1 = trace w" using Cons.prems 1 t1 by simp_all
    then show ?thesis using Cons.IH [of w1] by simp
  next
    case False
    obtain c w2 where 2: "sys_connect fd ai w1 = (Inr c, w2)"
      using Cons.prems 1 False by (auto simp: iob_def split: prod.splits sum.splits)
    have t2: "trace w2 = trace w @ [Opened fd, Connected fd ai c]"
      using 2 t1 False by (auto simp: sys_connect_def sys_answer_def split: list.splits)
    show ?thesis
    proof (cases "c = - 1")
      case True
      let ?w3 = "w2\<lparr>trace := trace w2 @ [Closed fd]\<rparr>"
      have "connect_first ais ?w3 = (Inr p, w')" using Cons.prems 1 2 False True by simp
      then obtain es where es: "trace w' = trace ?w3 @ es"
        "opened_fds es = closed_fds es @ (case p of None \<Rightarrow> [] | Some fd \<Rightarrow> [fd])" "\<forall>d bs. Sent d bs \<notin> set es"
        using Cons.IH [of ?w3] by blast
      then show ?thesis using t2
        by (intro exI [of _ "[Opened fd, Connected fd ai c, Closed fd] @ es"]) simp
    next
      case nc: False
      then have "p = Some fd" "w' = w2" using Cons.prems 1 2 False by simp_all
      then show ?thesis using t2 by (intro exI [of _ "[Opened fd, Connected fd ai c]"]) simp
    qed
  qed
qed

lemma recv_text_trace: "recv_text fd w = (Inr t, w') \<Longrightarrow> trace w' = trace w"
  by (auto simp: recv_text_def iob_def sys_read_def split: option.splits prod.splits sum.splits rres.splits)

lemma line_listed_lines:
  "map strip_line ls = map Inr ks \<Longrightarrow> line_listed ls buf = Inr (buf \<in> set ks)"
proof (induction ls arbitrary: ks)
  case (Cons l ls)
  then show ?case by (cases ks) auto
qed simp

lemma line_listed_file:
  assumes "\<forall>l \<in> set ls. plain l" "plain rest"
  shows "line_listed (getlines [] (file_of ls rest)) buf = Inr (buf \<in> set (names_of ls rest))"
  by (rule line_listed_lines [OF strip_file [OF assms]])

text \<open>The scan of the file as a block list: loading keeps the lines, a missing file has none.\<close>

definition scan_load :: "byte list option \<Rightarrow> mem \<Rightarrow> (byte list list \<times> mem) res" where
  "scan_load file m = Inr (case file of None \<Rightarrow> [] | Some content \<Rightarrow> getlines [] content, m)"

definition scan_holds :: "byte list list \<Rightarrow> cstr set \<Rightarrow> bool" where
  "scan_holds ls N \<longleftrightarrow> (\<exists>ks. map strip_line ls = map Inr ks \<and> set ks = N)"

interpretation scan_list: exact_block_list "\<lambda>n. True" scan_load scan_holds line_listed "\<lambda>N h. h \<in> N"
proof
  show "\<exists>s m'. scan_load (Some (file_of ls rest)) m = Inr (s, m') \<and> scan_holds s (set (names_of ls rest))"
    if "\<forall>l \<in> set ls. plain l" "plain rest" for ls rest m
    using strip_file [OF that] by (auto simp: scan_load_def scan_holds_def)
qed (auto simp: scan_holds_def line_listed_lines)

section \<open>Properties\<close>

text \<open>
  C39.  The demo server starts one thread per connection and stops after the twentieth: with
  twenty or more connections waiting, \<open>main\<close> returns 0, which ends the process and with it
  every thread, and the others are never accepted.
\<close>

theorem server_stops_after_twenty:
  assumes "answers w = fds @ rest" "\<forall>fd \<in> set fds. fd \<noteq> - 1" "length fds = 20" "mem_ok m"
  shows "\<exists>w'. serve_threads 0 m w = (Inr 0, w') \<and> answers w' = rest
     \<and> trace w' = trace w @ concat (map (\<lambda>fd. [Accepted fd, Spawned ''connection_thread'' [fd]]) fds)"
proof -
  have "\<exists>w'. serve_threads (20 - length fds) m w = (Inr 0, w') \<and> answers w' = rest
      \<and> trace w' = trace w @ concat (map (\<lambda>fd. [Accepted fd, Spawned ''connection_thread'' [fd]]) fds)"
    if "length fds \<le> 20" using assms(1,2,4) that
  proof (induction fds arbitrary: w m)
    case Nil
    then show ?case by (simp add: serve_threads.simps [of 20] MAX_THREADS_def)
  next
    case (Cons fd fds)
    obtain m1 where a: "alloc m = (True, m1)" "mem_ok m1" using alloc_ok [OF Cons.prems(3)] by blast
    let ?w = "w\<lparr>answers := fds @ rest,
      trace := (trace w @ [Accepted fd]) @ [Spawned ''connection_thread'' [fd]]\<rparr>"
    have n: "20 - length (fd # fds) < MAX_THREADS" "20 - length (fd # fds) + 1 = 20 - length fds"
      using Cons.prems(4) by (simp_all add: MAX_THREADS_def)
    have "serve_threads (20 - length (fd # fds)) m w = serve_threads (20 - length fds) m1 ?w"
      unfolding serve_threads.simps [of "20 - length (fd # fds)"] if_P [OF n(1)] n(2)
      using Cons.prems(1,2) a(1) by (simp add: sys_accept_def sys_answer_def iob_def)
    then show ?case using Cons.IH [of ?w m1] Cons.prems a(2) by simp
  qed
  then show ?thesis using assms(3) by simp
qed

theorem server_stops_after_twenty_witness:
  "\<exists>w'. serve_threads 0 mem0 (world0\<lparr>answers := replicate 21 5\<rparr>) = (Inr 0, w') \<and> answers w' = [5]"
  using server_stops_after_twenty [of "world0\<lparr>answers := replicate 21 5\<rparr>" "replicate 20 5" "[5]" mem0]
  by (auto simp: replicate_append_same numeral_eq_Suc)

text \<open>
  A request for a listed host (the whole line, as the client sent it) is answered with the
  first 13 bytes of the message only; no connection is made, and the descriptors of the client and
  of the block list stay open.
\<close>

lemma demo_blocked_request:
  assumes "inputs w fd = Chunk r # is" "length r \<le> 99" "buf_str r \<in> set ls"
    and "\<forall>l \<in> set ls. plain l" "outs w fd = []" "answers w = f # rest" "f \<noteq> - 1"
  shows "\<exists>w'. connection_thread (Some (file_of ls [])) fd w = (Inr (), w')
     \<and> trace w' = trace w @ [Sent fd (cs ''Hello, world!''), Opened f, Sent fd (cs ''Website block'')]"
proof -
  have "take 13 (cs ''Website blocked'' @ [10]) = cs ''Website block''" by (simp add: cs_def)
  then show ?thesis
    using assms line_listed_file [OF assms(4), of "[]" "buf_str r"]
    by (simp add: plain_def names_of_def connection_thread_def open_list_def sys_answer_def recv_text_def sys_write_def sys_read_def iob_def MAXDATASIZE_def)
qed

text \<open>
  The client that tries the addresses of its server one after the other leaks no socket:
  when it ends normally every socket it opened is closed, in the order they were opened.
\<close>

lemma demo_client_closes_sockets:
  assumes "multiproc_client argv w = (Inr (rc, texts), w')"
  shows "\<exists>es. trace w' = trace w @ es \<and> opened_fds es = closed_fds es"
proof -
  obtain prog host msg where argv: "argv = [prog, host, msg]"
    using assms by (auto simp: multiproc_client_def split: list.splits)
  show ?thesis
  proof (cases "resolver w host (cs ''3490'')")
    case (Inl rv)
    then show ?thesis using assms by (intro exI [of _ "[]"]) (simp add: multiproc_client_def argv)
  next
    case (Inr ais)
    obtain p w1 where 1: "connect_first ais w = (Inr p, w1)"
      using assms Inr by (auto simp: multiproc_client_def argv iob_def split: prod.splits sum.splits)
    obtain es where es: "trace w1 = trace w @ es"
      "opened_fds es = closed_fds es @ (case p of None \<Rightarrow> [] | Some fd \<Rightarrow> [fd])"
      using connect_first_fds [OF 1] by blast
    show ?thesis
    proof (cases p)
      case None
      then show ?thesis using assms Inr 1 es by (auto simp: multiproc_client_def argv)
    next
      case (Some fd)
      let ?w2 = "w1\<lparr>trace := trace w1 @ [FreedAddr ais]\<rparr>"
      obtain r w3 bytes where 3: "sys_write fd msg ?w2 = (Inr r, w3)" "wrote fd bytes ?w2 w3"
        by (rule sys_write_some)
      obtain a w4 where 4: "recv_text fd w3 = (Inr a, w4)"
        using assms Inr 1 Some 3 by (auto simp: multiproc_client_def argv iob_def split: prod.splits sum.splits)
      obtain b w5 where 5: "recv_text fd w4 = (Inr b, w5)"
        using assms Inr 1 Some 3 4 by (auto simp: multiproc_client_def argv iob_def split: prod.splits sum.splits)
      obtain ps where "trace w3 = trace w1 @ [FreedAddr ais] @ map (Sent fd) ps"
        using 3(2) by (auto simp: wrote_def)
      then have "trace w' = trace w1 @ [FreedAddr ais] @ map (Sent fd) ps @ [Closed fd]"
        using assms Inr 1 Some 3(1) 4 5 recv_text_trace [OF 4] recv_text_trace [OF 5]
        by (auto simp: multiproc_client_def argv)
      then show ?thesis using es Some
        by (intro exI [of _ "es @ [FreedAddr ais] @ map (Sent fd) ps @ [Closed fd]"]) simp
    qed
  qed
qed

lemma demo_client_run:
  "\<exists>w'. multiproc_client [[], [], [65]] (world0\<lparr>resolver := (\<lambda>_ _. Inr [1, 2]), answers := [3, - 1, 4, 0],
     inputs := (\<lambda>_. [Chunk [66], Chunk [67]])\<rparr>) = (Inr (0, [[66], [67]]), w')"
  by (simp add: multiproc_client_def sys_socket_def sys_connect_def sys_answer_def iob_def recv_text_def
      sys_write_def sys_read_def world0_def MAXDATASIZE_def buf_str_def)

lemma demo_client_closes_sockets_witness:
  "\<exists>w'. multiproc_client [[], [], [65]] (world0\<lparr>resolver := (\<lambda>_ _. Inr [1, 2]), answers := [3, - 1, 4, 0],
     inputs := (\<lambda>_. [Chunk [66], Chunk [67]])\<rparr>) = (Inr (0, [[66], [67]]), w')
     \<and> opened_fds (trace w') = closed_fds (trace w')"
proof -
  obtain w' where r: "multiproc_client [[], [], [65]] (world0\<lparr>resolver := (\<lambda>_ _. Inr [1, 2]), answers := [3, - 1, 4, 0],
     inputs := (\<lambda>_. [Chunk [66], Chunk [67]])\<rparr>) = (Inr (0, [[66], [67]]), w')"
    using demo_client_run by blast
  have "opened_fds (trace w') = closed_fds (trace w')"
    using demo_client_closes_sockets [OF r] by (auto simp: world0_def)
  with r show ?thesis by blast
qed

text \<open>What a write adds to the trace.\<close>

lemma sys_write_trace:
  obtains r w' ps where "sys_write fd bs w = (Inr r, w')" "trace w' = trace w @ map (Sent fd) ps"
proof -
  obtain r w' bytes where "sys_write fd bs w = (Inr r, w')" "wrote fd bytes w w'" by (rule sys_write_some)
  then show thesis using that by (auto simp: wrote_def)
qed

text \<open>Writing and receiving leave the other answers of the system alone.\<close>

lemma sys_write_answers: "sys_write fd bs w = (r, w') \<Longrightarrow> answers w' = answers w"
  by (auto simp: sys_write_def split: list.splits outp.splits if_splits)

lemma recv_text_answers: "recv_text fd w = (Inr t, w') \<Longrightarrow> answers w' = answers w"
  by (auto simp: recv_text_def iob_def sys_read_def split: option.splits prod.splits sum.splits rres.splits)

lemma fetch_page_fds:
  assumes "fetch_page new_fd buf w = (Inr (), w')"
  shows "\<exists>es. trace w' = trace w @ es \<and> (opened_fds es = closed_fds es \<and> (\<forall>d bs. Sent d bs \<in> set es \<longrightarrow> d = new_fd)
     \<or> (\<exists>failed d. opened_fds es = failed @ [d] \<and> closed_fds es = failed @ [new_fd]))"
proof -
  obtain ais where ais: "resolver w buf (cs ''443'') = Inr ais"
    using assms by (cases "resolver w buf (cs ''443'')") (simp_all add: fetch_page_def)
  obtain p w1 where 1: "connect_first ais w = (Inr p, w1)"
    using assms ais by (auto simp: fetch_page_def iob_def split: prod.splits sum.splits)
  obtain es where es: "trace w1 = trace w @ es"
    "opened_fds es = closed_fds es @ (case p of None \<Rightarrow> [] | Some d \<Rightarrow> [d])" "\<forall>d bs. Sent d bs \<notin> set es"
    using connect_first_fds [OF 1] by blast
  show ?thesis
  proof (cases p)
    case None
    then show ?thesis using assms ais 1 es by (auto simp: fetch_page_def)
  next
    case (Some d)
    let ?w2 = "w1\<lparr>trace := trace w1 @ [FreedAddr ais]\<rparr>"
    obtain r w3 ps where 3: "sys_write d (get_request buf) ?w2 = (Inr r, w3)" "trace w3 = trace ?w2 @ map (Sent d) ps"
      by (rule sys_write_trace)
    obtain a w4 where 4: "recv_text d w3 = (Inr a, w4)"
      using assms ais 1 Some 3(1) by (auto simp: fetch_page_def iob_def split: prod.splits sum.splits)
    obtain r' w5 qs where 5: "sys_write new_fd a w4 = (Inr r', w5)" "trace w5 = trace w4 @ map (Sent new_fd) qs"
      by (rule sys_write_trace)
    have "trace w' = trace w1 @ [FreedAddr ais] @ map (Sent d) ps @ map (Sent new_fd) qs @ [Closed new_fd]"
      using assms ais 1 Some 3 4 5 recv_text_trace [OF 4] by (auto simp: fetch_page_def)
    then show ?thesis using es Some
      by (intro exI [of _ "es @ [FreedAddr ais] @ map (Sent d) ps @ map (Sent new_fd) qs @ [Closed new_fd]"]) simp
  qed
qed

text \<open>The descriptor of the block list, when the thread gets one, is the first it is given.\<close>

definition list_fds :: "byte list option \<Rightarrow> world \<Rightarrow> int list" where
  "list_fds file w = (if file = None \<or> hd (answers w) = - 1 then [] else [hd (answers w)])"

lemma open_list_fds:
  assumes "open_list file w = (Inr block_file, w')"
  shows "\<exists>es. trace w' = trace w @ es \<and> opened_fds es = list_fds file w \<and> closed_fds es = [] \<and> (\<forall>d bs. Sent d bs \<notin> set es)"
proof (cases "file")
  case None
  then show ?thesis using assms by (intro exI [of _ "[]"]) (simp add: open_list_def list_fds_def)
next
  case (Some content)
  obtain r rs where a: "answers w = r # rs"
    using assms Some by (cases "answers w") (simp_all add: open_list_def sys_answer_def)
  then show ?thesis using assms Some
    by (intro exI [of _ "if r = - 1 then [] else [Opened r]"]) (auto simp: open_list_def sys_answer_def list_fds_def)
qed

text \<open>
  C40.  Each client of the demo server costs it a descriptor, and with a block list file a second
  one.  When the thread of a connection ends, the descriptor of the block list, when it got one, was
  never closed; and either it sent to its client only and never closed it, the request being refused
  or the host out of reach, or it served the client and closed it, and then the socket to the host
  is left open.  The sockets that could not be connected are the only others it opened, and they
  are closed.
\<close>

theorem demo_thread_leaks:
  assumes "connection_thread file new_fd w = (Inr (), w')"
  shows "\<exists>es. trace w' = trace w @ es
     \<and> (opened_fds es = list_fds file w @ closed_fds es \<and> (\<forall>d bs. Sent d bs \<in> set es \<longrightarrow> d = new_fd)
        \<or> (\<exists>failed d. opened_fds es = list_fds file w @ failed @ [d] \<and> closed_fds es = failed @ [new_fd]))"
proof -
  obtain r w1 ps where 1: "sys_write new_fd (cs ''Hello, world!'') w = (Inr r, w1)"
    "trace w1 = trace w @ map (Sent new_fd) ps" by (rule sys_write_trace)
  obtain buf w2 where 2: "recv_text new_fd w1 = (Inr buf, w2)"
    using assms 1(1) by (auto simp: connection_thread_def iob_def split: prod.splits sum.splits)
  obtain block_file w3 where o: "open_list file w2 = (Inr block_file, w3)"
    using assms 1(1) 2 by (auto simp: connection_thread_def iob_def split: prod.splits sum.splits)
  define listed where "listed = (case block_file of None \<Rightarrow> Inr False | Some content \<Rightarrow> line_listed (getlines [] content) buf)"
  obtain blocked where 3: "listed = Inr blocked"
    using assms 1(1) 2 o by (cases listed) (simp_all add: connection_thread_def listed_def)
  have "answers w2 = answers w" using sys_write_answers [OF 1(1)] recv_text_answers [OF 2] by simp
  then have lf: "list_fds file w2 = list_fds file w" by (simp add: list_fds_def)
  obtain fs where t3: "trace w3 = trace w @ map (Sent new_fd) ps @ fs" "opened_fds fs = list_fds file w"
    "closed_fds fs = []" "\<forall>d bs. Sent d bs \<notin> set fs"
    using open_list_fds [OF o] recv_text_trace [OF 2] 1(2) lf by auto
  show ?thesis
  proof (cases blocked)
    case True
    let ?msg = "take 13 (cs ''Website blocked'' @ [10])"
    obtain r' w4 qs where 4: "sys_write new_fd ?msg w3 = (Inr r', w4)" "trace w4 = trace w3 @ map (Sent new_fd) qs"
      by (rule sys_write_trace)
    have "w' = w4" using assms 1(1) 2 o 3 4(1) True by (simp add: connection_thread_def listed_def del: take_append)
    then show ?thesis using 4(2) t3
      by (intro exI [of _ "map (Sent new_fd) ps @ fs @ map (Sent new_fd) qs"]) auto
  next
    case False
    then have "fetch_page new_fd buf w3 = (Inr (), w')"
      using assms 1(1) 2 o 3 by (simp add: connection_thread_def listed_def)
    then obtain es where es: "trace w' = trace w3 @ es" "opened_fds es = closed_fds es \<and> (\<forall>d bs. Sent d bs \<in> set es \<longrightarrow> d = new_fd)
       \<or> (\<exists>failed d. opened_fds es = failed @ [d] \<and> closed_fds es = failed @ [new_fd])"
      using fetch_page_fds by blast
    then show ?thesis using t3 by (intro exI [of _ "map (Sent new_fd) ps @ fs @ es"]) auto
  qed
qed

text \<open>
  A client is served: \<open>b\<close> is in the block list, \<open>a\<close> is asked for; the host's first address cannot
  be reached, the second one answers.
\<close>

definition demo_world :: world where
  "demo_world = world0\<lparr>resolver := (\<lambda>_ _. Inr [1, 2]), answers := [6, 8, - 1, 9, 0],
     inputs := (\<lambda>fd. [Chunk [97]])\<rparr>"

lemma demo_thread_run:
  "\<exists>w'. connection_thread (Some [98, 10]) 7 demo_world = (Inr (), w')
     \<and> opened_fds (trace w') = [6, 8, 9] \<and> closed_fds (trace w') = [8, 7]"
  by (simp add: connection_thread_def open_list_def strip_line_def c_strlen_def fetch_page_def demo_world_def
      sys_socket_def sys_connect_def sys_answer_def iob_def recv_text_def sys_write_def sys_read_def world0_def
      MAXDATASIZE_def buf_str_def)

theorem demo_thread_leaks_witness:
  "\<exists>w'. connection_thread (Some [98, 10]) 7 demo_world = (Inr (), w')
     \<and> (\<exists>failed d. opened_fds (trace w') = [6] @ failed @ [d] \<and> closed_fds (trace w') = failed @ [7])"
proof -
  obtain w' where r: "connection_thread (Some [98, 10]) 7 demo_world = (Inr (), w')"
    "opened_fds (trace w') = [6, 8, 9]" "closed_fds (trace w') = [8, 7]"
    using demo_thread_run by blast
  have "trace demo_world = []" "list_fds (Some [98, 10]) demo_world = [6]"
    by (simp_all add: demo_world_def world0_def list_fds_def)
  with demo_thread_leaks [OF r(1)] r show ?thesis by auto
qed

end
