(* ===== verification/Containers.thy ===== *)
theory Containers
  imports Posix CString
begin

text \<open>
  \<open>Containers/container.c\<close> and \<open>Containers/test.c\<close>: the container launcher and an earlier
  experiment.  What they do to the system are the commands they run (\<open>Ran\<close>), the system calls
  that change their name space (\<open>Called\<close>), the processes they clone (\<open>Spawned\<close>) and wait for,
  and the descriptors they close; messages and the flags of the calls are left out.
  The vector of process numbers comes from a binary library: its functions are the argument
  \<open>ops\<close>, and \<open>vector_laws\<close> is what its header says of them.
\<close>

section \<open>The vector library\<close>

record 'v vector_ops =
  vec_create :: 'v
  vec_size :: "'v \<Rightarrow> nat"
  vec_get :: "'v \<Rightarrow> nat \<Rightarrow> int"
  vec_push :: "'v \<Rightarrow> int \<Rightarrow> 'v"

definition vector_laws :: "'v vector_ops \<Rightarrow> bool" where
  "vector_laws ops \<longleftrightarrow> vec_size ops (vec_create ops) = 0
     \<and> (\<forall>v x. vec_size ops (vec_push ops v x) = Suc (vec_size ops v)
          \<and> vec_get ops (vec_push ops v x) (vec_size ops v) = x
          \<and> (\<forall>i < vec_size ops v. vec_get ops (vec_push ops v x) i = vec_get ops v i))"

section \<open>The launcher\<close>

text \<open>Numbers as \<open>printf\<close> writes them.\<close>

fun dec :: "nat \<Rightarrow> cstr" where
  "dec n = (if n < 10 then [48 + of_nat n] else dec (n div 10) @ [48 + of_nat (n mod 10)])"

declare dec.simps [simp del]

definition dec_int :: "int \<Rightarrow> cstr" where
  "dec_int k = (if k < 0 then 45 # dec (nat (- k)) else dec (nat k))"

record 'v launcher =
  containers :: 'v
  containerId :: nat

definition MAX_PROCESS :: nat where "MAX_PROCESS = 10"

text \<open>The wrapper \<open>pivot_root\<close> of both programs; its result is used for messages only.\<close>

definition pivot_root :: "cstr \<Rightarrow> cstr \<Rightarrow> unit io" where
  "pivot_root a b = iob (emit (Called ''mount'' [a, a, cs ''bind''])) (\<lambda>_.
     iob (emit (Called ''mkdir'' [b])) (\<lambda>_. emit (Called ''pivot_root'' [a, b])))"

text \<open>
  The child: its own file systems, then, when the pipe is closed, the network, users and name
  server of the container and the command.
\<close>

definition container_root :: "nat \<Rightarrow> unit io" where
  "container_root ident = iob (pivot_root (cs ''./busybox'' @ dec ident) (cs ''./busybox'' @ dec ident @ cs ''/.old'')) (\<lambda>_.
     iob (emit (Called ''mount'' [cs ''tmpfs'', cs ''/dev'', cs ''tmpfs''])) (\<lambda>_.
     iob (emit (Called ''mount'' [cs ''proc'', cs ''/proc'', cs ''proc''])) (\<lambda>_.
     emit (Called ''umount2'' [cs ''/.old'']))))"

fun run_each :: "cstr list \<Rightarrow> unit io" where
  "run_each [] = ret ()"
| "run_each (c # commands) = iob (emit (Ran c)) (\<lambda>_. run_each commands)"

definition startContainer :: "int \<Rightarrow> int \<Rightarrow> nat \<Rightarrow> cstr \<Rightarrow> int io" where
  "startContainer checkpoint0 checkpoint1 ident toRun = iob (container_root ident) (\<lambda>_.
     iob (emit (Closed checkpoint1)) (\<lambda>_. iob (sys_read checkpoint0 1) (\<lambda>_.
     iob (run_each [cs ''ip link set veth1 up'', cs ''ip link set veth1 up'',
         cs ''ip addr add 169.254.1.2/30 dev veth1'']) (\<lambda>_.
     iob (emit (Called ''chdir'' [cs ''/''])) (\<lambda>_.
     iob (run_each [cs ''adduser -D newuser'', cs ''adduser -D sudouser'',
         cs ''echo '' @ [39] @ cs '' sudouser ALL=(ALL)   ALL'' @ [39] @ cs '' >> /etc/sudoers'',
         cs ''cut -d: -f1 /etc/passwd'',
         cs ''echo '' @ [34] @ cs ''nameserver 8.8.8.8'' @ [34] @ cs '' >> /etc/resolv.conf'',
         toRun, cs ''deluser newuser'', cs ''deluser sudouser'']) (\<lambda>_. ret (- 1)))))))"

text \<open>
  One round of the loop of \<open>main\<close>, from the line \<open>getline\<close> returned, whose last byte is
  overwritten by the terminator.  The event of a successful \<open>clone\<close> holds the number of the
  container, its process and the command the child is given to run.  A failed one returns -1 and
  starts nothing, but the round goes on with this number as the process.
\<close>

definition start_event :: "'v launcher \<Rightarrow> int \<Rightarrow> byte list \<Rightarrow> event" where
  "start_event st pid line =
     Spawned ''startContainer'' (int (containerId st) # pid # map uint (buf_str (butlast line)))"

definition launch :: "'v vector_ops \<Rightarrow> int \<Rightarrow> byte list \<Rightarrow> 'v launcher \<Rightarrow> 'v launcher io" where
  "launch ops checkpoint1 line st =
     (if vec_size ops (containers st) = MAX_PROCESS then ret st
      else iob (emit (Ran (cs ''cp -R busybox busybox'' @ dec (containerId st)))) (\<lambda>_.
        iob (sys_answer (\<lambda>pid. if pid = - 1 then [] else [start_event st pid line])) (\<lambda>child_pid.
        iob (emit (Ran (cs ''ip link add veth0 type veth peer name veth1''))) (\<lambda>_.
        iob (emit (Ran (cs ''ip link set veth1 netns '' @ dec_int child_pid))) (\<lambda>_.
        iob (emit (Ran (cs ''ip link set veth0 up''))) (\<lambda>_.
        iob (emit (Ran (cs ''ip addr add 169.254.1.1/30 dev veth0''))) (\<lambda>_.
        iob (emit (Closed checkpoint1)) (\<lambda>_.
          ret \<lparr>containers = vec_push ops (containers st) child_pid,
               containerId = containerId st + 1\<rparr>))))))))"

fun launch_all :: "'v vector_ops \<Rightarrow> int \<Rightarrow> byte list list \<Rightarrow> 'v launcher \<Rightarrow> 'v launcher io" where
  "launch_all ops cp1 [] st = ret st"
| "launch_all ops cp1 (l # ls) st = iob (launch ops cp1 l st) (launch_all ops cp1 ls)"

definition initial_launcher :: "'v vector_ops \<Rightarrow> 'v launcher" where
  "initial_launcher ops = \<lparr>containers = vec_create ops, containerId = 0\<rparr>"

text \<open>
  \<open>main\<close> for the lines of its input.  At the end of the input \<open>getline\<close> returns -1, and the
  terminator is stored at an index of \<open>size_t\<close> wrapped below zero.
\<close>

definition container_main :: "'v vector_ops \<Rightarrow> int \<Rightarrow> byte list list \<Rightarrow> unit io" where
  "container_main ops checkpoint1 lines = iob (emit (Ran (cs ''mount --make-rprivate  /''))) (\<lambda>_.
     iob (launch_all ops checkpoint1 lines (initial_launcher ops)) (\<lambda>st. halt OutOfBounds))"

text \<open>\<open>handleSigint\<close>: wait for every process, then remove its directory.\<close>

fun reap :: "'v vector_ops \<Rightarrow> 'v \<Rightarrow> nat \<Rightarrow> nat \<Rightarrow> unit io" where
  "reap ops v i 0 = ret ()"
| "reap ops v i (Suc k) = iob (sys_answer (\<lambda>r. [Waited (vec_get ops v i)])) (\<lambda>_.
     iob (emit (Ran (cs ''rm -r busybox'' @ dec i))) (\<lambda>_. reap ops v (Suc i) k))"

definition handleSigint :: "'v vector_ops \<Rightarrow> 'v launcher \<Rightarrow> unit io" where
  "handleSigint ops st = iob (reap ops (containers st) 0 (vec_size ops (containers st)))
     (\<lambda>_. halt (Exited 0))"

section \<open>The experiment\<close>

text \<open>\<open>rand_char\<close>: \<open>rand\<close> is the next answer; the array \<open>new\<close> has \<open>size\<close> elements.\<close>

fun rand_fill :: "nat \<Rightarrow> nat \<Rightarrow> byte block \<Rightarrow> byte block io" where
  "rand_fill i 0 new = ret new"
| "rand_fill i (Suc k) new = iob sys_status (\<lambda>r.
     iob (lift (wr new i (65 + of_int (r mod 26)))) (rand_fill (Suc i) k))"

definition rand_char :: "nat \<Rightarrow> cstr io" where
  "rand_char n = iob (rand_fill 0 n (Block (replicate n Junk))) (\<lambda>new.
     iob (lift (wr new n 0)) (\<lambda>new'. case new' of
         Block cells \<Rightarrow> ret (map (\<lambda>c. case c of Val b \<Rightarrow> b | Junk \<Rightarrow> 0) (take n cells))
       | _ \<Rightarrow> halt NullDeref))"

text \<open>\<open>create_peer\<close>: the random name is formatted as a string, though it has no terminator.\<close>

definition create_peer :: "mem \<Rightarrow> int io" where
  "create_peer m = (case alloc m of (ok, m1) \<Rightarrow> iob (rand_char 4) (\<lambda>name.
     if \<not> ok then halt NullDeref else iob (lift (arr_str name)) (\<lambda>ident.
     iob (emit (Ran (cs ''ip link add veth'' @ ident @ cs '' type veth peer name veth1''))) (\<lambda>_.
     iob (emit (Ran (cs ''ip link set veth'' @ ident @ cs '' up''))) (\<lambda>_.
     iob (emit (Ran (cs ''brctl addif br0 veth'' @ ident))) (\<lambda>_. ret 0))))))"

definition network_setup :: "int \<Rightarrow> int io" where
  "network_setup pid = iob (emit (Ran (cs ''ip link set veth1 netns '' @ dec_int pid))) (\<lambda>_. ret 0)"

text \<open>
  \<open>child_exec\<close>, up to the program it becomes: \<open>commands\<close> is the address, the program and its
  arguments.  With fewer than two of them a null pointer is printed as a string.
\<close>

fun child_exec :: "cstr list \<Rightarrow> int io" where
  "child_exec (ip # prog # cmd_args) = iob (emit (Called ''unshare'' [])) (\<lambda>_.
     iob (emit (Called ''umount2'' [cs ''/proc''])) (\<lambda>_.
     iob (pivot_root (cs ''./busy'') (cs ''./busy/.old'')) (\<lambda>_.
     iob (emit (Called ''mount'' [cs ''tmpfs'', cs ''/dev'', cs ''tmpfs''])) (\<lambda>_.
     iob (emit (Called ''mount'' [cs ''proc'', cs ''/proc'', cs ''proc''])) (\<lambda>_.
     iob (emit (Called ''mount'' [cs ''t'', cs ''/sys'', cs ''sysfs''])) (\<lambda>_.
     iob (emit (Called ''chdir'' [cs ''/''])) (\<lambda>_. iob (emit (Called ''umount2'' [cs ''/.old''])) (\<lambda>_.
     iob (emit (Called ''setdomainname'' [cs ''container''])) (\<lambda>_.
     iob (emit (Called ''sethostname'' [cs ''container01''])) (\<lambda>_.
     iob (run_each [cs ''ip link set veth1 up'', cs ''ip addr add '' @ ip @ cs ''/24 dev veth1'',
         cs ''route add default gw 172.16.0.100 veth1'']) (\<lambda>_.
     iob (emit (Called ''execvp'' (prog # cmd_args))) (\<lambda>_. ret 0))))))))))))"
| "child_exec _ = halt NullDeref"

definition test_main :: "mem \<Rightarrow> int io" where
  "test_main m = iob (emit (Ran (cs ''mount --make-rprivate  /''))) (\<lambda>_.
     iob (create_peer m) (\<lambda>_. iob (sys_answer (\<lambda>pid. [Spawned ''child_exec'' [pid]])) (\<lambda>pid.
     iob (network_setup pid) (\<lambda>_. iob sys_status (\<lambda>_. ret 0)))))"

section \<open>Lemmas\<close>

text \<open>The containers started in a trace, and the commands that remove directories.\<close>

fun started :: "event list \<Rightarrow> int list" where
  "started [] = []"
| "started (Spawned name args # es) =
     (if name = ''startContainer'' then take 1 args @ started es else started es)"
| "started (e # es) = started es"

lemma started_append [simp]: "started (es @ fs) = started es @ started fs"
  by (induction es rule: started.induct) simp_all

text \<open>The state after \<open>clone\<close> returned the numbers \<open>pids\<close>, in this order.\<close>

definition holds :: "'v vector_ops \<Rightarrow> 'v launcher \<Rightarrow> int list \<Rightarrow> bool" where
  "holds ops st pids \<longleftrightarrow> vec_size ops (containers st) = length pids \<and> containerId st = length pids
     \<and> (\<forall>i < length pids. vec_get ops (containers st) i = pids ! i)"

lemma holds_initial: "vector_laws ops \<Longrightarrow> holds ops (initial_launcher ops) []"
  by (simp add: holds_def initial_launcher_def vector_laws_def)

lemma holds_push:
  assumes "vector_laws ops" "holds ops st pids"
  shows "holds ops \<lparr>containers = vec_push ops (containers st) pid, containerId = containerId st + 1\<rparr> (pids @ [pid])"
proof -
  have s: "vec_size ops (containers st) = length pids" and c: "containerId st = length pids"
    and g: "\<And>i. i < length pids \<Longrightarrow> vec_get ops (containers st) i = pids ! i"
    using assms(2) by (simp_all add: holds_def)
  have p: "vec_size ops (vec_push ops (containers st) pid) = Suc (length pids)"
    "vec_get ops (vec_push ops (containers st) pid) (length pids) = pid"
    "\<And>i. i < length pids \<Longrightarrow> vec_get ops (vec_push ops (containers st) pid) i = vec_get ops (containers st) i"
    using assms(1) s unfolding vector_laws_def by (metis, metis, metis)
  have "vec_get ops (vec_push ops (containers st) pid) i = (pids @ [pid]) ! i" if "i < Suc (length pids)" for i
    using p g that by (cases "i = length pids") (simp_all add: nth_append)
  then show ?thesis using p(1) c by (simp add: holds_def)
qed

lemma launch_round:
  assumes "vector_laws ops" "holds ops st pids" "length pids < MAX_PROCESS" "answers w = pid # rest"
  shows "\<exists>st' es w'. launch ops cp1 line st w = (Inr st', w') \<and> answers w' = rest
     \<and> trace w' = trace w @ es \<and> started es = (if pid = - 1 then [] else [int (length pids)]) \<and> holds ops st' (pids @ [pid])"
proof -
  let ?st = "\<lparr>containers = vec_push ops (containers st) pid, containerId = containerId st + 1\<rparr>"
  have ne: "vec_size ops (containers st) \<noteq> MAX_PROCESS" and c: "containerId st = length pids"
    using assms(2,3) by (simp_all add: holds_def)
  show ?thesis
    using ne c assms(4) holds_push [OF assms(1,2), of pid]
    by (simp add: launch_def iob_def sys_answer_def start_event_def)
qed

text \<open>The numbers, from \<open>n\<close> on, of the containers whose \<open>clone\<close> did not fail.\<close>

fun cloned :: "nat \<Rightarrow> int list \<Rightarrow> int list" where
  "cloned n [] = []"
| "cloned n (pid # pids) = (if pid = - 1 then [] else [int n]) @ cloned (Suc n) pids"

lemma cloned_iff: "k \<in> set (cloned n pids) \<longleftrightarrow> (\<exists>j < length pids. k = int (n + j) \<and> pids ! j \<noteq> - 1)"
proof (induction pids arbitrary: n)
  case (Cons pid pids)
  show ?case using Cons.IH [of "Suc n"] by (auto simp: Ex_less_Suc2)
qed simp

lemma cloned_sorted: "sorted_wrt (<) (cloned n pids)"
  by (induction pids arbitrary: n) (auto simp: cloned_iff)

lemma launch_all_rounds:
  assumes "vector_laws ops" "holds ops st pids" "length new = length ls"
    "length pids + length ls \<le> MAX_PROCESS" "answers w = new @ rest"
  shows "\<exists>st' es w'. launch_all ops cp1 ls st w = (Inr st', w') \<and> answers w' = rest \<and> trace w' = trace w @ es
     \<and> started es = cloned (length pids) new \<and> holds ops st' (pids @ new)"
  using assms(2-)
proof (induction ls arbitrary: st w pids new)
  case (Cons l ls)
  obtain pid new' where new: "new = pid # new'" "length new' = length ls" using Cons.prems(2) by (cases new) auto
  obtain st1 es1 w1 where 1: "launch ops cp1 l st w = (Inr st1, w1)" "answers w1 = new' @ rest"
    "trace w1 = trace w @ es1" "started es1 = (if pid = - 1 then [] else [int (length pids)])" "holds ops st1 (pids @ [pid])"
    using launch_round [OF assms(1) Cons.prems(1), of w pid "new' @ rest" cp1 l] Cons.prems(3,4) new by auto
  obtain st2 es2 w2 where 2: "launch_all ops cp1 ls st1 w1 = (Inr st2, w2)" "answers w2 = rest"
    "trace w2 = trace w1 @ es2" "holds ops st2 (pids @ new)" "started es2 = cloned (Suc (length pids)) new'"
    using Cons.IH [OF 1(5) new(2) _ 1(2)] Cons.prems(3) new(1) by auto
  have "started (es1 @ es2) = cloned (length pids) new" using 1(4) 2(5) new(1) by simp
  then show ?case using 1(1,3) 2(1-4) by (intro exI [of _ st2] exI [of _ "es1 @ es2"] exI [of _ w2]) simp
qed (auto intro!: exI [of _ "[]"])

lemma launch_all_full:
  assumes "holds ops st pids" "length pids = MAX_PROCESS"
  shows "launch_all ops cp1 ls st w = (Inr st, w)"
  using assms by (induction ls) (simp_all add: launch_def holds_def)

lemma launch_all_append:
  "launch_all ops cp1 (xs @ ys) st = iob (launch_all ops cp1 xs st) (launch_all ops cp1 ys)"
  by (induction xs arbitrary: st) (auto simp: fun_eq_iff iob_def split: prod.splits sum.splits)

lemma reap_effect:
  assumes "k \<le> length (answers w)"
  shows "\<exists>w'. reap ops v i k w = (Inr (), w') \<and> trace w' = trace w @ concat (map (\<lambda>j.
    [Waited (vec_get ops v j), Ran (cs ''rm -r busybox'' @ dec j)]) [i..<i + k])"
  using assms
proof (induction k arbitrary: i w)
  case (Suc k)
  then obtain r rs where a: "answers w = r # rs" by (cases "answers w") auto
  let ?w = "w\<lparr>answers := rs, trace := (trace w @ [Waited (vec_get ops v i)])
      @ [Ran (cs ''rm -r busybox'' @ dec i)]\<rparr>"
  have "reap ops v i (Suc k) w = reap ops v (Suc i) k ?w"
    using a by (simp add: sys_answer_def iob_def)
  moreover have "[i..<i + Suc k] = i # [Suc i..<Suc i + k]" by (simp add: upt_conv_Cons)
  ultimately show ?case using Suc.IH [of ?w "Suc i"] Suc.prems a by simp
qed simp

lemma rand_fill_effect:
  assumes "i + k \<le> length cells" "k \<le> length (answers w)"
  shows "\<exists>cells' w'. rand_fill i k (Block cells) w = (Inr (Block cells'), w')
     \<and> length cells' = length cells \<and> trace w' = trace w"
  using assms
proof (induction k arbitrary: i cells w)
  case (Suc k)
  then obtain r rs where a: "answers w = r # rs" by (cases "answers w") auto
  let ?cells = "cells[i := Val (65 + of_int (r mod 26))]"
  have "rand_fill i (Suc k) (Block cells) w = rand_fill (Suc i) k (Block ?cells) (w\<lparr>answers := rs\<rparr>)"
    using Suc.prems a by (simp add: sys_status_def sys_answer_def iob_def wr_def)
  then show ?case using Suc.IH [of "Suc i" ?cells "w\<lparr>answers := rs\<rparr>"] Suc.prems a by simp
qed simp

section \<open>Properties\<close>

text \<open>A vector that is a list.\<close>

definition list_vector :: "int list vector_ops" where
  "list_vector = \<lparr>vec_create = [], vec_size = length, vec_get = nth, vec_push = (\<lambda>v x. v @ [x])\<rparr>"

lemma list_vector_laws: "vector_laws list_vector"
  by (simp add: vector_laws_def list_vector_def nth_append)

lemma handleSigint_effect:
  assumes "holds ops st pids" "length pids \<le> length (answers w)"
  shows "\<exists>w'. handleSigint ops st w = (Inl (Exited 0), w') \<and> trace w' = trace w @
     concat (map (\<lambda>j. [Waited (pids ! j), Ran (cs ''rm -r busybox'' @ dec j)]) [0..<length pids])"
proof -
  have s: "vec_size ops (containers st) = length pids"
    and g: "\<And>j. j \<in> set [0..<length pids] \<Longrightarrow> vec_get ops (containers st) j = pids ! j"
    using assms(1) by (simp_all add: holds_def)
  obtain w' where "reap ops (containers st) 0 (length pids) w = (Inr (), w')"
    "trace w' = trace w @ concat (map (\<lambda>j. [Waited (vec_get ops (containers st) j),
       Ran (cs ''rm -r busybox'' @ dec j)]) [0..<length pids])"
    using reap_effect [OF assms(2), of ops "containers st" 0] by auto
  moreover have "map (\<lambda>j. [Waited (vec_get ops (containers st) j), Ran (cs ''rm -r busybox'' @ dec j)]) [0..<length pids]
      = map (\<lambda>j. [Waited (pids ! j), Ran (cs ''rm -r busybox'' @ dec j)]) [0..<length pids]"
    by (rule map_cong [OF refl]) (simp only: g)
  ultimately show ?thesis using s by (simp add: handleSigint_def iob_def)
qed

text \<open>
  C38.  The launcher calls \<open>clone\<close> once for each of the first ten lines of its input and refuses
  every later line: it counts the calls, so a container that failed to start or has ended still takes
  one of the ten places.  The container of line \<open>j\<close> has the number \<open>j\<close> and exists exactly when its
  \<open>clone\<close> did not return -1.  On SIGINT the launcher waits for each number \<open>clone\<close> returned, oldest
  first, -1 (any child) included, removes the directory of each right after, and exits.
\<close>

theorem launcher_limit:
  assumes "vector_laws ops" "answers w = pids @ rest" "length pids = min MAX_PROCESS (length ls)"
    and "length pids \<le> length rest"
  shows "\<exists>st es w1 w2. launch_all ops cp1 ls (initial_launcher ops) w = (Inr st, w1)
     \<and> answers w1 = rest \<and> trace w1 = trace w @ es
     \<and> sorted_wrt (<) (started es) \<and> set (started es) = {int j |j. j < length pids \<and> pids ! j \<noteq> - 1}
     \<and> handleSigint ops st w1 = (Inl (Exited 0), w2)
     \<and> trace w2 = trace w1 @ concat (map (\<lambda>j. [Waited (pids ! j), Ran (cs ''rm -r busybox'' @ dec j)]) [0..<length pids])"
proof -
  let ?n = "length pids"
  obtain st es w1 where 1: "launch_all ops cp1 (take ?n ls) (initial_launcher ops) w = (Inr st, w1)"
    "answers w1 = rest" "trace w1 = trace w @ es" "started es = cloned 0 pids" "holds ops st pids"
    using launch_all_rounds [OF assms(1) holds_initial [OF assms(1)], of pids "take ?n ls" w rest cp1]
      assms(2,3) by auto
  have "launch_all ops cp1 (drop ?n ls) st w1 = (Inr st, w1)"
    using launch_all_full [OF 1(5)] assms(3) by (cases "MAX_PROCESS \<le> length ls") simp_all
  then have "launch_all ops cp1 (take ?n ls @ drop ?n ls) (initial_launcher ops) w = (Inr st, w1)"
    using 1(1) unfolding launch_all_append by simp
  then have l: "launch_all ops cp1 ls (initial_launcher ops) w = (Inr st, w1)" by (simp only: append_take_drop_id)
  have s: "sorted_wrt (<) (started es)" "set (started es) = {int j |j. j < ?n \<and> pids ! j \<noteq> - 1}"
    using cloned_sorted cloned_iff [of _ 0 pids] unfolding 1(4) by auto
  have "?n \<le> length (answers w1)" using assms(4) 1(2) by simp
  from handleSigint_effect [OF 1(5) this] show ?thesis using l 1(2,3) s by blast
qed

theorem launcher_limit_witness:
  "\<exists>st es w1 w2. launch_all list_vector 4 [cs ''sh'' @ [10], cs ''ls'' @ [10], [10]] (initial_launcher list_vector)
      (world0\<lparr>answers := [7, - 1, 8, 0, 0, 0]\<rparr>) = (Inr st, w1) \<and> trace w1 = es \<and> set (started es) = {0, 2}
     \<and> handleSigint list_vector st w1 = (Inl (Exited 0), w2)
     \<and> trace w2 = es @ [Waited 7, Ran (cs ''rm -r busybox0''), Waited (- 1), Ran (cs ''rm -r busybox1''),
         Waited 8, Ran (cs ''rm -r busybox2'')]"
proof -
  let ?pids = "[7, - 1, 8] :: int list"
  have d: "{int j |j. j < Suc (Suc (Suc 0)) \<and> ?pids ! j \<noteq> - 1} = {0, 2}"
    by (auto simp: less_Suc_eq)
  have u: "[0..<3] = [0, 1, 2 :: nat]" by (simp add: upt_rec)
  show ?thesis
    using launcher_limit [OF list_vector_laws, of "world0\<lparr>answers := [7, - 1, 8, 0, 0, 0]\<rparr>" ?pids "[0, 0, 0]"
        "[cs ''sh'' @ [10], cs ''ls'' @ [10], [10]]" 4]
    by (simp add: MAX_PROCESS_def world0_def u dec.simps cs_def d)
      blast
qed

text \<open>
  \<open>create_peer\<close> never gets as far as running a command: \<open>rand_char\<close> stores the
  terminator of the random name behind the last element of its array.
\<close>

lemma create_peer_out_of_bounds:
  assumes "4 \<le> length (answers w)"
  shows "\<exists>w'. create_peer m w = (Inl OutOfBounds, w') \<and> trace w' = trace w"
proof -
  obtain cells w' where "rand_fill 0 4 (Block (replicate 4 Junk)) w = (Inr (Block cells), w')"
    "length cells = 4" "trace w' = trace w"
    using rand_fill_effect [of 0 4 "replicate 4 Junk" w] assms by auto
  then show ?thesis
    by (cases "alloc m") (simp add: create_peer_def rand_char_def iob_def wr_def)
qed

end
