(* ===== verification/OldServer.thy ===== *)
theory OldServer
  imports Redirect
begin

text \<open>
  \<open>old_server.c\<close>: the first proxy, for one request.  It starts \<open>openssl s_client\<close> in a
  child behind two pipes and searches the output of the child for marks.  Each process is run on
  its own here, what the pipes deliver is data of the world; \<open>SslPipes\<close> puts the two together.  The
  loops run for ever, so they get a number of iterations to run.
\<close>

section \<open>The buffer\<close>

definition OLD_BUFSIZE :: nat where "OLD_BUFSIZE = 1024 * 1024"

text \<open>Storing bytes into the array \<open>buffer\<close> from an index on.\<close>

definition put_cells :: "byte cell list \<Rightarrow> nat \<Rightarrow> byte list \<Rightarrow> byte cell list res" where
  "put_cells buf i bs = (if bs = [] then Inr buf
     else if i + length bs \<le> length buf
     then Inr (take i buf @ map Val bs @ drop (i + length bs) buf) else Inl OutOfBounds)"

text \<open>
  \<open>numRead += read(fd, buffer + numRead, total)\<close>, where \<open>total\<close> is the size of the
  whole buffer.  After an error the unsigned \<open>numRead\<close> goes down by one.
\<close>

definition read_more :: "int \<Rightarrow> byte cell list \<Rightarrow> u64 \<Rightarrow> (byte cell list \<times> u64) io" where
  "read_more fd buf numRead = iob (sys_read fd OLD_BUFSIZE) (\<lambda>r. case r of
       Failed e \<Rightarrow> ret (buf, numRead - 1)
     | Got bs \<Rightarrow> iob (lift (put_cells buf (unat numRead) bs))
         (\<lambda>buf'. ret (buf', numRead + of_nat (length bs))))"

section \<open>makeReq\<close>

text \<open>The two descriptors of a pipe, left uninitialised when the call fails.\<close>

definition sys_pipe :: "(int \<times> int) option io" where
  "sys_pipe = iob sys_status (\<lambda>r. if r = - 1 then ret None
     else iob sys_status (\<lambda>a. iob sys_status (\<lambda>b. ret (Some (a, b)))))"

definition pipe_ends :: "(int \<times> int) option \<Rightarrow> (int \<times> int) res" where
  "pipe_ends p = (case p of None \<Rightarrow> Inl UninitRead | Some ab \<Rightarrow> Inr ab)"

text \<open>The command line the child builds in an array of 1024 bytes.\<close>

definition ssl_command :: "cstr \<Rightarrow> cstr res" where
  "ssl_command clientHeader = (case c_strstr clientHeader (cs ''Host: '') of
       None \<Rightarrow> Inl NullDeref
     | Some p \<Rightarrow> (let host = drop (p + 6) clientHeader in case c_strstr host crlf of
           None \<Rightarrow> Inl NullDeref
         | Some n \<Rightarrow> (let command = cs ''openssl s_client -connect '' @ take n host in
             if length command < 1024 then Inr command else Inl OutOfBounds)))"

text \<open>The request line with its end, in an array of 1024 bytes.\<close>

definition request_line :: "cstr \<Rightarrow> cstr res" where
  "request_line clientHeader = (case c_strstr clientHeader crlf of
       None \<Rightarrow> Inl NullDeref
     | Some n \<Rightarrow> if n + 2 < 1024 then Inr (take (n + 2) clientHeader) else Inl OutOfBounds)"

definition verify_ok :: cstr where "verify_ok = cs ''Verify return code: 0 (ok)''"

definition ok_mark :: cstr where "ok_mark = cs ''200 OK'' @ crlf"

definition end_mark :: cstr where "end_mark = cs ''---'' @ [10] @ cs ''Post-Handshake New Session''"

text \<open>The first loop: until the handshake is reported; the string is not terminated here.\<close>

fun wait_verify :: "nat \<Rightarrow> int \<Rightarrow> byte cell list \<Rightarrow> u64 \<Rightarrow> byte cell list io" where
  "wait_verify 0 fd buf numRead w = (Inl NoFuel, w)"
| "wait_verify (Suc fuel) fd buf numRead w = iob (read_more fd buf numRead) (\<lambda>(buf', numRead') w1.
     iob (lift (cell_str buf')) (\<lambda>s w2. if c_strstr s verify_ok \<noteq> None then (Inr buf', w2)
       else wait_verify fuel fd buf' numRead' w2) w1) w"

text \<open>The second loop: the offsets of \<open>OK\<close> and of \<open>END\<close> behind it.\<close>

definition find_response :: "cstr \<Rightarrow> (nat \<times> nat) option" where
  "find_response s = (case c_strstr s ok_mark of None \<Rightarrow> None
     | Some p \<Rightarrow> (case c_strstr (drop p s) end_mark of None \<Rightarrow> None | Some q \<Rightarrow> Some (p, p + q)))"

fun wait_response :: "nat \<Rightarrow> int \<Rightarrow> byte cell list \<Rightarrow> u64 \<Rightarrow> (cstr \<times> nat \<times> nat) io" where
  "wait_response 0 fd buf numRead w = (Inl NoFuel, w)"
| "wait_response (Suc fuel) fd buf numRead w = iob (read_more fd buf numRead) (\<lambda>(buf', numRead') w1.
     iob (lift (put_cells buf' (unat numRead') [0])) (\<lambda>buf'' w2.
     iob (lift (cell_str buf'')) (\<lambda>s w3. case find_response s of
         Some (res_start, res_end) \<Rightarrow> (Inr (s, res_start, res_end), w3)
       | None \<Rightarrow> wait_response fuel fd buf'' numRead' w3) w2) w1) w"

text \<open>
  The bytes copied to \<open>writeback\<close>.  \<open>assert(res_start)\<close> cannot fail, since 4 was added
  before; a negative length is a huge one for \<open>memcpy\<close>.
\<close>

definition response_body :: "cstr \<Rightarrow> nat \<Rightarrow> nat \<Rightarrow> byte list res" where
  "response_body s res_start res_end = (case c_strstr (drop res_start s) (crlf @ crlf) of
       None \<Rightarrow> Inl OutOfBounds
     | Some k \<Rightarrow> (let start = res_start + k + 4 in
         if start \<le> res_end then Inr (take (res_end - start) (drop start s)) else Inl OutOfBounds))"

definition close_pipes :: "(int \<times> int) option \<Rightarrow> (int \<times> int) option \<Rightarrow> unit io" where
  "close_pipes fromSSL toSSL = iob (lift (pipe_ends fromSSL)) (\<lambda>(f0, f1). iob (lift (pipe_ends toSSL)) (\<lambda>(t0, t1).
     iob (emit (Closed f1)) (\<lambda>_. iob (emit (Closed f0)) (\<lambda>_.
     iob (emit (Closed t0)) (\<lambda>_. emit (Closed t1))))))"

text \<open>The standard output and input of the child become the pipes.\<close>

definition redirect_streams :: "(int \<times> int) option \<Rightarrow> (int \<times> int) option \<Rightarrow> unit io" where
  "redirect_streams fromSSL toSSL = iob (lift (pipe_ends fromSSL)) (\<lambda>(f0, f1). iob (lift (pipe_ends toSSL)) (\<lambda>(t0, t1).
     iob (emit (Duplicated f1 1)) (\<lambda>_. emit (Duplicated t0 0))))"

text \<open>The child, which \<open>fork\<close> returns 0 to, and the parent.\<close>

definition openssl_child :: "(int \<times> int) option \<Rightarrow> (int \<times> int) option \<Rightarrow> cstr \<Rightarrow> byte list io" where
  "openssl_child fromSSL toSSL clientHeader = iob (redirect_streams fromSSL toSSL) (\<lambda>_.
     iob (close_pipes fromSSL toSSL) (\<lambda>_. iob (lift (ssl_command clientHeader)) (\<lambda>command.
     iob (emit (Ran command)) (\<lambda>_. halt (Exited 1)))))"

definition openssl_parent ::
  "nat \<Rightarrow> byte cell list \<Rightarrow> (int \<times> int) option \<Rightarrow> (int \<times> int) option \<Rightarrow> cstr \<Rightarrow> byte list io" where
  "openssl_parent fuel buffer fromSSL toSSL clientHeader =
     iob (lift (pipe_ends fromSSL)) (\<lambda>(f0, f1). iob (wait_verify fuel f0 buffer 0) (\<lambda>buf.
     iob (lift (request_line clientHeader)) (\<lambda>req. iob (lift (pipe_ends toSSL)) (\<lambda>(t0, t1).
     iob (sys_write t1 req) (\<lambda>_. iob (wait_response fuel f0 buf 0) (\<lambda>(s, res_start, res_end).
     iob (lift (response_body s res_start res_end)) (\<lambda>body. iob sys_status (\<lambda>_.
     iob (close_pipes fromSSL toSSL) (\<lambda>_. ret body)))))))))"

definition makeReq :: "nat \<Rightarrow> byte cell list \<Rightarrow> cstr \<Rightarrow> byte list io" where
  "makeReq fuel buffer clientHeader = iob sys_pipe (\<lambda>toSSL. iob sys_pipe (\<lambda>fromSSL.
     iob sys_status (\<lambda>child. if child = 0 then openssl_child fromSSL toSSL clientHeader
       else openssl_parent fuel buffer fromSSL toSSL clientHeader)))"

text \<open>\<open>main\<close>; \<open>buffer\<close> is what the array of \<open>makeReq\<close> holds at first.\<close>

definition old_main :: "nat \<Rightarrow> byte cell list \<Rightarrow> int io" where
  "old_main fuel buffer = iob open_listener (\<lambda>sock_fd. iob sys_accept (\<lambda>client_fd.
     iob (sys_read client_fd (OLD_BUFSIZE - 1)) (\<lambda>r. case r of
         Failed e \<Rightarrow> halt OutOfBounds
       | Got bs \<Rightarrow> iob (makeReq fuel buffer (buf_str bs)) (\<lambda>writeback.
           iob (sys_write client_fd writeback) (\<lambda>_. iob (emit (Shut sock_fd)) (\<lambda>_.
           iob (emit (Closed sock_fd)) (\<lambda>_. ret 0)))))))"

section \<open>Lemmas\<close>

text \<open>The cells from the start of the buffer that hold what was read so far.\<close>

definition got_cells :: "byte cell list \<Rightarrow> u64 \<Rightarrow> cstr \<Rightarrow> bool" where
  "got_cells buf n got \<longleftrightarrow> length buf = OLD_BUFSIZE \<and> unat n = length got
     \<and> take (length got) buf = map Val got"

lemma got_cells_0: "length buf = OLD_BUFSIZE \<Longrightarrow> got_cells buf 0 []"
  by (simp add: got_cells_def)

lemma read_more_chunk:
  assumes "got_cells buf n got" "inputs w fd = Chunk bs # is" "bs \<noteq> []" "length (got @ bs) < OLD_BUFSIZE"
  shows "\<exists>buf'. read_more fd buf n w = (Inr (buf', n + of_nat (length bs)), w\<lparr>inputs := (inputs w)(fd := is)\<rparr>)
     \<and> got_cells buf' (n + of_nat (length bs)) (got @ bs)
     \<and> drop (length (got @ bs)) buf' = drop (length (got @ bs)) buf"
proof -
  let ?buf = "map Val (got @ bs) @ drop (length (got @ bs)) buf"
  note g = assms(1) [unfolded got_cells_def]
  have p: "put_cells buf (unat n) bs = Inr ?buf"
    using g assms(3,4) by (simp add: put_cells_def)
  have "unat (n + of_nat (length bs)) = length (got @ bs)"
    using g assms(4) unat_u64_add [of n "length bs"] by (simp add: OLD_BUFSIZE_def)
  then have "got_cells ?buf (n + of_nat (length bs)) (got @ bs)"
    using g assms(4) by (simp add: got_cells_def)
  moreover have "read_more fd buf n w
      = (Inr (?buf, n + of_nat (length bs)), w\<lparr>inputs := (inputs w)(fd := is)\<rparr>)"
    using assms(2,4) p by (simp add: read_more_def sys_read_def iob_def)
  ultimately show ?thesis by (intro exI [of _ ?buf]) simp
qed

lemma got_cells_terminated:
  assumes "got_cells buf n got" "length got < OLD_BUFSIZE" "cstr_ok got"
  shows "\<exists>buf'. put_cells buf (unat n) [0] = Inr buf' \<and> got_cells buf' n got \<and> cell_str buf' = Inr got"
proof -
  note g = assms(1) [unfolded got_cells_def]
  let ?buf = "map Val got @ [Val 0] @ drop (length got + 1) buf"
  have "put_cells buf (unat n) [0] = Inr ?buf" using g assms(2) by (simp add: put_cells_def)
  moreover have "got_cells ?buf n got" using g assms(2) by (simp add: got_cells_def)
  moreover have "cell_str ?buf = Inr got" using cell_str_cells [OF assms(3)] by simp
  ultimately show ?thesis by blast
qed

text \<open>An occurrence stays the first one when the text grows.\<close>

lemma c_strstr_grows:
  assumes "c_strstr s n = Some i"
  shows "c_strstr (s @ t) n = Some i"
proof -
  have l: "i + length n \<le> length s" using c_strstr_split(3) [OF assms] .
  have a: "i \<le> length s" "prefix n (drop i s)" and b: "\<And>j. j < i \<Longrightarrow> \<not> prefix n (drop j s)"
    using assms by (simp_all add: c_strstr_Some)
  have "\<not> prefix n (drop j (s @ t))" if "j < i" for j
  proof
    assume "prefix n (drop j (s @ t))"
    then have "prefix n (drop j s @ t)" using a(1) \<open>j < i\<close> by simp
    moreover have "length n \<le> length (drop j s)" using l \<open>j < i\<close> by simp
    ultimately have "prefix n (drop j s)" by (metis prefix_length_prefix prefixI)
    with b [OF \<open>j < i\<close>] show False by simp
  qed
  moreover have "prefix n (drop i (s @ t))" using a by (auto intro: prefix_prefix)
  ultimately show ?thesis using a(1) by (simp add: c_strstr_Some)
qed

lemma find_response_grows:
  assumes "find_response s = Some (a, b)"
  shows "find_response (s @ t) = Some (a, b)" "b + length end_mark \<le> length s"
proof -
  obtain q where p: "c_strstr s ok_mark = Some a" and q: "c_strstr (drop a s) end_mark = Some q" "b = a + q"
    using assms by (auto simp: find_response_def split: option.splits)
  have a: "a \<le> length s" using p by (simp add: c_strstr_Some)
  then show "find_response (s @ t) = Some (a, b)"
    using c_strstr_grows [OF p, of t] c_strstr_grows [OF q(1), of t] q(2) by (simp add: find_response_def)
  show "b + length end_mark \<le> length s" using c_strstr_split(3) [OF q(1)] a q(2) by simp
qed

lemma find_response_None:
  assumes "find_response (u @ v) = Some (a, b)" "length u < b + length end_mark"
  shows "find_response u = None"
proof (cases "find_response u")
  case (Some ab)
  obtain a' b' where "ab = (a', b')" by (cases ab)
  with find_response_grows(1) [of u a' b' v] find_response_grows(2) [of u a' b'] Some assms show ?thesis by simp
qed simp

lemma wait_response_chunks:
  assumes "got_cells buf n got" "inputs w fd = map Chunk chs @ is" "chs \<noteq> []" "[] \<notin> set chs"
    and "length (got @ concat chs) < OLD_BUFSIZE" "cstr_ok (got @ concat chs)" "length chs \<le> fuel"
    and "find_response (got @ concat chs) = Some (a, b)"
    and "length (got @ concat (butlast chs)) < b + length end_mark"
  shows "wait_response fuel fd buf n w
    = (Inr (got @ concat chs, a, b), w\<lparr>inputs := (inputs w)(fd := is)\<rparr>)"
  using assms
proof (induction chs arbitrary: buf n got w fuel)
  case (Cons c chs)
  obtain f where f: "fuel = Suc f" using Cons.prems(7) by (cases fuel) auto
  let ?w1 = "w\<lparr>inputs := (inputs w)(fd := map Chunk chs @ is)\<rparr>" and ?n = "n + of_nat (length c)"
  have lc: "length (got @ c) < OLD_BUFSIZE" "c \<noteq> []" "cstr_ok (got @ c)"
    using Cons.prems(4,5,6) by (auto simp: cstr_ok_def)
  obtain buf1 where r: "read_more fd buf n w = (Inr (buf1, ?n), ?w1)" "got_cells buf1 ?n (got @ c)"
    using read_more_chunk [OF Cons.prems(1) _ lc(2,1), of w fd "map Chunk chs @ is"] Cons.prems(2) by auto
  obtain buf2 where t: "put_cells buf1 (unat ?n) [0] = Inr buf2" "got_cells buf2 ?n (got @ c)"
    "cell_str buf2 = Inr (got @ c)"
    using got_cells_terminated [OF r(2) lc(1,3)] by blast
  have step: "wait_response fuel fd buf n w = (case find_response (got @ c) of
       Some (a, b) \<Rightarrow> (Inr (got @ c, a, b), ?w1) | None \<Rightarrow> wait_response f fd buf2 ?n ?w1)"
    using r(1) t(1,3) by (simp add: f)
  show ?case
  proof (cases "chs = []")
    case True
    then show ?thesis using step Cons.prems(8) by (simp add: fun_upd_def)
  next
    case False
    have "find_response ((got @ c) @ concat chs) = Some (a, b)" using Cons.prems(8) by simp
    moreover have "length (got @ c) < b + length end_mark" using Cons.prems(9) False by simp
    ultimately have "find_response (got @ c) = None" by (rule find_response_None)
    then have "wait_response fuel fd buf n w = wait_response f fd buf2 ?n ?w1" using step by simp
    also have "\<dots> = (Inr ((got @ c) @ concat chs, a, b), ?w1\<lparr>inputs := (inputs ?w1)(fd := is)\<rparr>)"
      by (rule Cons.IH [OF t(2) _ False]) (use Cons.prems f False in simp_all)
    also have "?w1\<lparr>inputs := (inputs ?w1)(fd := is)\<rparr> = w\<lparr>inputs := (inputs w)(fd := is)\<rparr>" by simp
    finally show ?thesis by (simp only: append_assoc concat.simps list.map)
  qed
qed simp

text \<open>The first loop on a buffer of zeros: what was read so far is a terminated string.\<close>

lemma wait_verify_chunks:
  assumes "got_cells buf n got" "drop (length got) buf = replicate (OLD_BUFSIZE - length got) (Val 0)"
    and "inputs w fd = map Chunk chs @ is" "chs \<noteq> []" "[] \<notin> set chs"
    and "length (got @ concat chs) < OLD_BUFSIZE" "cstr_ok (got @ concat chs)" "length chs \<le> fuel"
    and "sublist verify_ok (got @ concat chs)" "\<not> sublist verify_ok (got @ concat (butlast chs))"
  shows "\<exists>buf'. wait_verify fuel fd buf n w = (Inr buf', w\<lparr>inputs := (inputs w)(fd := is)\<rparr>)
     \<and> length buf' = OLD_BUFSIZE"
  using assms
proof (induction chs arbitrary: buf n got w fuel)
  case (Cons c chs)
  obtain f where f: "fuel = Suc f" using Cons.prems(8) by (cases fuel) auto
  let ?w1 = "w\<lparr>inputs := (inputs w)(fd := map Chunk chs @ is)\<rparr>" and ?n = "n + of_nat (length c)"
  have lc: "length (got @ c) < OLD_BUFSIZE" "c \<noteq> []" "cstr_ok (got @ c)"
    using Cons.prems(5,6,7) by (auto simp: cstr_ok_def)
  obtain buf1 where r: "read_more fd buf n w = (Inr (buf1, ?n), ?w1)" "got_cells buf1 ?n (got @ c)"
    "drop (length (got @ c)) buf1 = drop (length (got @ c)) buf"
    using read_more_chunk [OF Cons.prems(1) _ lc(2,1), of w fd "map Chunk chs @ is"] Cons.prems(3) by auto
  have "drop (length (got @ c)) buf = drop (length c) (drop (length got) buf)" by (simp add: add.commute)
  then have z: "drop (length (got @ c)) buf1 = replicate (OLD_BUFSIZE - length (got @ c)) (Val 0)"
    using r(3) Cons.prems(2) by simp
  obtain k where k: "OLD_BUFSIZE - length (got @ c) = Suc k" using lc(1) by (metis Suc_diff_Suc)
  have "buf1 = map Val (got @ c) @ Val 0 # replicate k (Val 0)"
    using r(2) z k append_take_drop_id [of "length (got @ c)" buf1] by (simp add: got_cells_def)
  then have "cell_str buf1 = Inr (got @ c)" using cell_str_cells [OF lc(3)] by simp
  then have step: "wait_verify fuel fd buf n w = (if sublist verify_ok (got @ c) then (Inr buf1, ?w1)
      else wait_verify f fd buf1 ?n ?w1)"
    using r(1) by (simp add: f c_strstr_None)
  show ?case
  proof (cases "chs = []")
    case True
    then show ?thesis using step Cons.prems(9) r(2) by (simp add: got_cells_def fun_upd_def)
  next
    case False
    have "\<not> sublist verify_ok (got @ c)"
      using Cons.prems(10) False sublist_append [of verify_ok "got @ c" "concat (butlast chs)"] by simp
    then have "wait_verify fuel fd buf n w = wait_verify f fd buf1 ?n ?w1" using step by (simp only: if_False)
    moreover have "\<exists>buf'. wait_verify f fd buf1 ?n ?w1 = (Inr buf', ?w1\<lparr>inputs := (inputs ?w1)(fd := is)\<rparr>)
        \<and> length buf' = OLD_BUFSIZE"
      by (rule Cons.IH [OF r(2) z _ False]) (use Cons.prems f False in simp_all)
    moreover have "?w1\<lparr>inputs := (inputs ?w1)(fd := is)\<rparr> = w\<lparr>inputs := (inputs w)(fd := is)\<rparr>" by simp
    ultimately show ?thesis by (simp only:)
  qed
qed simp

text \<open>A junk cell is met before the end of a string without a NUL.\<close>

lemma cell_str_junk: "cstr_ok s \<Longrightarrow> cell_str (map Val s @ Junk # r) = Inl UninitRead"
  by (induction s) (auto simp: cstr_ok_def)

text \<open>At the end of its input the first loop goes round for ever.\<close>

lemma wait_verify_eof:
  assumes "inputs w fd = [Eof]" "cell_str buf = Inr s" "\<not> sublist verify_ok s"
  shows "wait_verify fuel fd buf n w = (Inl NoFuel, w)"
proof (induction fuel)
  case (Suc fuel)
  have "read_more fd buf n w = (Inr (buf, n), w)"
    using assms(1) by (simp add: read_more_def sys_read_def iob_def put_cells_def fun_upd_idem)
  then show ?case using Suc assms(2,3) by (simp add: c_strstr_None)
qed simp

declare wait_verify.simps [simp del] wait_response.simps [simp del]

section \<open>Properties\<close>

text \<open>Output of the child with a response that has the shape the second loop waits for.\<close>

definition openssl_output :: "cstr \<Rightarrow> cstr \<Rightarrow> cstr \<Rightarrow> cstr" where
  "openssl_output pre hd_lines body = pre @ ok_mark @ hd_lines @ crlf @ crlf @ body @ end_mark"

definition openssl_parts :: "cstr \<Rightarrow> cstr \<Rightarrow> cstr \<Rightarrow> bool" where
  "openssl_parts pre hd_lines body \<longleftrightarrow> \<not> sublist ok_mark pre
     \<and> c_strstr (ok_mark @ hd_lines @ crlf @ crlf) (crlf @ crlf) = Some (8 + length hd_lines)
     \<and> c_strstr (ok_mark @ hd_lines @ crlf @ crlf @ body @ end_mark) end_mark
         = Some (12 + length hd_lines + length body)"

lemma ok_needle: "ok_mark = 50 # cs ''00 OK'' @ crlf" "50 \<notin> set (cs ''00 OK'' @ crlf)" "length ok_mark = 8"
  by (simp_all add: ok_mark_def cs_def crlf_def)

lemma openssl_output_parts:
  fixes post :: cstr
  assumes "openssl_parts pre hd_lines body"
  defines "r \<equiv> openssl_output pre hd_lines body @ post"
  shows "find_response r = Some (length pre, length pre + (12 + length hd_lines + length body))"
    "response_body r (length pre) (length pre + (12 + length hd_lines + length body)) = Inr body"
proof -
  note a = assms(1) [unfolded openssl_parts_def]
  let ?t = "ok_mark @ hd_lines @ crlf @ crlf"
  have r: "r = pre @ ok_mark @ (hd_lines @ crlf @ crlf @ body @ end_mark @ post)"
    by (simp add: r_def openssl_output_def)
  have 1: "c_strstr r ok_mark = Some (length pre)"
    unfolding r ok_needle(1) using a ok_needle(1) by (intro c_strstr_first [OF ok_needle(2)]) simp
  have d: "drop (length pre) r = (?t @ body @ end_mark) @ post" by (simp add: r)
  have 2: "c_strstr (drop (length pre) r) end_mark = Some (12 + length hd_lines + length body)"
    unfolding d by (rule c_strstr_grows) (use a in simp)
  show "find_response r = Some (length pre, length pre + (12 + length hd_lines + length body))"
    using 1 2 by (simp add: find_response_def)
  have d': "drop (length pre) r = ?t @ body @ end_mark @ post" by (simp add: r)
  have 3: "c_strstr (drop (length pre) r) (crlf @ crlf) = Some (8 + length hd_lines)"
    unfolding d' append_assoc [symmetric] by (rule c_strstr_grows, rule c_strstr_grows, rule c_strstr_grows) (use a in simp)
  have "drop (length pre + (8 + length hd_lines) + 4) r = body @ end_mark @ post"
    by (simp add: r ok_needle(3) crlf_def)
  then show "response_body r (length pre) (length pre + (12 + length hd_lines + length body)) = Inr body"
    using 3 by (simp add: response_body_def)
qed

text \<open>
  C36.  In a buffer that holds zeros at first, however the pipe cuts the output of \<open>openssl\<close> up
  (text without NUL bytes that fits the buffer), the report of the handshake (the chunks \<open>vs\<close>, the
  last of which completes the verify mark) as well as the response (\<open>chs\<close>), \<open>makeReq\<close> returns the
  body between the blank line of the response and the mark behind it, after it sent the first line
  of the request, of less than 1022 bytes, and nothing else of it; in the end all four descriptors
  of the pipes are closed.
\<close>

theorem openssl_returns_body:
  assumes "answers w = [0, t0, t1, 0, f0, f1, child, st] @ rest" "child \<noteq> 0" "outs w t1 = []"
    and "inputs w f0 = map Chunk vs @ map Chunk chs @ is" "[] \<notin> set (vs @ chs)"
    and "cstr_ok (concat vs)" "length (concat vs) < OLD_BUFSIZE" "length vs \<le> fuel"
    and "sublist verify_ok (concat vs)" "\<not> sublist verify_ok (concat (butlast vs))"
    and "openssl_parts pre hd_lines body" "concat chs = openssl_output pre hd_lines body @ post"
    and "cstr_ok (concat chs)" "length (concat chs) < OLD_BUFSIZE" "length chs \<le> fuel"
    and "length (concat (butlast chs)) < length (openssl_output pre hd_lines body)"
    and "header = line @ crlf @ headers" "\<not> sublist crlf line" "length line < 1022"
  shows "\<exists>w'. makeReq fuel (replicate OLD_BUFSIZE (Val 0)) header w = (Inr body, w')
     \<and> answers w' = rest
     \<and> trace w' = trace w @ [Sent t1 (line @ crlf), Closed f1, Closed f0, Closed t0, Closed t1]"
proof -
  let ?w1 = "w\<lparr>answers := st # rest\<rparr>"
  let ?w2 = "?w1\<lparr>inputs := (inputs w)(f0 := map Chunk chs @ is)\<rparr>"
  let ?w3 = "?w2\<lparr>trace := trace w @ [Sent t1 (line @ crlf)]\<rparr>"
  let ?w4 = "?w3\<lparr>inputs := (inputs ?w3)(f0 := is)\<rparr>"
  let ?b = "length pre + (12 + length hd_lines + length body)"
  have "vs \<noteq> []" using assms(9) by (auto simp: verify_ok_def cs_def)
  then obtain buf where 1: "wait_verify fuel f0 (replicate OLD_BUFSIZE (Val 0)) 0 ?w1 = (Inr buf, ?w2)"
    "length buf = OLD_BUFSIZE"
    using wait_verify_chunks [OF got_cells_0, of "replicate OLD_BUFSIZE (Val 0)" ?w1 f0 vs "map Chunk chs @ is" fuel]
      assms(4-10) by auto
  have "c_strstr header crlf = Some (length line)"
    using c_strstr_first [OF crlf_needle(2), of line headers] assms(17,18) by (simp add: crlf_needle)
  then have 2: "request_line header = Inr (line @ crlf)"
    using assms(17,19) by (simp add: request_line_def crlf_def)
  have 3: "wait_response fuel f0 buf 0 ?w3 = (Inr ([] @ concat chs, length pre, ?b), ?w4)"
  proof (rule wait_response_chunks [OF got_cells_0 [OF 1(2)]])
    show "chs \<noteq> []" using assms(12) by (auto simp: openssl_output_def ok_needle)
    show "find_response ([] @ concat chs) = Some (length pre, ?b)"
      using openssl_output_parts(1) [OF assms(11)] assms(12) by simp
    show "length ([] @ concat (butlast chs)) < ?b + length end_mark"
      using assms(16) by (simp add: openssl_output_def ok_needle(3) crlf_def)
  qed (use assms(5,13-15) in simp_all)
  have 4: "response_body (concat chs) (length pre) ?b = Inr body"
    using openssl_output_parts(2) [OF assms(11)] assms(12) by simp
  have 5: "makeReq fuel (replicate OLD_BUFSIZE (Val 0)) header w
      = openssl_parent fuel (replicate OLD_BUFSIZE (Val 0)) (Some (f0, f1)) (Some (t0, t1)) header ?w1"
    using assms(1,2) by (simp add: makeReq_def sys_pipe_def sys_status_def sys_answer_def iob_def)
  have 6: "sys_write t1 (line @ crlf) ?w2 = (Inr (Wrote (length (line @ crlf))), ?w3)"
    using assms(3) by (simp add: sys_write_def)
  have 7: "openssl_parent fuel (replicate OLD_BUFSIZE (Val 0)) (Some (f0, f1)) (Some (t0, t1)) header ?w1
      = iob sys_status (\<lambda>_. iob (close_pipes (Some (f0, f1)) (Some (t0, t1))) (\<lambda>_. ret body)) ?w4"
    unfolding openssl_parent_def using 3 by (simp add: pipe_ends_def 1 2 6 4)
  show ?thesis unfolding 5 7
    by (simp add: sys_status_def sys_answer_def close_pipes_def pipe_ends_def)
qed

theorem openssl_returns_body_witness:
  "\<exists>w'. makeReq 9 (replicate OLD_BUFSIZE (Val 0)) (cs ''GET / HTTP/1.1'' @ crlf @ cs ''Host: a'' @ crlf)
      (world0\<lparr>answers := [0, 3, 4, 0, 5, 6, 77, 0],
        inputs := (\<lambda>_. [Chunk (take 9 verify_ok), Chunk (drop 9 verify_ok), Chunk (cs ''HTTP/1.1 200''),
          Chunk (cs '' OK'' @ crlf @ cs ''A: b'' @ crlf @ crlf @ cs ''page'' @ end_mark)])\<rparr>) = (Inr (cs ''page''), w')
     \<and> trace w' = [Sent 4 (cs ''GET / HTTP/1.1'' @ crlf), Closed 6, Closed 5, Closed 3, Closed 4]"
proof -
  let ?vs = "[take 9 verify_ok, drop 9 verify_ok]"
  let ?chs = "[cs ''HTTP/1.1 200'', cs '' OK'' @ crlf @ cs ''A: b'' @ crlf @ crlf @ cs ''page'' @ end_mark]"
  let ?w = "world0\<lparr>answers := [0, 3, 4, 0, 5, 6, 77, 0], inputs := (\<lambda>_. map Chunk ?vs @ map Chunk ?chs @ [])\<rparr>"
  let ?header = "cs ''GET / HTTP/1.1'' @ crlf @ cs ''Host: a'' @ crlf"
  have 1: "concat ?vs = verify_ok" "[] \<notin> set (?vs @ ?chs)" "length ?vs \<le> 9" "length ?chs \<le> 9"
    by (simp_all add: verify_ok_def cs_def)
  have 2: "cstr_ok (concat ?vs)" "length (concat ?vs) < OLD_BUFSIZE" "sublist verify_ok (concat ?vs)"
    unfolding 1(1) by (simp_all add: verify_ok_def cs_def cstr_ok_def OLD_BUFSIZE_def)
  have 3: "\<not> sublist verify_ok (concat (butlast ?vs))"
    by (simp add: c_strstr_None [symmetric] verify_ok_def cs_def)
  have 4: "openssl_parts (cs ''HTTP/1.1 '') (cs ''A: b'') (cs ''page'')"
    by (simp add: openssl_parts_def c_strstr_None [symmetric] ok_mark_def end_mark_def cs_def crlf_def)
  have 5: "concat ?chs = openssl_output (cs ''HTTP/1.1 '') (cs ''A: b'') (cs ''page'') @ []"
    by (simp add: openssl_output_def ok_mark_def end_mark_def cs_def crlf_def)
  have 6: "cstr_ok (concat ?chs)" "length (concat ?chs) < OLD_BUFSIZE"
    "length (concat (butlast ?chs)) < length (openssl_output (cs ''HTTP/1.1 '') (cs ''A: b'') (cs ''page''))"
    by (simp_all add: cs_def crlf_def cstr_ok_def OLD_BUFSIZE_def end_mark_def openssl_output_def ok_mark_def)
  have 7: "\<not> sublist crlf (cs ''GET / HTTP/1.1'')" "length (cs ''GET / HTTP/1.1'') < 1022"
    by (simp_all add: c_strstr_None [symmetric] cs_def crlf_def)
  have "\<exists>w'. makeReq 9 (replicate OLD_BUFSIZE (Val 0)) ?header ?w = (Inr (cs ''page''), w') \<and> answers w' = []
     \<and> trace w' = trace ?w @ [Sent 4 (cs ''GET / HTTP/1.1'' @ crlf), Closed 6, Closed 5, Closed 3, Closed 4]"
    by (rule openssl_returns_body [of ?w 3 4 5 6 77 0 "[]", OF _ _ _ _ 1(2) 2(1,2) 1(3) 2(3) 3 4 5 6(1,2) 1(4) 6(3) refl 7])
      (simp_all add: world0_def)
  then show ?thesis by (auto simp: world0_def)
qed

text \<open>
  The buffer of \<open>makeReq\<close> is searched for a string before a terminator was stored in it:
  if the array holds nothing yet, the first output of \<open>openssl\<close> is followed by a read of
  uninitialised memory.
\<close>

lemma openssl_reads_junk:
  assumes "answers w = [0, t0, t1, 0, f0, f1, child] @ rest" "child \<noteq> 0"
    and "inputs w f0 = Chunk hs # is" "hs \<noteq> []" "cstr_ok hs" "length hs < OLD_BUFSIZE"
  shows "fst (makeReq (Suc fuel) (replicate OLD_BUFSIZE Junk) header w) = Inl UninitRead"
proof -
  let ?w1 = "w\<lparr>answers := rest\<rparr>"
  obtain buf where r: "read_more f0 (replicate OLD_BUFSIZE Junk) 0 ?w1
      = (Inr (buf, 0 + of_nat (length hs)), ?w1\<lparr>inputs := (inputs w)(f0 := is)\<rparr>)"
    "got_cells buf (0 + of_nat (length hs)) ([] @ hs)"
    "drop (length ([] @ hs)) buf = drop (length ([] @ hs)) (replicate OLD_BUFSIZE Junk)"
    using read_more_chunk [OF got_cells_0, of "replicate OLD_BUFSIZE Junk" ?w1 f0 hs "is"] assms(3,4,6) by auto
  obtain k where k: "OLD_BUFSIZE - length hs = Suc k" using assms(6) by (metis Suc_diff_Suc)
  have "buf = map Val hs @ Junk # replicate k Junk"
    using r(2,3) k append_take_drop_id [of "length hs" buf] by (simp add: got_cells_def)
  then have "cell_str buf = Inl UninitRead" using cell_str_junk [OF assms(5)] by simp
  then have "fst (wait_verify (Suc fuel) f0 (replicate OLD_BUFSIZE Junk) 0 ?w1) = Inl UninitRead"
    using r(1) by (simp add: wait_verify.simps)
  then have "fst (openssl_parent (Suc fuel) (replicate OLD_BUFSIZE Junk) (Some (f0, f1)) (Some (t0, t1)) header ?w1)
      = Inl UninitRead"
    by (cases "wait_verify (Suc fuel) f0 (replicate OLD_BUFSIZE Junk) 0 ?w1")
      (simp add: openssl_parent_def pipe_ends_def)
  then show ?thesis
    using assms(1,2) by (simp add: makeReq_def sys_pipe_def sys_status_def sys_answer_def iob_def)
qed

text \<open>
  If a read from the pipe reports its end, \<open>makeReq\<close> does not stop: it reads that end again and
  again, no number of iterations lets it return, and it does nothing more.
\<close>

lemma openssl_eof_never_ends:
  assumes "answers w = [0, t0, t1, 0, f0, f1, child] @ rest" "child \<noteq> 0" "inputs w f0 = [Eof]"
    and "length buffer = OLD_BUFSIZE" "cell_str buffer = Inr s" "\<not> sublist verify_ok s"
  shows "makeReq fuel buffer header w = (Inl NoFuel, w\<lparr>answers := rest\<rparr>)"
  using assms wait_verify_eof [of "w\<lparr>answers := rest\<rparr>" f0 buffer s fuel 0]
  by (simp add: makeReq_def sys_pipe_def sys_status_def sys_answer_def iob_def openssl_parent_def pipe_ends_def)

text \<open>
  Two ways the wait for the handshake goes wrong.  The buffer is searched for a string
  before a terminator was stored in it: if the array holds nothing yet, the first output of
  \<open>openssl\<close> is followed by a read of uninitialised memory.  And the end of the file is not a
  reason to stop: no number of iterations lets \<open>makeReq\<close> return, and it does nothing more.  (With
  the descriptors \<open>makeReq\<close> keeps open the read does not even report the end, see \<open>SslPipes\<close>.)
\<close>

lemma openssl_wait_fails:
  assumes "answers w = [0, t0, t1, 0, f0, f1, child] @ rest" "child \<noteq> 0"
  shows "(inputs w f0 = Chunk hs # is \<longrightarrow> hs \<noteq> [] \<longrightarrow> cstr_ok hs \<longrightarrow> length hs < OLD_BUFSIZE \<longrightarrow>
       fst (makeReq (Suc fuel) (replicate OLD_BUFSIZE Junk) header w) = Inl UninitRead)
     \<and> (inputs w f0 = [Eof] \<longrightarrow>
       makeReq fuel (replicate OLD_BUFSIZE (Val 0)) header w = (Inl NoFuel, w\<lparr>answers := rest\<rparr>))"
proof -
  obtain k where k: "OLD_BUFSIZE = Suc k" by (metis OLD_BUFSIZE_def gr0_implies_Suc zero_less_numeral mult_pos_pos)
  have "cell_str (replicate OLD_BUFSIZE (Val 0)) = Inr []" by (simp add: k)
  moreover have "\<not> sublist verify_ok []" by (simp add: verify_ok_def cs_def)
  ultimately show ?thesis
    using openssl_reads_junk [OF assms] openssl_eof_never_ends [OF assms, of "replicate OLD_BUFSIZE (Val 0)" "[]"]
    by simp
qed

lemma openssl_wait_fails_witness:
  "fst (makeReq 5 (replicate OLD_BUFSIZE Junk) [] (world0\<lparr>answers := [0, 3, 4, 0, 5, 6, 77],
     inputs := (\<lambda>_. [Chunk verify_ok])\<rparr>)) = Inl UninitRead
   \<and> fst (makeReq 5 (replicate OLD_BUFSIZE (Val 0)) [] (world0\<lparr>answers := [0, 3, 4, 0, 5, 6, 77],
     inputs := (\<lambda>_. [Eof])\<rparr>)) = Inl NoFuel"
proof
  show "fst (makeReq 5 (replicate OLD_BUFSIZE Junk) [] (world0\<lparr>answers := [0, 3, 4, 0, 5, 6, 77],
     inputs := (\<lambda>_. [Chunk verify_ok])\<rparr>)) = Inl UninitRead"
    using openssl_wait_fails [of "world0\<lparr>answers := [0, 3, 4, 0, 5, 6, 77], inputs := (\<lambda>_. [Chunk verify_ok])\<rparr>"
      3 4 5 6 77 "[]" verify_ok "[]" 4 "[]"]
    by (simp add: verify_ok_def cs_def cstr_ok_def OLD_BUFSIZE_def)
  show "fst (makeReq 5 (replicate OLD_BUFSIZE (Val 0)) [] (world0\<lparr>answers := [0, 3, 4, 0, 5, 6, 77],
     inputs := (\<lambda>_. [Eof])\<rparr>)) = Inl NoFuel"
    using openssl_wait_fails [of "world0\<lparr>answers := [0, 3, 4, 0, 5, 6, 77], inputs := (\<lambda>_. [Eof])\<rparr>"
      3 4 5 6 77 "[]" verify_ok "[]" 5 "[]"] by simp
qed

text \<open>
  The child of \<open>makeReq\<close> gives the text of the \<open>Host\<close> line of the client to the shell
  as it is, whatever characters it has, as part of one command line of at most 1023 bytes; a
  longer one overflows the array it is built in.
\<close>

lemma openssl_child_command:
  assumes "\<not> sublist (cs ''Host: '') pre" "\<not> sublist crlf h"
  shows "ssl_command (pre @ cs ''Host: '' @ h @ crlf @ post) =
     (if length h < 998 then Inr (cs ''openssl s_client -connect '' @ h) else Inl OutOfBounds)"
proof -
  have 1: "c_strstr (pre @ cs ''Host: '' @ h @ crlf @ post) (cs ''Host: '') = Some (length pre)"
    using find_host [OF assms(1)] .
  have d: "drop (length pre + 6) (pre @ cs ''Host: '' @ h @ crlf @ post) = h @ crlf @ post"
    by (simp add: cs_def)
  have 2: "c_strstr (h @ crlf @ post) crlf = Some (length h)"
    using c_strstr_first [OF crlf_needle(2), of h post] assms(2) by (simp add: crlf_needle)
  have l: "length (cs ''openssl s_client -connect '') = 26" by (simp add: cs_def)
  show ?thesis unfolding ssl_command_def 1 option.case Let_def d 2 by (simp add: l)
qed

lemma openssl_child_command_witness:
  "ssl_command (cs ''Host: a;reboot'' @ crlf) = Inr (cs ''openssl s_client -connect a;reboot'')"
  using openssl_child_command [of "[]" "cs ''a;reboot''" "[]"]
  by (simp add: c_strstr_None [symmetric] cs_def crlf_def)

end
