(* ===== verification/SslPipes.thy ===== *)
theory SslPipes
  imports OldServer
begin

text \<open>
  \<open>makeReq\<close> of \<open>old_server.c\<close> as two processes.  After \<open>fork\<close> both hold all four ends of the
  two pipes; the child puts two of them in the place of its standard streams, closes the others
  and becomes a shell with \<open>openssl\<close>; the parent closes its ends after \<open>waitpid\<close> only.  A read
  from an empty pipe waits as long as any process holds its writing end, so who holds what decides
  whether the end of a process is noticed.  What \<open>openssl\<close> writes and reads, and when it ends, is
  left open.
\<close>

section \<open>Descriptor tables\<close>

datatype pipe = ToSSL | FromSSL

datatype fd_end = ReadEnd pipe | WriteEnd pipe | Plain nat

type_synonym fdtab = "int \<Rightarrow> fd_end option"

datatype fd_call = Dup2 int int | Close int

text \<open>\<open>dup2\<close> of a descriptor that is not open fails and changes nothing; no result is checked.\<close>

fun do_call :: "fd_call \<Rightarrow> fdtab \<Rightarrow> fdtab" where
  "do_call (Dup2 a b) fds = (case fds a of None \<Rightarrow> fds | Some f \<Rightarrow> fds(b := Some f))"
| "do_call (Close a) fds = fds(a := None)"

definition make_pipe :: "pipe \<Rightarrow> int \<times> int \<Rightarrow> fdtab \<Rightarrow> fdtab" where
  "make_pipe p ends fds = fds(fst ends := Some (ReadEnd p), snd ends := Some (WriteEnd p))"

text \<open>The calls of the child before it looks for the host, and those of the parent in the end.\<close>

definition close_calls :: "int \<times> int \<Rightarrow> int \<times> int \<Rightarrow> fd_call list" where
  "close_calls fromSSL toSSL = [Close (snd fromSSL), Close (fst fromSSL), Close (fst toSSL), Close (snd toSSL)]"

definition child_calls :: "int \<times> int \<Rightarrow> int \<times> int \<Rightarrow> fd_call list" where
  "child_calls fromSSL toSSL = [Dup2 (snd fromSSL) 1, Dup2 (fst toSSL) 0] @ close_calls fromSSL toSSL"

section \<open>States and steps\<close>

text \<open>
  Where the parent is: in its first loop, before the request, in its second loop, in
  \<open>waitpid\<close>, closing the pipes, or at its end.  \<open>Killed\<close> is the end by \<open>SIGPIPE\<close>.
\<close>

datatype parent_pc =
    Verifying "byte cell list" u64 | Sending "byte cell list" | Responding "byte cell list" u64
  | Awaiting "byte list" | Closing "byte list" "fd_call list" | Finished "byte list"
  | Undefined halt | Killed

datatype child_pc = Calling "fd_call list" | Speaking cstr | Gone

record ssl_state =
  ptab :: fdtab
  ctab :: fdtab
  held_bytes :: "pipe \<Rightarrow> byte list"
  ppc :: parent_pc
  task :: child_pc

text \<open>The rest of an iteration of the two loops, after \<open>read\<close> returned the bytes \<open>bs\<close>.\<close>

definition verify_got :: "byte list \<Rightarrow> byte cell list \<Rightarrow> u64 \<Rightarrow> parent_pc" where
  "verify_got bs buf n = (case put_cells buf (unat n) bs of Inl e \<Rightarrow> Undefined e
     | Inr buf' \<Rightarrow> (case cell_str buf' of Inl e \<Rightarrow> Undefined e
         | Inr s \<Rightarrow> if c_strstr s verify_ok \<noteq> None then Sending buf'
             else Verifying buf' (n + of_nat (length bs))))"

definition response_got :: "byte list \<Rightarrow> byte cell list \<Rightarrow> u64 \<Rightarrow> parent_pc" where
  "response_got bs buf n = (case put_cells buf (unat n) bs of Inl e \<Rightarrow> Undefined e
     | Inr buf1 \<Rightarrow> (let n' = n + of_nat (length bs) in case put_cells buf1 (unat n') [0] of Inl e \<Rightarrow> Undefined e
         | Inr buf2 \<Rightarrow> (case cell_str buf2 of Inl e \<Rightarrow> Undefined e
             | Inr s \<Rightarrow> (case find_response s of None \<Rightarrow> Responding buf2 n'
                 | Some (res_start, res_end) \<Rightarrow> (case response_body s res_start res_end of
                       Inl e \<Rightarrow> Undefined e | Inr body \<Rightarrow> Awaiting body)))))"

fun parent_got :: "byte list \<Rightarrow> parent_pc \<Rightarrow> parent_pc" where
  "parent_got bs (Verifying buf n) = verify_got bs buf n"
| "parent_got bs (Responding buf n) = response_got bs buf n"
| "parent_got bs pc = pc"

text \<open>A read that fails takes one off the count; the buffer is looked at as after any other read.\<close>

fun parent_failed :: "parent_pc \<Rightarrow> parent_pc" where
  "parent_failed (Verifying buf n) = verify_got [] buf (n - 1)"
| "parent_failed (Responding buf n) = response_got [] buf (n - 1)"
| "parent_failed pc = pc"

fun reading :: "parent_pc \<Rightarrow> bool" where
  "reading (Verifying buf n) = True"
| "reading (Responding buf n) = True"
| "reading pc = False"

definition open_end :: "ssl_state \<Rightarrow> fd_end \<Rightarrow> bool" where
  "open_end s f \<longleftrightarrow> f \<in> ran (ptab s) \<or> f \<in> ran (ctab s)"

text \<open>A reader of the pipe gets the end of the file.\<close>

definition at_end :: "ssl_state \<Rightarrow> pipe \<Rightarrow> bool" where
  "at_end s p \<longleftrightarrow> held_bytes s p = [] \<and> \<not> open_end s (WriteEnd p)"

text \<open>
  \<open>cap\<close> is the capacity of a pipe.  The parent reads, at the end of the file or with a bad
  descriptor too; it sends the request, waits for the child and closes.  The child makes its calls, becomes
  the command, and then reads and writes its standard streams and ends as it likes.
\<close>

inductive ssl_step :: "nat \<Rightarrow> cstr \<Rightarrow> int \<times> int \<Rightarrow> int \<times> int \<Rightarrow> ssl_state \<Rightarrow> ssl_state \<Rightarrow> bool"
  for cap header fromSSL toSSL where
  parent_reads: "reading (ppc s) \<Longrightarrow> ptab s (fst fromSSL) = Some (ReadEnd p) \<Longrightarrow> held_bytes s p = bs @ r \<Longrightarrow>
    bs \<noteq> [] \<Longrightarrow> length bs \<le> OLD_BUFSIZE \<Longrightarrow> ssl_step cap header fromSSL toSSL s
      (s\<lparr>held_bytes := (held_bytes s)(p := r), ppc := parent_got bs (ppc s)\<rparr>)"
| parent_reads_end: "reading (ppc s) \<Longrightarrow> ptab s (fst fromSSL) = Some (ReadEnd p) \<Longrightarrow> at_end s p \<Longrightarrow>
    ssl_step cap header fromSSL toSSL s (s\<lparr>ppc := parent_got [] (ppc s)\<rparr>)"
| parent_fails: "reading (ppc s) \<Longrightarrow> \<forall>p. ptab s (fst fromSSL) \<noteq> Some (ReadEnd p) \<Longrightarrow>
    ssl_step cap header fromSSL toSSL s (s\<lparr>ppc := parent_failed (ppc s)\<rparr>)"
| parent_sends: "ppc s = Sending buf \<Longrightarrow> request_line header = Inr req \<Longrightarrow> ptab s (snd toSSL) = Some (WriteEnd p) \<Longrightarrow>
    open_end s (ReadEnd p) \<Longrightarrow> length (held_bytes s p @ req) \<le> cap \<Longrightarrow> ssl_step cap header fromSSL toSSL s
      (s\<lparr>held_bytes := (held_bytes s)(p := held_bytes s p @ req), ppc := Responding buf 0\<rparr>)"
| parent_sends_nothing: "ppc s = Sending buf \<Longrightarrow> request_line header = Inr req \<Longrightarrow>
    \<forall>p. ptab s (snd toSSL) \<noteq> Some (WriteEnd p) \<Longrightarrow>
    ssl_step cap header fromSSL toSSL s (s\<lparr>ppc := Responding buf 0\<rparr>)"
| parent_killed: "ppc s = Sending buf \<Longrightarrow> request_line header = Inr req \<Longrightarrow> ptab s (snd toSSL) = Some (WriteEnd p) \<Longrightarrow>
    \<not> open_end s (ReadEnd p) \<Longrightarrow>
    ssl_step cap header fromSSL toSSL s (s\<lparr>ptab := Map.empty, ppc := Killed\<rparr>)"
| parent_bad_request: "ppc s = Sending buf \<Longrightarrow> request_line header = Inl e \<Longrightarrow>
    ssl_step cap header fromSSL toSSL s (s\<lparr>ppc := Undefined e\<rparr>)"
| parent_reaps: "ppc s = Awaiting body \<Longrightarrow> task s = Gone \<Longrightarrow>
    ssl_step cap header fromSSL toSSL s (s\<lparr>ppc := Closing body (close_calls fromSSL toSSL)\<rparr>)"
| parent_closes: "ppc s = Closing body (c # calls) \<Longrightarrow>
    ssl_step cap header fromSSL toSSL s (s\<lparr>ptab := do_call c (ptab s), ppc := Closing body calls\<rparr>)"
| parent_returns: "ppc s = Closing body [] \<Longrightarrow>
    ssl_step cap header fromSSL toSSL s (s\<lparr>ppc := Finished body\<rparr>)"
| child_call: "task s = Calling (c # calls) \<Longrightarrow>
    ssl_step cap header fromSSL toSSL s (s\<lparr>ctab := do_call c (ctab s), task := Calling calls\<rparr>)"
| child_runs: "task s = Calling [] \<Longrightarrow> ssl_command header = Inr command \<Longrightarrow>
    ssl_step cap header fromSSL toSSL s (s\<lparr>task := Speaking command\<rparr>)"
| child_crashes: "task s = Calling [] \<Longrightarrow> ssl_command header = Inl e \<Longrightarrow>
    ssl_step cap header fromSSL toSSL s (s\<lparr>ctab := Map.empty, task := Gone\<rparr>)"
| child_says: "task s = Speaking command \<Longrightarrow> ctab s 1 = Some (WriteEnd p) \<Longrightarrow> length (held_bytes s p @ bs) \<le> cap \<Longrightarrow>
    open_end s (ReadEnd p) \<Longrightarrow> ssl_step cap header fromSSL toSSL s
      (s\<lparr>held_bytes := (held_bytes s)(p := held_bytes s p @ bs)\<rparr>)"
| child_hears: "task s = Speaking command \<Longrightarrow> ctab s 0 = Some (ReadEnd p) \<Longrightarrow> held_bytes s p = bs @ r \<Longrightarrow>
    ssl_step cap header fromSSL toSSL s (s\<lparr>held_bytes := (held_bytes s)(p := r)\<rparr>)"
| child_ends: "task s = Speaking command \<Longrightarrow>
    ssl_step cap header fromSSL toSSL s (s\<lparr>ctab := Map.empty, task := Gone\<rparr>)"

inductive_cases ssl_stepE: "ssl_step cap header fromSSL toSSL s t"

text \<open>After the two calls of \<open>pipe\<close> and \<open>fork\<close>; \<open>fds\<close> is the table of \<open>main\<close> before.\<close>

definition all_ends :: "fdtab \<Rightarrow> int \<times> int \<Rightarrow> int \<times> int \<Rightarrow> fdtab" where
  "all_ends fds fromSSL toSSL = make_pipe FromSSL fromSSL (make_pipe ToSSL toSSL fds)"

definition ssl_start :: "fdtab \<Rightarrow> byte cell list \<Rightarrow> int \<times> int \<Rightarrow> int \<times> int \<Rightarrow> ssl_state" where
  "ssl_start fds buf fromSSL toSSL = \<lparr>ptab = all_ends fds fromSSL toSSL, ctab = all_ends fds fromSSL toSSL,
     held_bytes = (\<lambda>p. []), ppc = Verifying buf 0, task = Calling (child_calls fromSSL toSSL)\<rparr>"

abbreviation ssl_runs where
  "ssl_runs cap header fds buf fromSSL toSSL \<equiv>
     (ssl_step cap header fromSSL toSSL)\<^sup>*\<^sup>* (ssl_start fds buf fromSSL toSSL)"

text \<open>The descriptors \<open>pipe\<close> returns: different, free before, and not those of the standard streams.\<close>

definition fresh_ends :: "fdtab \<Rightarrow> int \<times> int \<Rightarrow> int \<times> int \<Rightarrow> bool" where
  "fresh_ends fds fromSSL toSSL \<longleftrightarrow> distinct [fst fromSSL, snd fromSSL, fst toSSL, snd toSSL, 0, 1]
     \<and> (\<forall>fd \<in> {fst fromSSL, snd fromSSL, fst toSSL, snd toSSL}. fds fd = None)"

section \<open>Who holds which end\<close>

definition child_streams :: "fdtab \<Rightarrow> fdtab" where
  "child_streams fds = fds(0 := Some (ReadEnd ToSSL), 1 := Some (WriteEnd FromSSL))"

lemma child_calls_streams:
  assumes "fresh_ends fds fromSSL toSSL"
  shows "fold do_call (child_calls fromSSL toSSL) (all_ends fds fromSSL toSSL) = child_streams fds"
  using assms by (auto simp: fresh_ends_def child_calls_def close_calls_def all_ends_def make_pipe_def
      child_streams_def fun_eq_iff)

lemma all_ends_held:
  assumes "fresh_ends fds fromSSL toSSL"
  shows "all_ends fds fromSSL toSSL (fst fromSSL) = Some (ReadEnd FromSSL)"
    "all_ends fds fromSSL toSSL (snd toSSL) = Some (WriteEnd ToSSL)"
    "ReadEnd p \<in> ran (all_ends fds fromSSL toSSL)" "WriteEnd p \<in> ran (all_ends fds fromSSL toSSL)"
proof -
  let ?ends = "all_ends fds fromSSL toSSL"
  have e: "?ends (fst fromSSL) = Some (ReadEnd FromSSL)" "?ends (snd fromSSL) = Some (WriteEnd FromSSL)"
    "?ends (fst toSSL) = Some (ReadEnd ToSSL)" "?ends (snd toSSL) = Some (WriteEnd ToSSL)"
    using assms by (auto simp: fresh_ends_def all_ends_def make_pipe_def)
  note r = ranI [of ?ends, OF e(1)] ranI [of ?ends, OF e(2)] ranI [of ?ends, OF e(3)] ranI [of ?ends, OF e(4)]
  show "?ends (fst fromSSL) = Some (ReadEnd FromSSL)" "?ends (snd toSSL) = Some (WriteEnd ToSSL)" by (fact e)+
  show "ReadEnd p \<in> ran ?ends" using r(1,3) by (cases p) (simp_all only:)
  show "WriteEnd p \<in> ran ?ends" using r(2,4) by (cases p) (simp_all only:)
qed

text \<open>The parent has all ends until \<open>waitpid\<close> has returned.\<close>

fun holds_ends :: "parent_pc \<Rightarrow> bool" where
  "holds_ends (Closing body calls) = False"
| "holds_ends (Finished body) = False"
| "holds_ends Killed = False"
| "holds_ends pc = True"

fun child_inv :: "cstr \<Rightarrow> fdtab \<Rightarrow> int \<times> int \<Rightarrow> int \<times> int \<Rightarrow> fdtab \<Rightarrow> child_pc \<Rightarrow> bool" where
  "child_inv header fds fromSSL toSSL ct (Calling calls) \<longleftrightarrow>
     fold do_call calls ct = child_streams fds"
| "child_inv header fds fromSSL toSSL ct (Speaking command) \<longleftrightarrow>
     ct = child_streams fds \<and> ssl_command header = Inr command"
| "child_inv header fds fromSSL toSSL ct Gone \<longleftrightarrow> ct = Map.empty"

definition ssl_inv :: "cstr \<Rightarrow> fdtab \<Rightarrow> int \<times> int \<Rightarrow> int \<times> int \<Rightarrow> ssl_state \<Rightarrow> bool" where
  "ssl_inv header fds fromSSL toSSL s \<longleftrightarrow> ppc s \<noteq> Killed
     \<and> (holds_ends (ppc s) \<longrightarrow> ptab s = all_ends fds fromSSL toSSL)
     \<and> child_inv header fds fromSSL toSSL (ctab s) (task s)"

lemma ssl_inv_start: "fresh_ends fds fromSSL toSSL \<Longrightarrow> ssl_inv header fds fromSSL toSSL (ssl_start fds buf fromSSL toSSL)"
  by (simp add: ssl_inv_def ssl_start_def child_calls_streams)

lemma verify_got_holds: "holds_ends (verify_got bs buf n)" "verify_got bs buf n \<noteq> Killed"
  by (auto simp: verify_got_def split: sum.splits)

lemma response_got_holds: "holds_ends (response_got bs buf n)" "response_got bs buf n \<noteq> Killed"
  by (auto simp: response_got_def Let_def split: sum.splits option.splits)

lemma parent_got_holds:
  assumes "reading pc"
  shows "holds_ends (parent_got bs pc)" "parent_got bs pc \<noteq> Killed"
    "holds_ends (parent_failed pc)" "parent_failed pc \<noteq> Killed" "holds_ends pc"
  using assms by (cases pc; simp add: verify_got_holds response_got_holds)+

lemma ssl_inv_open:
  assumes "ssl_inv header fds fromSSL toSSL s" "fresh_ends fds fromSSL toSSL" "holds_ends (ppc s)"
  shows "open_end s (ReadEnd p)" "open_end s (WriteEnd p)" "\<not> at_end s p"
  using assms all_ends_held(3,4) [OF assms(2)] by (simp_all add: ssl_inv_def open_end_def at_end_def)

lemma ssl_inv_step:
  assumes "ssl_step cap header fromSSL toSSL s t" "ssl_inv header fds fromSSL toSSL s" "fresh_ends fds fromSSL toSSL"
  shows "ssl_inv header fds fromSSL toSSL t"
  using assms(1)
proof cases
  case (parent_killed buf req p)
  then show ?thesis using ssl_inv_open(1) [OF assms(2,3), of p] by simp
qed (use assms(2) parent_got_holds [of "ppc s"] in \<open>auto simp: ssl_inv_def\<close>)

lemma ssl_inv_run:
  assumes "ssl_runs cap header fds buf fromSSL toSSL s" "fresh_ends fds fromSSL toSSL"
  shows "ssl_inv header fds fromSSL toSSL s"
  using assms(1)
proof (induction rule: rtranclp_induct)
  case base
  then show ?case by (rule ssl_inv_start [OF assms(2)])
qed (blast intro: ssl_inv_step assms(2))

lemma ssl_stuck:
  assumes "ssl_inv header fds fromSSL toSSL s" "fresh_ends fds fromSSL toSSL"
    and "task s = Gone" "reading (ppc s)" "held_bytes s FromSSL = []"
  shows "\<not> ssl_step cap header fromSSL toSSL s t"
proof
  have p: "ptab s (fst fromSSL) = Some (ReadEnd FromSSL)"
    using assms all_ends_held(1) parent_got_holds(5) by (simp add: ssl_inv_def)
  assume "ssl_step cap header fromSSL toSSL s t"
  then show False
    using p assms(3-5) ssl_inv_open(3) [OF assms(1,2) parent_got_holds(5) [OF assms(4)]] by cases auto
qed

section \<open>A child that ends too early\<close>

lemma child_calls_run:
  assumes "task s = Calling calls"
  shows "(ssl_step cap header fromSSL toSSL)\<^sup>*\<^sup>* s (s\<lparr>ctab := fold do_call calls (ctab s), task := Calling []\<rparr>)"
  using assms
proof (induction calls arbitrary: s)
  case (Cons c calls)
  let ?s = "s\<lparr>ctab := do_call c (ctab s), task := Calling calls\<rparr>"
  have "ssl_step cap header fromSSL toSSL s ?s" by (rule child_call [OF Cons.prems])
  moreover have "(ssl_step cap header fromSSL toSSL)\<^sup>*\<^sup>* ?s
      (?s\<lparr>ctab := fold do_call calls (ctab ?s), task := Calling []\<rparr>)" by (rule Cons.IH) simp
  ultimately show ?case by (simp add: converse_rtranclp_into_rtranclp)
next
  case Nil
  then have "s\<lparr>ctab := fold do_call [] (ctab s), task := Calling []\<rparr> = s" by (cases s) simp
  then show ?case by simp
qed

lemma verify_got_again:
  assumes "cstr_ok out" "length out < OLD_BUFSIZE" "\<not> sublist verify_ok out"
  shows "\<exists>buf. verify_got out (replicate OLD_BUFSIZE (Val 0)) 0 = Verifying buf (of_nat (length out))"
proof (cases "out = []")
  case True
  obtain k where k: "OLD_BUFSIZE = Suc k" using assms(2) by (cases OLD_BUFSIZE) auto
  have "cell_str (replicate OLD_BUFSIZE (Val 0)) = Inr []" by (simp add: k)
  then show ?thesis using True assms(3) by (simp add: verify_got_def put_cells_def c_strstr_None)
next
  case False
  obtain k where k: "OLD_BUFSIZE - length out = Suc k" using assms(2) by (metis Suc_diff_Suc)
  have "cell_str (map Val out @ Val 0 # replicate k (Val 0)) = Inr out" by (rule cell_str_cells [OF assms(1)])
  then show ?thesis using False assms(2,3) k
    by (simp add: verify_got_def put_cells_def c_strstr_None)
qed

text \<open>
  The loops of \<open>makeReq\<close> go through these states: an iteration of \<open>wait_verify\<close> and of
  \<open>wait_response\<close> on a chunk is one \<open>parent_got\<close>.
\<close>

lemma read_more_got:
  assumes "inputs w fd = Chunk bs # is" "length bs \<le> OLD_BUFSIZE"
  shows "read_more fd buf n w = iob (lift (put_cells buf (unat n) bs))
     (\<lambda>buf'. ret (buf', n + of_nat (length bs))) (w\<lparr>inputs := (inputs w)(fd := is)\<rparr>)"
  using assms by (simp add: read_more_def sys_read_def iob_def)

lemma wait_verify_got:
  assumes "inputs w fd = Chunk bs # is" "length bs \<le> OLD_BUFSIZE"
  defines "w' \<equiv> w\<lparr>inputs := (inputs w)(fd := is)\<rparr>"
  shows "wait_verify (Suc fuel) fd buf n w = (case parent_got bs (Verifying buf n) of
     Verifying buf' n' \<Rightarrow> wait_verify fuel fd buf' n' w' | Sending buf' \<Rightarrow> (Inr buf', w') | Undefined e \<Rightarrow> (Inl e, w'))"
  unfolding wait_verify.simps iob_def read_more_got [OF assms(1,2)] w'_def
  by (simp add: verify_got_def split: sum.split)

lemma wait_response_got:
  assumes "inputs w fd = Chunk bs # is" "length bs \<le> OLD_BUFSIZE"
  defines "w' \<equiv> w\<lparr>inputs := (inputs w)(fd := is)\<rparr>"
  shows "iob (wait_response (Suc fuel) fd buf n) (\<lambda>(s, a, b). lift (response_body s a b)) w
    = (case parent_got bs (Responding buf n) of
        Responding buf' n' \<Rightarrow> iob (wait_response fuel fd buf' n') (\<lambda>(s, a, b). lift (response_body s a b)) w'
      | Awaiting body \<Rightarrow> (Inr body, w') | Undefined e \<Rightarrow> (Inl e, w'))"
  unfolding wait_response.simps iob_def read_more_got [OF assms(1,2)] w'_def
  by (simp add: response_got_def Let_def split: sum.split option.split prod.split)

lemma early_exit_run:
  assumes "fresh_ends fds fromSSL toSSL" "ssl_command header = Inr command"
    and "cstr_ok out" "length out < OLD_BUFSIZE" "length out \<le> cap" "\<not> sublist verify_ok out"
  shows "\<exists>s. ssl_runs cap header fds (replicate OLD_BUFSIZE (Val 0)) fromSSL toSSL s
     \<and> task s = Gone \<and> reading (ppc s) \<and> held_bytes s FromSSL = []"
proof -
  let ?b = "replicate OLD_BUFSIZE (Val 0 :: byte cell)" and ?run = "(ssl_step cap header fromSSL toSSL)\<^sup>*\<^sup>*"
  let ?ends = "all_ends fds fromSSL toSSL"
  let ?s1 = "\<lparr>ptab = ?ends, ctab = child_streams fds, held_bytes = (\<lambda>p. []), ppc = Verifying ?b 0, task = Calling []\<rparr>"
  let ?s2 = "?s1\<lparr>task := Speaking command\<rparr>"
  let ?s3 = "?s2\<lparr>held_bytes := (\<lambda>p. [])(FromSSL := out)\<rparr>"
  let ?s4 = "?s3\<lparr>ctab := Map.empty, task := Gone\<rparr>"
  note held = all_ends_held [OF assms(1)]
  have "?run (ssl_start fds ?b fromSSL toSSL) ?s1"
    using child_calls_run [of "ssl_start fds ?b fromSSL toSSL" "child_calls fromSSL toSSL" cap header fromSSL toSSL]
      child_calls_streams [OF assms(1)] by (simp add: ssl_start_def)
  moreover have "ssl_step cap header fromSSL toSSL ?s1 ?s2"
    using child_runs [of ?s1 header command] assms(2) by simp
  moreover have "ssl_step cap header fromSSL toSSL ?s2 ?s3"
    using child_says [of ?s2 command FromSSL out cap] assms(5) held(3) by (simp add: child_streams_def open_end_def)
  moreover have "ssl_step cap header fromSSL toSSL ?s3 ?s4"
    using child_ends [of ?s3 command] by simp
  ultimately have 4: "?run (ssl_start fds ?b fromSSL toSSL) ?s4" by (meson rtranclp.rtrancl_into_rtrancl)
  show ?thesis
  proof (cases "out = []")
    case True
    then show ?thesis using 4 by (intro exI [of _ ?s4]) simp
  next
    case False
    obtain buf where b: "verify_got out ?b 0 = Verifying buf (of_nat (length out))"
      using verify_got_again [OF assms(3,4,6)] by blast
    have "ssl_step cap header fromSSL toSSL ?s4 (?s4\<lparr>held_bytes := (held_bytes ?s4)(FromSSL := []), ppc := parent_got out (ppc ?s4)\<rparr>)"
      using False assms(4) held(1) by (intro parent_reads) simp_all
    with 4 show ?thesis using b
      by (intro exI [of _ "?s4\<lparr>held_bytes := (held_bytes ?s4)(FromSSL := []), ppc := parent_got out (ppc ?s4)\<rparr>"])
        (simp add: rtranclp.rtrancl_into_rtrancl)
  qed
qed

section \<open>Properties\<close>

text \<open>
  C37.  \<open>makeReq\<close> cannot notice that \<open>openssl\<close> has ended.  The command runs with the pipes in
  the place of its standard streams and no other end of them, but the parent keeps all four ends
  until \<open>waitpid\<close> returns: before that no read from either pipe gets the end of the file.  So,
  whenever the child is gone and the marks have not come, nothing can happen any more, and any
  output of the command without the first mark, also none at all, leads there.
\<close>

theorem openssl_exit_unnoticed:
  assumes "fresh_ends fds fromSSL toSSL" "ssl_command header = Inr command"
  shows "(\<forall>buf s. ssl_runs cap header fds buf fromSSL toSSL s \<longrightarrow>
      (\<forall>c. task s = Speaking c \<longrightarrow> c = command \<and> ctab s = child_streams fds)
    \<and> (holds_ends (ppc s) \<longrightarrow> \<not> at_end s FromSSL \<and> \<not> at_end s ToSSL)
    \<and> (task s = Gone \<and> reading (ppc s) \<and> held_bytes s FromSSL = [] \<longrightarrow>
         (\<forall>t. \<not> ssl_step cap header fromSSL toSSL s t)))
    \<and> (\<forall>out. cstr_ok out \<and> length out < OLD_BUFSIZE \<and> length out \<le> cap \<and> \<not> sublist verify_ok out \<longrightarrow>
         (\<exists>s. ssl_runs cap header fds (replicate OLD_BUFSIZE (Val 0)) fromSSL toSSL s \<and> task s = Gone \<and> reading (ppc s) \<and> held_bytes s FromSSL = []))"
proof (intro conjI allI impI)
  fix buf s assume r: "ssl_runs cap header fds buf fromSSL toSSL s"
  have i: "ssl_inv header fds fromSSL toSSL s" by (rule ssl_inv_run [OF r assms(1)])
  { fix c assume "task s = Speaking c"
    then show "c = command" "ctab s = child_streams fds" using i assms(2) by (simp_all add: ssl_inv_def) }
  { assume "holds_ends (ppc s)"
    then show "\<not> at_end s FromSSL" "\<not> at_end s ToSSL" using ssl_inv_open(3) [OF i assms(1)] by blast+ }
  { fix t assume "task s = Gone \<and> reading (ppc s) \<and> held_bytes s FromSSL = []"
    then show "\<not> ssl_step cap header fromSSL toSSL s t" using ssl_stuck [OF i assms(1)] by blast }
next
  fix out assume "cstr_ok out \<and> length out < OLD_BUFSIZE \<and> length out \<le> cap \<and> \<not> sublist verify_ok out"
  then show "\<exists>s. ssl_runs cap header fds (replicate OLD_BUFSIZE (Val 0)) fromSSL toSSL s \<and> task s = Gone \<and> reading (ppc s) \<and> held_bytes s FromSSL = []"
    using early_exit_run [OF assms(1,2)] by blast
qed

text \<open>The table of \<open>main\<close> with the three standard streams, the listening socket and the client.\<close>

definition sample_fds :: fdtab where
  "sample_fds = (\<lambda>fd. if 0 \<le> fd \<and> fd < 5 then Some (Plain (nat fd)) else None)"

theorem openssl_exit_unnoticed_witness:
  "\<exists>s. ssl_runs 65536 (cs ''Host: a'' @ crlf) sample_fds (replicate OLD_BUFSIZE (Val 0)) (7, 8) (5, 6) s
     \<and> task s = Gone \<and> (\<forall>t. \<not> ssl_step 65536 (cs ''Host: a'' @ crlf) (7, 8) (5, 6) s t)"
proof -
  have f: "fresh_ends sample_fds (7, 8) (5, 6)" by (simp add: fresh_ends_def sample_fds_def)
  have c: "ssl_command (cs ''Host: a'' @ crlf) = Inr (cs ''openssl s_client -connect a'')"
    by (simp add: ssl_command_def cs_def crlf_def)
  have o: "cstr_ok []" "length [] < OLD_BUFSIZE" "\<not> sublist verify_ok []"
    by (simp_all add: cstr_ok_def OLD_BUFSIZE_def verify_ok_def cs_def)
  from openssl_exit_unnoticed [OF f c, of 65536] o show ?thesis by (metis list.size(3) zero_le)
qed

end
