(* ===== verification/Spec2Isabelle.thy ===== *)
theory Spec2Isabelle
  imports SetSafety SetLimits SetAlias AcceptRace Handover SslRedirect Redirect DemoServer Containers SslPipes
begin

text \<open>
  A verification development for the proxy programs of this repository.

  \<^bold>\<open>The programs.\<close>  \<open>server.c\<close> is an HTTP CONNECT proxy: \<open>main\<close> loads a list of blocked
  hosts into a hash set, opens a port and starts a thread per connection; the thread reads the
  request, takes host and port from its \<open>Host\<close> line, refuses blocked hosts, connects to the others
  and copies bytes in both directions with a second thread.  \<open>ssl-redirect.c\<close> does the same for
  one connection, \<open>redirect.c\<close> is an HTTP proxy that redirects blocked requests to a fixed page,
  \<open>old_server.c\<close> an older proxy around a child running \<open>openssl s_client\<close>.  They share \<open>set.c\<close>
  (the hash set) and \<open>utils.c\<close> (complete reads and writes, connecting, the \<open>Host\<close> line).
  \<open>multiproc_serv.c\<close>, \<open>multiproc_client.c\<close> and \<open>client.c\<close> are a threaded demo server and two
  clients; \<open>Containers/container.c\<close> and \<open>Containers/test.c\<close> start containers.

  \<^bold>\<open>Theories.\<close>
  \<^item> \<open>CBase\<close>: the prelude.  Results (\<open>halt + 'a\<close>: undefined behaviour, aborts, \<open>exit\<close> and endless
    waiting are values of \<open>halt\<close>), memory blocks with uninitialised cells, the allocator with a
    script of outcomes and a count of live blocks, C strings, the \<open>for\<close> loop, and the assertion
    \<open>gives\<close> with its rules.
  \<^item> \<open>Float32\<close>: the single-precision quotient of the load test of \<open>__set_add\<close>, with error bounds.
  \<^item> \<open>Probe\<close>: open addressing on lists of slots: probe chains, and the re-layout passes after a
    growth and after a removal.
  \<^item> \<open>SimpleSet\<close>: the private and the basic public functions of \<open>set.c\<close> (\<open>__get_index\<close> is
    \<open>get_index\<close>, \<open>__relayout_nodes\<close> is \<open>relayout_nodes\<close>, and so on; the record \<open>simple_set\<close> has
    the fields of the C struct) and the invariant \<open>wf_set\<close>.  \<open>SetOps\<close>: contracts of insertion,
    removal, initialisation, clearing, destruction.  \<open>SetAlgebra\<close>: the operations on two sets and
    \<open>set_to_array\<close>.  \<open>StringSet\<close>: what a client may rely on, as the locale \<open>string_set\<close>
    and its extension \<open>string_set_ops\<close>.  \<open>SetSpec\<close>: \<open>set.c\<close> interprets both, and the properties.  \<open>SetLimits\<close>: when a set grows,
    failed allocations, a table without a free slot.  \<open>SetSafety\<close>: a weaker invariant that
    survives every sequence of calls, memory safety, termination of the probe.  \<open>SetAlias\<close>: the
    set operations on addresses, any of which may be equal.
  \<^item> \<open>Posix\<close>: the world a program talks to.  What the system answers is data of the record
    \<open>world\<close>; what a program does is its \<open>trace\<close>.  A computation of type \<open>'a io\<close> returns the
    world also when it halts.  \<open>CString\<close>: \<open>strstr\<close>, \<open>strncpy\<close>, arrays and strings.
  \<^item> \<open>Utils\<close>: \<open>utils.c\<close>.  \<open>Blocklist\<close>: loading and asking the block list, as in \<open>server.c\<close> and
    \<open>ssl-redirect.c\<close>, and the contract of a block list as the locales \<open>block_list\<close> and
    \<open>exact_block_list\<close>, interpreted here (\<open>hash_list\<close>), in \<open>Redirect\<close> (\<open>array_list\<close>) and in
    \<open>DemoServer\<close> (\<open>scan_list\<close>).  \<open>Relay\<close>: the copying loop.  \<open>Server\<close>: \<open>HandleConnection\<close>, \<open>HostToCli\<close> and
    \<open>main\<close> of \<open>server.c\<close>.  \<open>AcceptRace\<close>: a step relation for \<open>main\<close> and its threads on the
    variable \<open>client_fd\<close>.  \<open>Tunnel\<close>: \<open>HandleConnection\<close> and \<open>HostToCli\<close> interleaved, on the
    descriptors of the process and the array \<open>fds\<close>; a run of \<open>relay\<close> is a run of one thread there
    (\<open>relay_pump_ends\<close>).  \<open>Process\<close>: any number of such tunnels on one kernel.  \<open>Handover\<close>: \<open>main\<close>,
    the handlers and their tunnels together; its runs are runs of \<open>Process\<close>.  \<open>SslRedirect\<close>, \<open>Redirect\<close>, \<open>OldServer\<close>, \<open>DemoServer\<close> and \<open>Containers\<close>:
    the other programs.  \<open>SslPipes\<close>: the two processes of \<open>makeReq\<close> in \<open>old_server.c\<close> on their
    descriptor tables and the two pipes.
  \<^item> This theory: properties that join the loader, the set and the connection handler, and that
    compare the programs.

  \<^bold>\<open>What the lemmas show.\<close>  The set refines a mathematical set, in every sequence of calls whose
  removals are of keys with a cluster that does not wrap around the end of the table; every public
  function has its functional contract on well-formed sets, with the codes and the memory
  balance when allocations fail; the removal of the key in the last slot loses every key whose probe has
  wrapped around (\<open>set_remove_loses_key\<close>); \<open>set_union\<close> and \<open>set_is_subset\<close> drop error codes
  (\<open>set_union_drops_keys\<close>, \<open>full_set_includes_all\<close>).  Also after a lossy removal no call reads or writes outside initialised memory.  The proxy connects to no address that only blocked
  names have, closes what it opens, forwards every byte when writes are complete, and otherwise a
  subsequence.  The two threads of a tunnel do not mix its directions while the other threads keep off its sockets,
  but the tunnel ends only when the client ends it, and then \<open>HostToCli\<close> may read a dead array, or write to a
  descriptor that belongs to another connection by now.  When every thread has read its argument
  before the next \<open>accept\<close>, and every \<open>HostToCli\<close> ends before its client is closed, the whole proxy keeps its clients
  apart (\<open>timely_server_isolated\<close>).  The parser of the \<open>Host\<close> line inverts the line it is meant for and is undefined
  exactly on the others.  \<open>redirect.c\<close> answers a blocked request with a fixed page and ends at the first
  other one (\<open>redirect_one_response\<close>); \<open>old_server.c\<close> waits for ever for a child that ended early, since it
  holds the other ends of its pipes (\<open>openssl_exit_unnoticed\<close>); each client costs the demo server a descriptor, with
  a block list file two (\<open>demo_thread_leaks\<close>).  Where a program fails, the theorem says on which input and how.

  \<^bold>\<open>Bounds.\<close>  Counters keep their 64 bits; sets have less than \<open>2 ^ 60\<close> slots (\<open>2 ^ 55\<close> in the
  operations on two sets), so that no size computation wraps.  \<open>get_index_loop\<close> has as much fuel as
  there are slots, which \<open>probe_terminates\<close> shows to be enough; the loops of \<open>ssl-redirect.c\<close>,
  \<open>redirect.c\<close> and \<open>old_server.c\<close> that have no exit take fuel, and the theorems hold for any amount of it or
  say how much is enough.  The other loops end because each iteration uses up part of the script
  of the world.

  \<^bold>\<open>Not modelled.\<close>  Output to the terminal; the buffer \<open>getline\<close> allocates; when signals arrive; the
  interleaving of threads and processes outside \<open>AcceptRace\<close>, \<open>Tunnel\<close>, \<open>Process\<close>, \<open>Handover\<close> and
  \<open>SslPipes\<close>; in \<open>Tunnel\<close> the other threads are assumed to use their own sockets only (\<open>other_step\<close>), which
  the code does not ensure and \<open>Process\<close> and \<open>Handover\<close> show for the schedules they describe;
  a failing \<open>pthread_create\<close>, whose result no program looks at; flags of system calls.  A read
  error in the loop of \<open>ssl-redirect.c\<close> ends the model: the next call is
  \<open>write(fd, buf, (size_t)-1)\<close>, which POSIX leaves to the implementation for that length and which reads far
  past the buffer.  A call of \<open>strstr\<close> on an array needs a string in it, also when the text it
  looks for comes first.  The vector of \<open>container.c\<close> is a
  binary library: it is an argument of the definitions, \<open>vector_laws\<close> says what is relied on.
  \<open>Containers/includes\<close> has only declarations of that library.
\<close>

section \<open>Properties of several programs\<close>

text \<open>
  C4.  The proxy enforces its block list file.  With the set \<open>main\<close> loads from the file, a
  complete request (\<open>requests\<close>) for a host of the list is answered with \<open>403 Forbidden\<close> and closed,
  nothing else, if the kernel takes what is written to the client (\<open>good_outs\<close>); and whatever any
  client sends, every address the proxy connects to is one that a name resolves to which is not in
  the list.
\<close>

theorem proxy_enforces_file:
  assumes "\<forall>l \<in> set ls. plain l" "plain rest" "9 * (length ls + 1) < 2 ^ 60" "mem_ok m"
  shows "\<exists>s m'. load_blocklist (Some (file_of ls rest)) m = Inr (s, m')
     \<and> (\<forall>w c h pt is. requests w c h pt is \<longrightarrow> h \<in> set (names_of ls rest) \<longrightarrow> good_outs (outs w c) \<longrightarrow>
          (\<exists>w' ps. HandleConnection s c w = (Inr (), w')
            \<and> trace w' = trace w @ map (Sent c) ps @ [Shut c, Closed c] \<and> concat ps = msg_forbidden))
     \<and> (\<forall>w c. \<exists>es. trace (snd (HandleConnection s c w)) = trace w @ es
          \<and> (\<forall>d ai rc. Connected d ai rc \<in> set es \<longrightarrow>
               (\<exists>h pt ais. h \<notin> set (names_of ls rest) \<and> resolver w h pt = Inr (ai # ais))))"
proof -
  obtain s m' where l: "load_blocklist (Some (file_of ls rest)) m = Inr (s, m')"
    and b: "blocks s (set (names_of ls rest))"
    by (rule load_blocklist_file [OF assms])
  have "\<exists>es. trace (snd (HandleConnection s c w)) = trace w @ es
      \<and> (\<forall>d ai rc. Connected d ai rc \<in> set es \<longrightarrow>
           (\<exists>h pt ais. h \<notin> set (names_of ls rest) \<and> resolver w h pt = Inr (ai # ais)))" for w c
    using HandleConnection_avoids [OF b, of w c] by (auto simp: leaves_def avoids_def)
  with l show ?thesis using blocked_host_refused [OF _ b] by blast
qed

theorem proxy_enforces_file_witness:
  "\<exists>s m' w' ps. load_blocklist (Some (google @ [10])) mem0 = Inr (s, m')
     \<and> HandleConnection s 3 sample_world = (Inr (), w')
     \<and> trace w' = map (Sent 3) ps @ [Shut 3, Closed 3] \<and> concat ps = msg_forbidden"
proof -
  have f: "\<forall>l \<in> set [google]. plain l" "plain []" "9 * (length [google] + 1) < 2 ^ 60"
    by (simp_all add: plain_def google_def cs_def)
  have "good_outs (outs sample_world 3)" "trace sample_world = []" "google \<in> set (names_of [google] [])"
    by (simp_all add: good_outs_def sample_world_def world0_def names_of_def)
  with proxy_enforces_file [OF f mem0_ok(1)] sample_requests show ?thesis
    by (fastforce simp: file_of_def)
qed

text \<open>
  C20.  The three block list implementations on one file of less than 100 complete lines (the array
  of \<open>redirect.c\<close> has 100 entries and is overrun by a longer file): the hash set of \<open>server.c\<close> and
  \<open>ssl-redirect.c\<close> and the scan of the file in \<open>multiproc_serv.c\<close> block the same names; the
  array of \<open>redirect.c\<close> blocks these and every name that begins with one of them.
\<close>

theorem block_lists_agree:
  assumes "\<forall>l \<in> set ls. plain l" "plain rest" "length ls < 100" "mem_ok m"
  shows "\<exists>s m1 arr m2. load_blocklist (Some (file_of ls rest)) m = Inr (s, m1)
     \<and> load_block_arr (Some (file_of ls rest)) m = Inr (arr, m2)
     \<and> (\<forall>name. \<exists>b. line_listed (getlines [] (file_of ls rest)) name = Inr b
          \<and> checkBlocklist s name = Inr (if b then 1 else 0)
          \<and> (b \<longleftrightarrow> name \<in> set arr) \<and> (host_blocked arr name \<longleftrightarrow> (\<exists>l \<in> set arr. prefix l name)))"
proof -
  have n: "9 * (length ls + 1) < 2 ^ 60" "length ls < MAX_BLOCKED" using assms(3) by (simp_all add: MAX_BLOCKED_def)
  note f = assms(1,2)
  obtain s m1 where 1: "load_blocklist (Some (file_of ls rest)) m = Inr (s, m1)" "blocks s (set (names_of ls rest))"
    using hash_list.load_law [OF f n(1) assms(4)] by blast
  obtain arr m2 where 2: "load_block_arr (Some (file_of ls rest)) m = Inr (arr, m2)"
    "array_holds arr (set (names_of ls rest))"
    using array_list.load_law [OF f n(2) assms(4)] by blast
  obtain lines m3 where 3: "scan_load (Some (file_of ls rest)) m = Inr (lines, m3)"
    "scan_holds lines (set (names_of ls rest))"
    using scan_list.load_law [OF f TrueI assms(4)] by blast
  have a: "set arr = set (names_of ls rest)" using 2(2) unfolding array_holds_def by blast
  have l: "lines = getlines [] (file_of ls rest)" using 3(1) by (simp add: scan_load_def)
  have "line_listed (getlines [] (file_of ls rest)) h = Inr (h \<in> set arr)" for h
    using scan_list.asks_law [OF 3(2)] unfolding a l .
  moreover have "host_blocked arr h \<longleftrightarrow> (\<exists>l \<in> set arr. prefix l h)" for h
    using array_list.asks_law [OF 2(2), of h] unfolding a by simp
  moreover have "checkBlocklist s h = Inr (if h \<in> set arr then 1 else 0)" for h
    using checkBlocklist_blocks [OF 1(2)] unfolding a .
  ultimately show ?thesis using 1(1) 2(1)
    by (intro exI [of _ s] exI [of _ m1] exI [of _ arr] exI [of _ m2]) simp
qed

theorem block_lists_agree_witness:
  "\<exists>s m1 arr m2. load_blocklist (Some (google @ [10])) mem0 = Inr (s, m1)
     \<and> load_block_arr (Some (google @ [10])) mem0 = Inr (arr, m2)
     \<and> (\<forall>name. line_listed [google @ [10]] name = Inr (name \<in> set arr))"
proof -
  have f: "file_of [google] [] = google @ [10]" "getlines [] (google @ [10]) = [google @ [10]]"
    "\<forall>l \<in> set [google]. plain l" "plain []" "length [google] < 100"
    by (simp_all add: file_of_def google_def cs_def plain_def)
  have "\<exists>s m1 arr m2. load_blocklist (Some (google @ [10])) mem0 = Inr (s, m1)
     \<and> load_block_arr (Some (google @ [10])) mem0 = Inr (arr, m2)
     \<and> (\<forall>name. \<exists>b. line_listed [google @ [10]] name = Inr b
          \<and> checkBlocklist s name = Inr (if b then 1 else 0)
          \<and> (b \<longleftrightarrow> name \<in> set arr) \<and> (host_blocked arr name \<longleftrightarrow> (\<exists>l \<in> set arr. prefix l name)))"
    using block_lists_agree [OF f(3-5) mem0_ok(1)] unfolding f(1,2) .
  then show ?thesis by blast
qed

end
